theory Spec2Isabelle
  imports Complex_Main
begin

section \<open>The grid, the page elements and the global variables of Maze.js\<close>

text \<open>
  A cell is the two-element array \<open>[row, column]\<close>. JavaScript numbers that hold
  small integers are modelled as \<open>int\<close>. Reading a property of \<open>undefined\<close> or
  \<open>null\<close> throws a \<open>TypeError\<close>; \<open>GenerateGrid\<close> throws an \<open>Error\<close> with a
  message.
\<close>

type_synonym cell = "int \<times> int"

datatype error = TypeError | Error string

text \<open>
  The inline style of one \<open>div.grid-item\<close>. A freshly created element has the empty
  string in every property.
\<close>

record style =
  borderTopColor :: string
  borderRightColor :: string
  borderBottomColor :: string
  borderLeftColor :: string
  backgroundColor :: string

definition new_grid_item :: style where
  "new_grid_item = \<lparr>borderTopColor = [], borderRightColor = [], borderBottomColor = [],
     borderLeftColor = [], backgroundColor = []\<rparr>"

text \<open>
  The global variables. \<open>grid_items\<close> are the children of \<open>grid-container\<close>; child
  \<open>i\<close> has the id \<open>grid-item i\<close>. \<open>visited\<close> is a JavaScript array read for its
  truthiness: an index that was never written reads \<open>undefined\<close>, which is falsy, and
  a write at any index (also \<open>-1\<close>) is remembered. \<open>math_random\<close> is the sequence of
  numbers that successive calls of \<open>Math.random()\<close> return, taken as exact reals, and
  \<open>random_calls\<close> counts the calls made so far.
\<close>

record maze =
  num_rows :: int
  num_columns :: int
  visited :: "int \<Rightarrow> bool"
  frontier :: "cell list"
  cells :: "cell list"
  grid_items :: "style list"
  math_random :: "nat \<Rightarrow> real"
  random_calls :: nat

text \<open>The state when the script has been loaded, before \<open>DOMContentLoaded\<close>.\<close>

definition page_load :: "(nat \<Rightarrow> real) \<Rightarrow> maze" where
  "page_load rnd = \<lparr>num_rows = 3, num_columns = 3, visited = (\<lambda>i. False), frontier = [],
     cells = [], grid_items = [], math_random = rnd, random_calls = 0\<rparr>"

text \<open>\<open>array[i]\<close>: \<open>undefined\<close> (here \<open>None\<close>) outside the array.\<close>

definition js_nth :: "'a list \<Rightarrow> int \<Rightarrow> 'a option" where
  "js_nth xs i = (if 0 \<le> i \<and> i < int (length xs) then Some (xs ! nat i) else None)"

text \<open>\<open>array.splice(start, 1)\<close>: a negative start counts from the end.\<close>

definition splice_one :: "'a list \<Rightarrow> int \<Rightarrow> 'a list" where
  "splice_one xs i =
     (let len = int (length xs);
          start = (if i < 0 then max (len + i) 0 else min i len)
      in take (nat start) xs @ drop (nat start + 1) xs)"

text \<open>\<open>Math.floor(Math.random() * n)\<close>.\<close>

definition random_index :: "maze \<Rightarrow> int \<Rightarrow> int \<times> maze" where
  "random_index st n =
     (\<lfloor>math_random st (random_calls st) * of_int n\<rfloor>,
      st\<lparr>random_calls := Suc (random_calls st)\<rparr>)"

definition ArraysEqual :: "cell \<Rightarrow> cell \<Rightarrow> bool" where
  "ArraysEqual arr1 arr2 = (if fst arr1 \<noteq> fst arr2 then False
     else if snd arr1 \<noteq> snd arr2 then False else True)"

fun FindCellIndex_from :: "int \<Rightarrow> cell \<Rightarrow> cell list \<Rightarrow> int" where
  "FindCellIndex_from i cell [] = - 1"
| "FindCellIndex_from i cell (a # array) =
     (if ArraysEqual a cell then i else FindCellIndex_from (i + 1) cell array)"

definition FindCellIndex :: "cell \<Rightarrow> cell list \<Rightarrow> int" where
  "FindCellIndex cell array = FindCellIndex_from 0 cell array"

text \<open>\<open>document.getElementById("grid-item" + idx)\<close>: \<open>null\<close> when there is no such child.\<close>

definition getElementById :: "maze \<Rightarrow> int \<Rightarrow> style option" where
  "getElementById st idx = js_nth (grid_items st) idx"

text \<open>
  \<open>document.getElementById("grid-item" + idx).style.p = v\<close>, for the property
  that the update function \<open>f\<close> writes.
\<close>

definition set_style :: "maze \<Rightarrow> int \<Rightarrow> (style \<Rightarrow> style) \<Rightarrow> error + maze" where
  "set_style st idx f =
     (case getElementById st idx of
        None \<Rightarrow> Inl TypeError
      | Some s \<Rightarrow> Inr (st\<lparr>grid_items := (grid_items st)[nat idx := f s]\<rparr>))"

definition transparent :: string where
  "transparent = ''transparent''"

definition set_backgroundColor :: "maze \<Rightarrow> int \<Rightarrow> string \<Rightarrow> error + maze" where
  "set_backgroundColor st idx colour = set_style st idx (backgroundColor_update (\<lambda>_. colour))"

text \<open>
  The part of \<open>GenerateGrid\<close> after the \<open>switch\<close>, for a grid of \<open>side * side\<close> cells:
  the old children are removed, \<open>num_cells\<close> new ones are appended, and \<open>visited\<close>
  and \<open>cells\<close> are rebuilt. \<open>frontier\<close> is not touched.
\<close>

definition GenerateGrid_side :: "maze \<Rightarrow> int \<Rightarrow> maze" where
  "GenerateGrid_side st side =
     st\<lparr>cells := concat (map (\<lambda>i. map (\<lambda>j. (i, j)) [0..side - 1]) [0..side - 1]),
        grid_items := replicate (nat (side * side)) new_grid_item,
        num_rows := side,
        num_columns := side,
        visited := (\<lambda>i. False)\<rparr>"

text \<open>\<open>GenerateGrid\<close>, with the value of the \<open>grid-drop\<close> selector.\<close>

definition GenerateGrid :: "maze \<Rightarrow> string \<Rightarrow> error + maze" where
  "GenerateGrid st grid_drop =
     (if grid_drop = ''0'' then Inr (GenerateGrid_side st 3)
      else if grid_drop = ''1'' then Inr (GenerateGrid_side st 5)
      else if grid_drop = ''2'' then Inr (GenerateGrid_side st 10)
      else if grid_drop = ''3'' then Inr (GenerateGrid_side st 25)
      else if grid_drop = ''4'' then Inr (GenerateGrid_side st 40)
      else Inl (Error ''Maze dimensions not found!''))"

definition Neighbors :: "maze \<Rightarrow> int \<Rightarrow> int \<Rightarrow> cell list" where
  "Neighbors st row column =
     (if row - 1 \<ge> 0 then [(row - 1, column)] else []) @
     (if column + 1 < num_columns st then [(row, column + 1)] else []) @
     (if row + 1 < num_rows st then [(row + 1, column)] else []) @
     (if column - 1 \<ge> 0 then [(row, column - 1)] else [])"

text \<open>
  \<open>CutEdge\<close>. The two elements are looked up first; a missing one is only
  dereferenced, and then throws, inside a branch. A call that throws is modelled by its
  error alone: the border that it may have written before is not kept, and nothing
  below is about the state after such a call.
\<close>

definition CutEdge :: "maze \<Rightarrow> cell \<Rightarrow> cell \<Rightarrow> error + maze" where
  "CutEdge st cell1 cell2 =
     (let grid_cell2 = FindCellIndex cell2 (cells st);
          grid_cell1 = FindCellIndex cell1 (cells st)
      in if snd cell1 - 1 = snd cell2 then
           (case set_style st grid_cell1 (borderLeftColor_update (\<lambda>_. transparent)) of
              Inl e \<Rightarrow> Inl e
            | Inr st1 \<Rightarrow> set_style st1 grid_cell2 (borderRightColor_update (\<lambda>_. transparent)))
         else if snd cell1 + 1 = snd cell2 then
           (case set_style st grid_cell1 (borderRightColor_update (\<lambda>_. transparent)) of
              Inl e \<Rightarrow> Inl e
            | Inr st1 \<Rightarrow> set_style st1 grid_cell2 (borderLeftColor_update (\<lambda>_. transparent)))
         else if fst cell1 - 1 = fst cell2 then
           (case set_style st grid_cell1 (borderTopColor_update (\<lambda>_. transparent)) of
              Inl e \<Rightarrow> Inl e
            | Inr st1 \<Rightarrow> set_style st1 grid_cell2 (borderBottomColor_update (\<lambda>_. transparent)))
         else if fst cell1 + 1 = fst cell2 then
           (case set_style st grid_cell1 (borderBottomColor_update (\<lambda>_. transparent)) of
              Inl e \<Rightarrow> Inl e
            | Inr st1 \<Rightarrow> set_style st1 grid_cell2 (borderTopColor_update (\<lambda>_. transparent)))
         else Inr st)"

text \<open>
  \<open>ConnectedNeighbors\<close>. \<open>&&\<close> evaluates its right operand, which dereferences the
  element, only when the left one holds.
\<close>

definition ConnectedNeighbors :: "maze \<Rightarrow> int \<Rightarrow> int \<Rightarrow> error + cell list" where
  "ConnectedNeighbors st row column =
     (let idx = FindCellIndex (row, column) (cells st) in
      if \<not> (row - 1 \<ge> 0 \<or> column + 1 < num_columns st \<or> row + 1 < num_rows st \<or> column - 1 \<ge> 0)
      then Inr []
      else
        (case getElementById st idx of
           None \<Rightarrow> Inl TypeError
         | Some s \<Rightarrow> Inr
            ((if row - 1 \<ge> 0 \<and> borderTopColor s = transparent then [(row - 1, column)] else []) @
             (if column + 1 < num_columns st \<and> borderRightColor s = transparent
              then [(row, column + 1)] else []) @
             (if row + 1 < num_rows st \<and> borderBottomColor s = transparent
              then [(row + 1, column)] else []) @
             (if column - 1 \<ge> 0 \<and> borderLeftColor s = transparent
              then [(row, column - 1)] else []))))"

text \<open>\<open>CreateEntranceAndExit\<close>.\<close>

definition CreateEntranceAndExit :: "maze \<Rightarrow> error + maze" where
  "CreateEntranceAndExit st =
     (let entrance = (num_rows st - 1, num_columns st - 1); exit = (0, 0) in
      case set_style st (FindCellIndex entrance (cells st))
             (borderBottomColor_update (\<lambda>_. transparent)) of
        Inl e \<Rightarrow> Inl e
      | Inr st1 \<Rightarrow> set_style st1 (FindCellIndex exit (cells st1))
             (borderTopColor_update (\<lambda>_. transparent)))"


section \<open>The Recursive Backtracker\<close>

text \<open>
  \<open>RecursiveBacktrack\<close>. \<open>path\<close> is a JavaScript array used as a stack whose top is
  its last element. The function calls itself as its last action; the call is not
  awaited, so the model is the sequence of invocations run to completion.
\<close>

definition unvisitedNeighbors :: "maze \<Rightarrow> cell \<Rightarrow> cell list" where
  "unvisitedNeighbors st current =
     filter (\<lambda>neighbor. \<not> visited st (FindCellIndex neighbor (cells st)))
       (Neighbors st (fst current) (snd current))"

definition unvisited_count :: "maze \<Rightarrow> nat" where
  "unvisited_count st = card {i. 0 \<le> i \<and> i < int (length (cells st)) \<and> \<not> visited st i}"


definition RecursiveBacktrack_body :: "maze \<Rightarrow> cell list \<Rightarrow> error + maze \<times> cell list" where
  "RecursiveBacktrack_body st path =
     (let current = last path;
          idx = FindCellIndex current (cells st)
      in case set_backgroundColor st idx ''rgb(255, 200, 200)'' of
           Inl e \<Rightarrow> Inl e
         | Inr st1 \<Rightarrow>
            if length (unvisitedNeighbors st1 current) > 0 then
              (case random_index st1 (int (length (unvisitedNeighbors st1 current))) of
                 (i, st2) \<Rightarrow>
                   (case js_nth (unvisitedNeighbors st1 current) i of
                      None \<Rightarrow> Inl TypeError
                    | Some randomNeighbor \<Rightarrow>
                       (case CutEdge st2 randomNeighbor current of
                          Inl e \<Rightarrow> Inl e
                        | Inr st3 \<Rightarrow>
                            Inr (st3\<lparr>visited := (visited st3)
                                   (FindCellIndex randomNeighbor (cells st3) := True)\<rparr>,
                                 path @ [randomNeighbor]))))
            else
              (case set_backgroundColor st1 (FindCellIndex (last path) (cells st1))
                      ''rgb(255, 240, 240)'' of
                 Inl e \<Rightarrow> Inl e
               | Inr st2 \<Rightarrow> Inr (st2, butlast path)))"

section \<open>Basic facts about the operations\<close>



lemma ArraysEqual_iff: "ArraysEqual a b \<longleftrightarrow> a = b"
  by (auto simp: ArraysEqual_def prod_eq_iff)

lemma FindCellIndex_from_range:
  "FindCellIndex_from k x xs = - 1 \<or> (k \<le> FindCellIndex_from k x xs \<and> FindCellIndex_from k x xs < k + int (length xs))"
  by (induction xs arbitrary: k) (auto, force+)

lemma FindCellIndex_range:
  "0 \<le> FindCellIndex x xs \<Longrightarrow> FindCellIndex x xs < int (length xs)"
  using FindCellIndex_from_range[of 0 x xs] by (auto simp: FindCellIndex_def)

lemma js_nth_SomeD: "js_nth xs i = Some x \<Longrightarrow> 0 \<le> i \<and> i < int (length xs) \<and> x = xs ! nat i"
  by (auto simp: js_nth_def split: if_splits)

lemma js_nth_in_set: "js_nth xs i = Some x \<Longrightarrow> x \<in> set xs"
  by (auto simp: js_nth_def split: if_splits)

lemma set_style_InrD:
  "set_style st idx f = Inr st' \<Longrightarrow>
     0 \<le> idx \<and> idx < int (length (grid_items st)) \<and>
     st' = st\<lparr>grid_items := (grid_items st)[nat idx := f (grid_items st ! nat idx)]\<rparr>"
  by (auto simp: set_style_def getElementById_def js_nth_def split: option.splits if_splits)

lemma set_style_fields:
  assumes "set_style st idx f = Inr st'"
  shows "cells st' = cells st" "visited st' = visited st" "frontier st' = frontier st"
    "num_rows st' = num_rows st" "num_columns st' = num_columns st"
    "math_random st' = math_random st" "random_calls st' = random_calls st"
    "length (grid_items st') = length (grid_items st)"
  using set_style_InrD[OF assms] by auto

lemmas set_backgroundColor_fields = set_style_fields[where f = "backgroundColor_update (\<lambda>_. colour)" for colour, folded set_backgroundColor_def]

lemma random_index_fields:
  assumes "random_index st n = (i, st')"
  shows "cells st' = cells st" "visited st' = visited st" "frontier st' = frontier st"
    "num_rows st' = num_rows st" "num_columns st' = num_columns st"
    "math_random st' = math_random st" "random_calls st' = Suc (random_calls st)"
    "grid_items st' = grid_items st"
  using assms by (auto simp: random_index_def)

lemma CutEdge_fields:
  assumes "CutEdge st a b = Inr st'"
  shows "cells st' = cells st" "visited st' = visited st" "frontier st' = frontier st"
    "num_rows st' = num_rows st" "num_columns st' = num_columns st"
    "math_random st' = math_random st" "random_calls st' = random_calls st"
    "length (grid_items st') = length (grid_items st)"
  using assms
  by (auto simp: CutEdge_def Let_def set_style_fields split: if_splits sum.splits)

lemma CutEdge_branch_index:
  assumes "CutEdge st a b = Inr st'"
    and "snd a - 1 = snd b \<or> snd a + 1 = snd b \<or> fst a - 1 = fst b \<or> fst a + 1 = fst b"
  shows "0 \<le> FindCellIndex a (cells st)" "0 \<le> FindCellIndex b (cells st)"
    "FindCellIndex a (cells st) < int (length (grid_items st))"
    "FindCellIndex b (cells st) < int (length (grid_items st))"
  using assms
  by (auto simp: CutEdge_def Let_def split: if_splits sum.splits dest!: set_style_InrD)

lemma Neighbors_adjacent:
  "n \<in> set (Neighbors st r c) \<Longrightarrow>
     snd n - 1 = c \<or> snd n + 1 = c \<or> fst n - 1 = r \<or> fst n + 1 = r"
  by (auto simp: Neighbors_def split: if_splits)

lemma unvisitedNeighbors_D:
  "n \<in> set (unvisitedNeighbors st cur) \<Longrightarrow>
     n \<in> set (Neighbors st (fst cur) (snd cur)) \<and> \<not> visited st (FindCellIndex n (cells st))"
  by (simp add: unvisitedNeighbors_def)

lemma unvisited_count_visit:
  assumes "0 \<le> i" "i < int (length (cells st))" "\<not> visited st i"
  shows "unvisited_count (st\<lparr>visited := (visited st)(i := True)\<rparr>) < unvisited_count st"
proof -
  let ?A = "{j. 0 \<le> j \<and> j < int (length (cells st)) \<and> \<not> visited st j}"
  have fin: "finite ?A"
    by (rule finite_subset[of _ "{0..<int (length (cells st))}"]) auto
  have "{j. 0 \<le> j \<and> j < int (length (cells st)) \<and> \<not> ((visited st)(i := True)) j} \<subset> ?A"
    using assms by auto
  from psubset_card_mono[OF fin this] show ?thesis by (simp add: unvisited_count_def)
qed

lemma unvisited_count_cong:
  "cells st' = cells st \<Longrightarrow> visited st' = visited st \<Longrightarrow> unvisited_count st' = unvisited_count st"
  by (simp add: unvisited_count_def)




lemma FindCellIndex_from_nth:
  "distinct xs \<Longrightarrow> i < length xs \<Longrightarrow> FindCellIndex_from k (xs ! i) xs = k + int i"
proof (induction xs arbitrary: k i)
  case Nil then show ?case by simp
next
  case (Cons a xs)
  show ?case
  proof (cases i)
    case 0 then show ?thesis by (simp add: ArraysEqual_iff)
  next
    case (Suc j)
    with Cons.prems have "a \<noteq> xs ! j" "j < length xs" "distinct xs" by auto
    with Cons.IH[of j "k + 1"] Suc show ?thesis by (simp add: ArraysEqual_iff)
  qed
qed

lemma FindCellIndex_from_notin:
  "x \<notin> set xs \<Longrightarrow> FindCellIndex_from k x xs = - 1"
  by (induction xs arbitrary: k) (auto simp: ArraysEqual_iff)

lemma FindCellIndex_from_in:
  "x \<in> set xs \<Longrightarrow> k \<le> FindCellIndex_from k x xs \<and> FindCellIndex_from k x xs < k + int (length xs)
     \<and> xs ! nat (FindCellIndex_from k x xs - k) = x"
proof (induction xs arbitrary: k)
  case Nil then show ?case by simp
next
  case (Cons a xs)
  show ?case
  proof (cases "a = x")
    case True then show ?thesis by (simp add: ArraysEqual_iff)
  next
    case False
    with Cons.prems have "x \<in> set xs" by simp
    from Cons.IH[OF this, of "k + 1"]
    have ih: "k + 1 \<le> FindCellIndex_from (k + 1) x xs"
      "FindCellIndex_from (k + 1) x xs < k + 1 + int (length xs)"
      "xs ! nat (FindCellIndex_from (k + 1) x xs - (k + 1)) = x" by auto
    have "nat (FindCellIndex_from (k + 1) x xs - k) = Suc (nat (FindCellIndex_from (k + 1) x xs - (k + 1)))"
      using ih(1) by linarith
    with ih False show ?thesis
      by (simp add: ArraysEqual_iff)
  qed
qed

lemma cells_GenerateGrid_side:
  "cells (GenerateGrid_side st side) = List.product [0..side - 1] [0..side - 1]"
  by (simp add: GenerateGrid_side_def product_concat_map)

lemma length_cells: "0 \<le> side \<Longrightarrow> length (cells (GenerateGrid_side st side)) = nat (side * side)"
  by (simp add: cells_GenerateGrid_side nat_mult_distrib)

lemma distinct_cells: "distinct (cells (GenerateGrid_side st side))"
  by (simp add: cells_GenerateGrid_side distinct_product)

lemma set_cells: "set (cells (GenerateGrid_side st side)) = {0..side - 1} \<times> {0..side - 1}"
  by (simp add: cells_GenerateGrid_side)

lemma cells_nth:
  assumes "0 \<le> r" "r < side" "0 \<le> c" "c < side"
  shows "nat (r * side + c) < length (cells (GenerateGrid_side st side))"
    and "cells (GenerateGrid_side st side) ! nat (r * side + c) = (r, c)"
proof -
  have s: "0 < side" using assms by simp
  have "r * side + c < r * side + side" using assms by simp
  also have "\<dots> = (r + 1) * side" by (simp add: algebra_simps)
  also have "\<dots> \<le> side * side" using assms by (simp add: mult_right_mono)
  finally have lt: "r * side + c < side * side" .
  then show l: "nat (r * side + c) < length (cells (GenerateGrid_side st side))"
    using s assms by (simp add: length_cells nat_less_iff)
  have len: "length [0..side - 1] = nat side" by simp
  have d: "nat (r * side + c) div nat side = nat r" 
    using assms s by (simp add: nat_div_distrib[symmetric] nat_eq_iff2 ) 
  have m: "nat (r * side + c) mod nat side = nat c"
    using assms s by (simp add: nat_mod_distrib[symmetric] nat_eq_iff2)
  from l have "List.product [0..side - 1] [0..side - 1] ! nat (r * side + c)
      = ([0..side - 1] ! nat r, [0..side - 1] ! nat c)"
    by (simp add: cells_GenerateGrid_side product_nth d m)
  then show "cells (GenerateGrid_side st side) ! nat (r * side + c) = (r, c)"
    using assms by (simp add: cells_GenerateGrid_side)
qed

lemma FindCellIndex_cells:
  assumes "0 \<le> r" "r < side" "0 \<le> c" "c < side"
  shows "FindCellIndex (r, c) (cells (GenerateGrid_side st side)) = r * side + c"
proof -
  have nn: "0 \<le> r * side + c" using assms by simp
  let ?G = "cells (GenerateGrid_side st side)"
  have "FindCellIndex_from 0 (?G ! nat (r * side + c)) ?G = 0 + int (nat (r * side + c))"
    by (rule FindCellIndex_from_nth[OF distinct_cells cells_nth(1)[OF assms]])
  then show ?thesis using cells_nth(2)[OF assms, of st] nn by (simp add: FindCellIndex_def)
qed


text \<open>
  One invocation that does not throw either visits a new cell or shortens the stack.
\<close>

lemma RecursiveBacktrack_body_decreases:
  assumes "RecursiveBacktrack_body st path = Inr (st', path')" and "length path > 0"
  shows "(unvisited_count st' < unvisited_count st \<and> length path' = Suc (length path)) \<or>
         (unvisited_count st' = unvisited_count st \<and> Suc (length path') = length path)"
proof -
  let ?cur = "last path"
  from assms(1) obtain st1 where
    bg: "set_backgroundColor st (FindCellIndex ?cur (cells st)) ''rgb(255, 200, 200)'' = Inr st1"
    by (auto simp: RecursiveBacktrack_body_def Let_def split: sum.splits)
  note f1 = set_backgroundColor_fields[OF bg]
  show ?thesis
  proof (cases "length (unvisitedNeighbors st1 ?cur) > 0")
    case True
    obtain i st2 where ri: "random_index st1 (int (length (unvisitedNeighbors st1 ?cur))) = (i, st2)"
      by fastforce
    from assms(1) bg True ri obtain randomNeighbor st3 where
      nth: "js_nth (unvisitedNeighbors st1 ?cur) i = Some randomNeighbor"
      and cut: "CutEdge st2 randomNeighbor ?cur = Inr st3"
      and st': "st' = st3\<lparr>visited := (visited st3)(FindCellIndex randomNeighbor (cells st3) := True)\<rparr>"
      and path': "path' = path @ [randomNeighbor]"
      by (auto simp: RecursiveBacktrack_body_def Let_def split: sum.splits option.splits)
    note f2 = random_index_fields[OF ri]
    note f3 = CutEdge_fields[OF cut]
    from unvisitedNeighbors_D[OF js_nth_in_set[OF nth]]
    have nb: "randomNeighbor \<in> set (Neighbors st1 (fst ?cur) (snd ?cur))"
      and nv: "\<not> visited st1 (FindCellIndex randomNeighbor (cells st1))" by auto
    from Neighbors_adjacent[OF nb]
    have "0 \<le> FindCellIndex randomNeighbor (cells st2)"
      by (intro CutEdge_branch_index(1)[OF cut]) auto
    then have ge: "0 \<le> FindCellIndex randomNeighbor (cells st)" by (simp add: f1 f2)
    have lt: "FindCellIndex randomNeighbor (cells st) < int (length (cells st))"
      by (rule FindCellIndex_range[OF ge])
    have nv': "\<not> visited st (FindCellIndex randomNeighbor (cells st))"
      using nv by (simp add: f1)
    have "unvisited_count st'
        = unvisited_count (st\<lparr>visited := (visited st)(FindCellIndex randomNeighbor (cells st) := True)\<rparr>)"
      by (simp add: unvisited_count_def st' f1 f2 f3)
    also have "\<dots> < unvisited_count st" by (rule unvisited_count_visit[OF ge lt nv'])
    finally show ?thesis by (simp add: path')
  next
    case False
    from assms(1) bg False obtain st2 where
      bg2: "set_backgroundColor st1 (FindCellIndex ?cur (cells st1)) ''rgb(255, 240, 240)'' = Inr st2"
      and st': "st' = st2" and path': "path' = butlast path"
      by (auto simp: RecursiveBacktrack_body_def Let_def split: sum.splits)
    have "unvisited_count st' = unvisited_count st"
      using set_backgroundColor_fields[OF bg] set_backgroundColor_fields[OF bg2]
      by (simp add: unvisited_count_def st')
    with assms(2) show ?thesis by (simp add: path')
  qed
qed

lemma RecursiveBacktrack_body_rel:
  assumes "RecursiveBacktrack_body st path = Inr (st', path')" and "length path > 0"
  shows "((st', path'), (st, path)) \<in>
     inv_image (less_than <*lex*> less_than) (\<lambda>(st, path). (unvisited_count st, length path))"
  using RecursiveBacktrack_body_decreases[OF assms] by auto

function RecursiveBacktrack :: "maze \<Rightarrow> cell list \<Rightarrow> error + maze" where
  "RecursiveBacktrack st path =
     (if length path > 0 then
        (case RecursiveBacktrack_body st path of
           Inl e \<Rightarrow> Inl e
         | Inr (st', path') \<Rightarrow> RecursiveBacktrack st' path')
      else Inr st)"
  by pat_completeness auto
termination
proof (relation "inv_image (less_than <*lex*> less_than) (\<lambda>(st, path). (unvisited_count st, length path))",
    goal_cases)
  case 1
  show ?case by (intro wf_inv_image wf_lex_prod wf_less_than)
next
  case (2 st path res st' path')
  then show ?case using RecursiveBacktrack_body_rel[of st path st' path'] by simp
qed

text \<open>The number of invocations of \<open>RecursiveBacktrack\<close> in a run, the last one included.\<close>

function RecursiveBacktrack_calls :: "maze \<Rightarrow> cell list \<Rightarrow> nat" where
  "RecursiveBacktrack_calls st path =
     (if length path > 0 then
        (case RecursiveBacktrack_body st path of
           Inl e \<Rightarrow> 1
         | Inr (st', path') \<Rightarrow> 1 + RecursiveBacktrack_calls st' path')
      else 1)"
  by pat_completeness auto
termination
proof (relation "inv_image (less_than <*lex*> less_than) (\<lambda>(st, path). (unvisited_count st, length path))",
    goal_cases)
  case 1
  show ?case by (intro wf_inv_image wf_lex_prod wf_less_than)
next
  case (2 st path res st' path')
  then show ?case using RecursiveBacktrack_body_rel[of st path st' path'] by simp
qed



section \<open>Randomized Prim's algorithm\<close>

text \<open>The first loop of \<open>PrimsAlgorithm\<close>: the neighbours of the start cell enter the frontier.\<close>

fun Prims_start_frontier :: "maze \<Rightarrow> cell list \<Rightarrow> error + maze" where
  "Prims_start_frontier st [] = Inr st"
| "Prims_start_frontier st (neighbor # neighbors) =
     (let idx = FindCellIndex neighbor (cells st) in
      case set_backgroundColor st idx ''rgb(255, 200, 200)'' of
        Inl e \<Rightarrow> Inl e
      | Inr st1 \<Rightarrow> Prims_start_frontier (st1\<lparr>frontier := frontier st1 @ [neighbor]\<rparr>) neighbors)"

text \<open>The last loop of an iteration: the unvisited neighbours not yet in the frontier enter it.\<close>

fun Prims_grow_frontier :: "maze \<Rightarrow> cell list \<Rightarrow> error + maze" where
  "Prims_grow_frontier st [] = Inr st"
| "Prims_grow_frontier st (neighbor # neighbors) =
     (if \<not> visited st (FindCellIndex neighbor (cells st)) \<and> FindCellIndex neighbor (frontier st) < 0
      then
        (let st1 = st\<lparr>frontier := frontier st @ [neighbor]\<rparr> in
         case set_backgroundColor st1 (FindCellIndex neighbor (cells st1)) ''rgb(255, 200, 200)'' of
           Inl e \<Rightarrow> Inl e
         | Inr st2 \<Rightarrow> Prims_grow_frontier st2 neighbors)
      else Prims_grow_frontier st neighbors)"

definition visitedNeighbors :: "maze \<Rightarrow> cell list \<Rightarrow> cell list" where
  "visitedNeighbors st randCellNeighbors =
     filter (\<lambda>neighbor. visited st (FindCellIndex neighbor (cells st))) randCellNeighbors"

text \<open>
  One iteration of the \<open>while\<close> loop. An index outside the array reads \<open>undefined\<close>;
  \<open>FindCellIndex\<close> and \<open>CutEdge\<close> then throw when they read its \<open>length\<close> or
  its element.
\<close>

definition Prims_iteration :: "maze \<Rightarrow> error + maze" where
  "Prims_iteration st =
     (case random_index st (int (length (frontier st))) of
        (i, st1) \<Rightarrow>
          (case js_nth (frontier st1) i of
             None \<Rightarrow> Inl TypeError
           | Some randomCell \<Rightarrow>
              (let randomCellIdx = FindCellIndex randomCell (frontier st1);
                   st2 = st1\<lparr>frontier := splice_one (frontier st1) randomCellIdx\<rparr>;
                   randCellNeighbors = Neighbors st2 (fst randomCell) (snd randomCell);
                   randCellVisitedNeighbors = visitedNeighbors st2 randCellNeighbors
               in case random_index st2 (int (length randCellVisitedNeighbors)) of
                    (j, st3) \<Rightarrow>
                      (case js_nth randCellVisitedNeighbors j of
                         None \<Rightarrow> Inl TypeError
                       | Some randomVisitedNeighbor \<Rightarrow>
                          (case CutEdge st3 randomCell randomVisitedNeighbor of
                             Inl e \<Rightarrow> Inl e
                           | Inr st4 \<Rightarrow>
                              (case set_backgroundColor st4 (FindCellIndex randomCell (cells st4))
                                      ''rgb(255, 240, 240)'' of
                                 Inl e \<Rightarrow> Inl e
                               | Inr st5 \<Rightarrow>
                                   Prims_grow_frontier
                                     (st5\<lparr>visited := (visited st5)
                                        (FindCellIndex randomCell (cells st5) := True)\<rparr>)
                                     randCellNeighbors))))))"

text \<open>The \<open>while\<close> loop of \<open>PrimsAlgorithm\<close>; \<open>None\<close> is a loop that never ends.\<close>

partial_function (option) Prims_loop :: "maze \<Rightarrow> (error + maze) option" where
  "Prims_loop st =
     (if length (frontier st) > 0 then
        (case Prims_iteration st of
           Inl e \<Rightarrow> Some (Inl e)
         | Inr st1 \<Rightarrow> Prims_loop st1)
      else Some (Inr st))"

text \<open>\<open>PrimsAlgorithm\<close> up to its \<open>while\<close> loop, and the whole of it.\<close>

declare Prims_loop.simps [code]

definition PrimsAlgorithm_setup :: "maze \<Rightarrow> int \<Rightarrow> int \<Rightarrow> error + maze" where
  "PrimsAlgorithm_setup st startRow startColumn =
     (case Prims_start_frontier st (Neighbors st startRow startColumn) of
        Inl e \<Rightarrow> Inl e
      | Inr st1 \<Rightarrow>
          set_backgroundColor st1 (FindCellIndex (startRow, startColumn) (cells st1))
            ''rgb(255, 240, 240)'')"

definition PrimsAlgorithm :: "maze \<Rightarrow> int \<Rightarrow> int \<Rightarrow> (error + maze) option" where
  "PrimsAlgorithm st startRow startColumn =
     (case PrimsAlgorithm_setup st startRow startColumn of
        Inl e \<Rightarrow> Some (Inl e)
      | Inr st2 \<Rightarrow> Prims_loop st2)"

text \<open>The states at the head of the \<open>while\<close> loop in a run that enters it in \<open>st0\<close>.\<close>

inductive Prims_reaches :: "maze \<Rightarrow> maze \<Rightarrow> bool" for st0 :: maze where
  enters: "Prims_reaches st0 st0"
| iterates: "Prims_reaches st0 st \<Longrightarrow> length (frontier st) > 0 \<Longrightarrow>
     Prims_iteration st = Inr st' \<Longrightarrow> Prims_reaches st0 st'"

section \<open>Randomized Kruskal's algorithm\<close>

definition GetAllEdges :: "maze \<Rightarrow> (cell \<times> cell) list" where
  "GetAllEdges st =
     concat (map (\<lambda>x. concat (map (\<lambda>y.
         (if x < num_rows st - 1 then [((x, y), (x + 1, y))] else []) @
         (if y < num_columns st - 1 then [((x, y), (x, y + 1))] else []))
       [0..num_columns st - 1])) [0..num_rows st - 1])"

text \<open>An entry \<open>{x, y, set}\<close> of \<open>cellMap\<close>.\<close>

record map_cell =
  cell_x :: int
  cell_y :: int
  cell_set :: int

text \<open>
  The search loop assigns at every match, so the last matching entry stays.
\<close>

definition find_last :: "('a \<Rightarrow> bool) \<Rightarrow> 'a list \<Rightarrow> 'a option" where
  "find_last P xs = List.find P (rev xs)"

text \<open>
  One iteration of the \<open>do ... while\<close> loop. \<open>edges.indexOf(edge)\<close> compares
  by identity, and every edge is an array of its own, so it is the index that was drawn.
  With \<open>edge\<close> undefined, \<open>edge[0]\<close> throws; with \<open>cell1\<close> or \<open>cell2\<close>
  undefined, \<open>cell1.set != cell2.set\<close> throws.
\<close>

definition Kruskals_iteration ::
  "maze \<Rightarrow> (cell \<times> cell) list \<Rightarrow> map_cell list \<Rightarrow> error + maze \<times> (cell \<times> cell) list \<times> map_cell list" where
  "Kruskals_iteration st edges cellMap =
     (case random_index st (int (length edges)) of
        (i, st1) \<Rightarrow>
          (case js_nth edges i of
             None \<Rightarrow> Inl TypeError
           | Some edge \<Rightarrow>
              (let edges1 = splice_one edges i;
                   cell1 = find_last (\<lambda>cell. cell_x cell = fst (fst edge) \<and> cell_y cell = snd (fst edge)) cellMap;
                   cell2 = find_last (\<lambda>cell. cell_x cell = fst (snd edge) \<and> cell_y cell = snd (snd edge)) cellMap
               in case (cell1, cell2) of
                    (Some cell1, Some cell2) \<Rightarrow>
                      if cell_set cell1 \<noteq> cell_set cell2 then
                        (let oldSet = cell_set cell2;
                             cellMap1 = map (\<lambda>cell. if cell_set cell = oldSet
                                                      then cell\<lparr>cell_set := cell_set cell1\<rparr> else cell) cellMap
                         in case set_backgroundColor st1
                                   (FindCellIndex (cell_x cell1, cell_y cell1) (cells st1))
                                   ''rgb(255, 240, 240)'' of
                              Inl e \<Rightarrow> Inl e
                            | Inr st2 \<Rightarrow>
                               (case set_backgroundColor st2
                                       (FindCellIndex (cell_x cell2, cell_y cell2) (cells st2))
                                       ''rgb(255, 240, 240)'' of
                                  Inl e \<Rightarrow> Inl e
                                | Inr st3 \<Rightarrow>
                                   (case CutEdge st3 (cell_x cell1, cell_y cell1) (cell_x cell2, cell_y cell2) of
                                      Inl e \<Rightarrow> Inl e
                                    | Inr st4 \<Rightarrow> Inr (st4, edges1, cellMap1))))
                      else Inr (st1, edges1, cellMap)
                  | _ \<Rightarrow> Inl TypeError)))"

lemma Kruskals_iteration_length:
  assumes "Kruskals_iteration st edges cellMap = Inr (st', edges', cellMap')"
  shows "length edges' < length edges"
proof -
  obtain i st1 where ri: "random_index st (int (length edges)) = (i, st1)" by fastforce
  from assms ri obtain edge where e: "js_nth edges i = Some edge" and e': "edges' = splice_one edges i"
    by (auto simp: Kruskals_iteration_def Let_def split: option.splits sum.splits if_splits)
  from js_nth_SomeD[OF e] show ?thesis
    by (auto simp: e' splice_one_def Let_def min_def)
qed

function Kruskals_loop :: "maze \<Rightarrow> (cell \<times> cell) list \<Rightarrow> map_cell list \<Rightarrow> error + maze" where
  "Kruskals_loop st edges cellMap =
     (case Kruskals_iteration st edges cellMap of
        Inl e \<Rightarrow> Inl e
      | Inr (st1, edges1, cellMap1) \<Rightarrow>
          if length edges1 > 0 then Kruskals_loop st1 edges1 cellMap1 else Inr st1)"
  by pat_completeness auto
termination
  by (relation "measure (\<lambda>(st, edges, cellMap). length edges)")
     (auto dest: Kruskals_iteration_length)

definition Kruskals :: "maze \<Rightarrow> error + maze" where
  "Kruskals st =
     (let edges = GetAllEdges st;
          cellMap = map (\<lambda>i. \<lparr>cell_x = fst (cells st ! i), cell_y = snd (cells st ! i), cell_set = int i\<rparr>)
                      [0..<length (cells st)]
      in Kruskals_loop st edges cellMap)"

section \<open>Maze generation\<close>

text \<open>
  \<open>GenerateMaze\<close>, with the value of the \<open>alg-drop\<close> selector. Its first three
  statements, which draw the start cell and mark it visited, are \<open>GenerateMaze_start\<close>.
  The calls of the generators are modelled as run to their end before
  \<open>CreateEntranceAndExit\<close>, which writes only the two outer borders.
\<close>

definition GenerateMaze_start :: "maze \<Rightarrow> int \<times> int \<times> maze" where
  "GenerateMaze_start st =
     (case random_index st (num_rows st) of
        (startRow, st1) \<Rightarrow>
          (case random_index st1 (num_columns st1) of
             (startColumn, st2) \<Rightarrow>
               (startRow, startColumn,
                st2\<lparr>visited := (visited st2)
                      (FindCellIndex (startRow, startColumn) (cells st2) := True)\<rparr>)))"

definition GenerateMaze :: "maze \<Rightarrow> string \<Rightarrow> (error + maze) option" where
  "GenerateMaze st alg_drop =
     (case GenerateMaze_start st of
        (startRow, startColumn, st3) \<Rightarrow>
          (let generated =
                 (if alg_drop = ''0'' then PrimsAlgorithm st3 startRow startColumn
                  else if alg_drop = ''1'' then Some (RecursiveBacktrack st3 [(startRow, startColumn)])
                  else if alg_drop = ''2'' then Some (Kruskals st3)
                  else Some (Inr st3))
           in case generated of
                None \<Rightarrow> None
              | Some (Inl e) \<Rightarrow> Some (Inl e)
              | Some (Inr st4) \<Rightarrow> Some (CreateEntranceAndExit st4)))"

section \<open>The solver: breadth-first layering\<close>

text \<open>
  A JavaScript number that is an integer, or \<open>NaN\<close> (which \<open>undefined + 1\<close> gives).
\<close>

datatype number = Num int | NaN

definition plus_one :: "number option \<Rightarrow> number" where
  "plus_one depth = (case depth of Some (Num d) \<Rightarrow> Num (d + 1) | _ \<Rightarrow> NaN)"

text \<open>
  The local variables of \<open>Dijkstras\<close> during its first loop: the queue of
  \<open>[row, column, depth]\<close> entries and the depth map, keyed by cell index.
  \<open>depth_writes\<close> is not a variable of the program: it lists, in order, every
  key and value stored into the depth map (by its constructor and by \<open>depthMap.set\<close>).
\<close>

record search =
  queue :: "(int \<times> int \<times> number) list"
  depthMap :: "int \<rightharpoonup> number"
  depth_writes :: "(int \<times> number) list"

datatype 'a loop_step = is_Break: Break 'a | is_Continue: Continue 'a

text \<open>The inner \<open>for\<close> loop over the connected neighbours of the dequeued cell.\<close>

fun Dijkstras_discover :: "maze \<Rightarrow> number option \<Rightarrow> cell list \<Rightarrow> search \<Rightarrow> error + maze \<times> search" where
  "Dijkstras_discover st depth [] q = Inr (st, q)"
| "Dijkstras_discover st depth (neighbor # neighbors) q =
     (let neighborIdx = FindCellIndex neighbor (cells st) in
      if \<not> visited st neighborIdx then
        (case set_backgroundColor st neighborIdx ''#5941f6'' of
           Inl e \<Rightarrow> Inl e
         | Inr st1 \<Rightarrow>
             Dijkstras_discover st1 depth neighbors
               (q\<lparr>queue := queue q @ [(fst neighbor, snd neighbor, plus_one depth)],
                  depthMap := (depthMap q)(neighborIdx \<mapsto> plus_one depth),
                  depth_writes := depth_writes q @ [(neighborIdx, plus_one depth)]\<rparr>))
      else Dijkstras_discover st depth neighbors q)"

text \<open>
  One iteration of the first \<open>while\<close> loop. \<open>queue.shift()\<close> on an empty queue
  gives \<open>undefined\<close>, whose element \<open>cell[0]\<close> throws.
\<close>

definition Dijkstras_iteration :: "maze \<Rightarrow> search \<Rightarrow> error + (maze \<times> search) loop_step" where
  "Dijkstras_iteration st q =
     (case queue q of
        [] \<Rightarrow> Inl TypeError
      | cell # rest \<Rightarrow>
         (let q1 = q\<lparr>queue := rest\<rparr>;
              idx = FindCellIndex (fst cell, fst (snd cell)) (cells st);
              depth = depthMap q1 idx;
              st1 = st\<lparr>visited := (visited st)(idx := True)\<rparr>
          in case set_backgroundColor st1 idx ''#5941f6'' of
               Inl e \<Rightarrow> Inl e
             | Inr st2 \<Rightarrow>
                if fst cell = num_rows st2 - 1 \<and> fst (snd cell) = num_columns st2 - 1
                then Inr (Break (st2, q1))
                else
                  (case ConnectedNeighbors st2 (fst cell) (fst (snd cell)) of
                     Inl e \<Rightarrow> Inl e
                   | Inr neighbors \<Rightarrow>
                      (case Dijkstras_discover st2 depth neighbors q1 of
                         Inl e \<Rightarrow> Inl e
                       | Inr r \<Rightarrow> Inr (Continue r)))))"

text \<open>The first \<open>while\<close> loop; \<open>None\<close> is a loop that never ends.\<close>

partial_function (option) Dijkstras_layering :: "maze \<Rightarrow> search \<Rightarrow> (error + maze \<times> search) option" where
  "Dijkstras_layering st q =
     (if length (queue q) > 0 then
        (case Dijkstras_iteration st q of
           Inl e \<Rightarrow> Some (Inl e)
         | Inr (Break r) \<Rightarrow> Some (Inr r)
         | Inr (Continue (st1, q1)) \<Rightarrow> Dijkstras_layering st1 q1)
      else Some (Inr (st, q)))"

declare Dijkstras_layering.simps [code]

text \<open>
  The state in which \<open>Dijkstras\<close> enters its first loop. \<open>Array(num_cells)\<close> reads the
  global \<open>num_cells\<close>, which stays 9; the elements beyond it read \<open>undefined\<close> and are
  falsy as well.
\<close>

definition Dijkstras_start :: "maze \<Rightarrow> maze \<times> search" where
  "Dijkstras_start st =
     (st\<lparr>visited := (\<lambda>i. False)\<rparr>,
      \<lparr>queue = [(0, 0, Num 0)], depthMap = [0 \<mapsto> Num 0], depth_writes = [(0, Num 0)]\<rparr>)"

text \<open>Phase 1 of \<open>Dijkstras\<close>: the breadth-first layering up to the end of its loop.\<close>

definition Dijkstras_phase1 :: "maze \<Rightarrow> (error + maze \<times> search) option" where
  "Dijkstras_phase1 st = (case Dijkstras_start st of (st1, q) \<Rightarrow> Dijkstras_layering st1 q)"



section \<open>Passages, well-formed grids and random sources\<close>

text \<open>
  The passage from \<open>a\<close> to \<open>b\<close> is open when \<open>ConnectedNeighbors\<close> lists \<open>b\<close>
  for \<open>a\<close>.
\<close>


definition IsOpen :: "maze \<Rightarrow> cell \<Rightarrow> cell \<Rightarrow> bool" where
  "IsOpen st a b =
     (case ConnectedNeighbors st (fst a) (snd a) of Inl e \<Rightarrow> False | Inr neighbors \<Rightarrow> b \<in> set neighbors)"

text \<open>
  The state of a grid of the given side after \<open>GenerateGrid\<close>, whatever has been
  drawn, visited or carved since.
\<close>

definition grid_ok :: "int \<Rightarrow> maze \<Rightarrow> bool" where
  "grid_ok side st \<longleftrightarrow>
     1 \<le> side \<and> num_rows st = side \<and> num_columns st = side \<and>
     cells st = concat (map (\<lambda>i. map (\<lambda>j. (i, j)) [0..side - 1]) [0..side - 1]) \<and>
     length (grid_items st) = nat (side * side)"

text \<open>The style of the element of a cell.\<close>

definition style_of :: "maze \<Rightarrow> cell \<Rightarrow> style" where
  "style_of st a = grid_items st ! nat (FindCellIndex a (cells st))"

text \<open>Grid adjacency: exactly one coordinate differs, by 1.\<close>

definition adjacent :: "cell \<Rightarrow> cell \<Rightarrow> bool" where
  "adjacent a b \<longleftrightarrow>
     (fst a = fst b \<and> (snd a + 1 = snd b \<or> snd a - 1 = snd b)) \<or>
     (snd a = snd b \<and> (fst a + 1 = fst b \<or> fst a - 1 = fst b))"


text \<open>Every call of \<open>Math.random()\<close> returns a number in \<open>[0, 1)\<close>.\<close>

definition valid_random :: "maze \<Rightarrow> bool" where
  "valid_random st \<longleftrightarrow> (\<forall>i. 0 \<le> math_random st i \<and> math_random st i < 1)"

text \<open>A random source for examples: every call returns 0, the first candidate.\<close>

definition first_choice :: "nat \<Rightarrow> real" where
  "first_choice i = 0"

text \<open>Another one: the third call returns one half, every other call 0.\<close>

definition third_draw_half :: "nat \<Rightarrow> real" where
  "third_draw_half i = (if i = 2 then 1 / 2 else 0)"

text \<open>
  The states that the program reaches from a new grid when every call of \<open>CutEdge\<close> is
  on adjacent cells (\<open>CutEdge\<close> itself does not check this): by \<open>CutEdge\<close>, by
  \<open>CreateEntranceAndExit\<close>, and by the writes that the generators make in between, to a
  background colour, to \<open>visited\<close>, to \<open>frontier\<close> and by drawing a random index.
\<close>

inductive passages_opened :: "int \<Rightarrow> maze \<Rightarrow> bool" for side :: int where
  new_grid: "1 \<le> side \<Longrightarrow> passages_opened side (GenerateGrid_side st side)"
| cut: "passages_opened side st \<Longrightarrow> adjacent a b \<Longrightarrow> CutEdge st a b = Inr st' \<Longrightarrow>
        passages_opened side st'"
| entrance_and_exit: "passages_opened side st \<Longrightarrow> CreateEntranceAndExit st = Inr st' \<Longrightarrow>
        passages_opened side st'"
| colour: "passages_opened side st \<Longrightarrow> set_backgroundColor st idx c = Inr st' \<Longrightarrow>
        passages_opened side st'"
| visit: "passages_opened side st \<Longrightarrow> passages_opened side (st\<lparr>visited := v\<rparr>)"
| enqueue: "passages_opened side st \<Longrightarrow> passages_opened side (st\<lparr>frontier := fr\<rparr>)"
| draw: "passages_opened side st \<Longrightarrow> random_index st n = (i, st') \<Longrightarrow> passages_opened side st'"

text \<open>The index that the specification gives a cell: \<open>row * side + column\<close>.\<close>

definition IndexOf :: "int \<Rightarrow> cell \<Rightarrow> int" where
  "IndexOf side cell = fst cell * side + snd cell"

text \<open>
  The open passages of a state: the grid edges, each listed once by \<open>GetAllEdges\<close>,
  whose two cells are connected.
\<close>

definition open_passages :: "maze \<Rightarrow> (cell \<times> cell) list" where
  "open_passages st = filter (\<lambda>(a, b). IsOpen st a b) (GetAllEdges st)"

text \<open>
  The passage graph of a state, the cells marked visited, and the postcondition of the
  generators: passages are open in both directions, every cell reaches every other cell
  through open passages, and the number of open passages is the number of cells less
  one.
\<close>

definition passages :: "maze \<Rightarrow> (cell \<times> cell) set" where
  "passages st = {(a, b). a \<in> set (cells st) \<and> IsOpen st a b}"

definition visited_cells :: "maze \<Rightarrow> cell set" where
  "visited_cells st = {c \<in> set (cells st). visited st (FindCellIndex c (cells st))}"

definition spanning_tree :: "maze \<Rightarrow> bool" where
  "spanning_tree st \<longleftrightarrow>
     sym (passages st) \<and>
     (\<forall>a\<in>set (cells st). \<forall>b\<in>set (cells st). (a, b) \<in> (passages st)\<^sup>*) \<and>
     length (open_passages st) + 1 = length (cells st)"

text \<open>
  A whole run from the loaded page: \<open>GenerateGrid\<close> for the selected size, then
  \<open>GenerateMaze\<close> for the selected algorithm.
\<close>

definition generate :: "(nat \<Rightarrow> real) \<Rightarrow> string \<Rightarrow> string \<Rightarrow> (error + maze) option" where
  "generate rnd grid_drop alg_drop =
     (case GenerateGrid (page_load rnd) grid_drop of
        Inl e \<Rightarrow> Some (Inl e)
      | Inr st \<Rightarrow> GenerateMaze st alg_drop)"

text \<open>The open passages, and one passage, of the state that a run ends in.\<close>

definition run_passages :: "(error + maze) option \<Rightarrow> (cell \<times> cell) list option" where
  "run_passages run = (case run of Some (Inr st) \<Rightarrow> Some (open_passages st) | _ \<Rightarrow> None)"

definition run_IsOpen :: "(error + maze) option \<Rightarrow> cell \<Rightarrow> cell \<Rightarrow> bool" where
  "run_IsOpen run a b = (case run of Some (Inr st) \<Rightarrow> IsOpen st a b | _ \<Rightarrow> False)"

text \<open>
  An example: the maze that the Recursive Backtracker carves on the 3 by 3 grid when
  every draw picks the first candidate.
\<close>

definition maze_3x3 :: maze where
  "maze_3x3 = (case generate first_choice ''0'' ''1'' of Some (Inr st) \<Rightarrow> st | _ \<Rightarrow> page_load first_choice)"

subsection \<open>Runs that draw the same numbers\<close>

text \<open>The numbers that the calls of \<open>Math.random()\<close> return from now on.\<close>

definition draws :: "maze \<Rightarrow> nat \<Rightarrow> real" where
  "draws st i = math_random st (random_calls st + i)"

text \<open>
  Two states that differ at most in how the random source is stored and how far it has
  been read: every other variable agrees, and so do the numbers still to be drawn.
\<close>

definition same_run :: "maze \<Rightarrow> maze \<Rightarrow> bool" where
  "same_run st1 st2 \<longleftrightarrow>
     num_rows st1 = num_rows st2 \<and> num_columns st1 = num_columns st2 \<and>
     visited st1 = visited st2 \<and> frontier st1 = frontier st2 \<and> cells st1 = cells st2 \<and>
     grid_items st1 = grid_items st2 \<and> (\<forall>i. draws st1 i = draws st2 i)"

text \<open>
  Two outcomes of a run that agree: both runs do not end, or both throw the same error,
  or both return, in states that agree as above.
\<close>

definition same_outcome :: "(error + maze) option \<Rightarrow> (error + maze) option \<Rightarrow> bool" where
  "same_outcome run1 run2 =
     (case (run1, run2) of
        (None, None) \<Rightarrow> True
      | (Some (Inl e1), Some (Inl e2)) \<Rightarrow> e1 = e2
      | (Some (Inr st1), Some (Inr st2)) \<Rightarrow> same_run st1 st2
      | _ \<Rightarrow> False)"

subsection \<open>The state of the solver\<close>

text \<open>The neighbours that the inner loop of an iteration finds unvisited: the cells it discovers.\<close>

definition discoveries :: "maze \<Rightarrow> cell list \<Rightarrow> cell list" where
  "discoveries st ns = filter (\<lambda>n. \<not> visited st (FindCellIndex n (cells st))) ns"

text \<open>The depth map after the inner loop has stored the depth \<open>v\<close> for the cells \<open>ns\<close>.\<close>

definition record_depths :: "maze \<Rightarrow> number \<Rightarrow> (int \<rightharpoonup> number) \<Rightarrow> cell list \<Rightarrow> (int \<rightharpoonup> number)" where
  "record_depths st v m ns = foldl (\<lambda>m n. m(FindCellIndex n (cells st) \<mapsto> v)) m ns"

text \<open>The cells waiting in the queue, without their depths.\<close>

definition queue_cells :: "search \<Rightarrow> cell list" where
  "queue_cells q = map (\<lambda>e. (fst e, fst (snd e))) (queue q)"

text \<open>The cells that have a depth recorded in the depth map.\<close>

definition discovered :: "maze \<Rightarrow> search \<Rightarrow> cell set" where
  "discovered st q = {x \<in> set (cells st). depthMap q (FindCellIndex x (cells st)) \<noteq> None}"

text \<open>Every passage joins a cell other than the origin to its parent.\<close>

definition tree_edges :: "(cell \<Rightarrow> cell) \<Rightarrow> maze \<Rightarrow> bool" where
  "tree_edges parent st \<longleftrightarrow>
     (\<forall>x\<in>set (cells st). \<forall>y. IsOpen st x y \<longrightarrow>
        (y \<noteq> (0, 0) \<and> parent y = x) \<or> (x \<noteq> (0, 0) \<and> parent x = y))"

text \<open>The state that an iteration leaves, whether it breaks out of the loop or not.\<close>

definition step_state :: "'a loop_step \<Rightarrow> 'a" where
  "step_state res = (case res of Break r \<Rightarrow> r | Continue r \<Rightarrow> r)"

text \<open>
  What one iteration from \<open>q\<close> to \<open>q'\<close> stores into the depth map: the new writes go to
  distinct keys that had no depth recorded, each stores the depth recorded for the dequeued
  cell plus one, and no depth recorded before is changed.
\<close>

definition writes_once :: "maze \<Rightarrow> search \<Rightarrow> search \<Rightarrow> bool" where
  "writes_once st q q' \<longleftrightarrow>
     (\<exists>new. depth_writes q' = depth_writes q @ new \<and> distinct (map fst new) \<and>
        (\<forall>(k, d)\<in>set new. depthMap q k = None \<and> depthMap q' k = Some d \<and>
           (\<exists>n. depthMap q (FindCellIndex (fst (hd (queue q)), fst (snd (hd (queue q)))) (cells st))
                   = Some (Num n) \<and> d = Num (n + 1))) \<and>
        (\<forall>k. depthMap q k \<noteq> None \<longrightarrow> depthMap q' k = depthMap q k))"

text \<open>
  The invariant of the first loop of \<open>Dijkstras\<close> on a tree of passages: the queue holds
  distinct unvisited cells, the cells with a recorded depth are the visited and the queued
  ones, the parent of a discovered cell has been visited, every recorded depth is a number,
  and each key of the depth map has been written exactly once.
\<close>

definition BFS_inv :: "int \<Rightarrow> (cell \<Rightarrow> cell) \<Rightarrow> maze \<Rightarrow> search \<Rightarrow> bool" where
  "BFS_inv side parent st q \<longleftrightarrow>
     grid_ok side st \<and> tree_edges parent st \<and>
     set (queue_cells q) \<subseteq> set (cells st) \<and> distinct (queue_cells q) \<and>
     set (queue_cells q) \<inter> visited_cells st = {} \<and>
     discovered st q = visited_cells st \<union> set (queue_cells q) \<and>
     (0, 0) \<in> discovered st q \<and>
     (\<forall>x\<in>discovered st q. x \<noteq> (0, 0) \<longrightarrow> parent x \<in> visited_cells st) \<and>
     (\<forall>k v. depthMap q k = Some v \<longrightarrow> (\<exists>n. v = Num n)) \<and>
     distinct (map fst (depth_writes q)) \<and>
     set (depth_writes q) = {(k, d). depthMap q k = Some d}"

text \<open>The states at the head of the first loop of \<open>Dijkstras\<close> started in \<open>st0\<close>.\<close>

inductive Dijkstras_reaches :: "maze \<Rightarrow> maze \<Rightarrow> search \<Rightarrow> bool" for st0 where
  start: "Dijkstras_start st0 = (st, q) \<Longrightarrow> Dijkstras_reaches st0 st q"
| step: "Dijkstras_reaches st0 st q \<Longrightarrow> length (queue q) > 0 \<Longrightarrow>
     Dijkstras_iteration st q = Inr (Continue (st', q')) \<Longrightarrow> Dijkstras_reaches st0 st' q'"


section \<open>Facts about grids and passages\<close>

lemma grid_ok_GenerateGrid_side: "1 \<le> side \<Longrightarrow> grid_ok side (GenerateGrid_side st side)"
  by (simp add: grid_ok_def GenerateGrid_side_def)

lemma grid_ok_cells:
  "grid_ok side st \<Longrightarrow> cells st = cells (GenerateGrid_side st side)"
  by (simp add: grid_ok_def GenerateGrid_side_def)

lemma grid_ok_in_cells:
  "grid_ok side st \<Longrightarrow> (r, c) \<in> set (cells st) \<longleftrightarrow> 0 \<le> r \<and> r < side \<and> 0 \<le> c \<and> c < side"
  by (auto simp: grid_ok_cells set_cells)

lemma grid_ok_index:
  assumes "grid_ok side st" "(r, c) \<in> set (cells st)"
  shows "FindCellIndex (r, c) (cells st) = r * side + c"
    and "0 \<le> r * side + c" and "r * side + c < side * side"
proof -
  from assms have b: "0 \<le> r" "r < side" "0 \<le> c" "c < side" by (auto simp: grid_ok_in_cells)
  show "FindCellIndex (r, c) (cells st) = r * side + c"
    using FindCellIndex_cells[OF b, of st] grid_ok_cells[OF assms(1)] by simp
  show "0 \<le> r * side + c" using b by simp
  have "r * side + c < r * side + side" using b by simp
  also have "\<dots> = (r + 1) * side" by (simp add: algebra_simps)
  also have "\<dots> \<le> side * side" using b by (simp add: mult_right_mono)
  finally show "r * side + c < side * side" .
qed

lemma grid_ok_index_inj:
  assumes "grid_ok side st" "a \<in> set (cells st)" "b \<in> set (cells st)"
    "FindCellIndex a (cells st) = FindCellIndex b (cells st)"
  shows "a = b"
proof -
  obtain r c r' c' where ab: "a = (r, c)" "b = (r', c')" by (metis surj_pair)
  from assms ab have b: "0 \<le> r" "r < side" "0 \<le> c" "c < side" "0 \<le> r'" "r' < side" "0 \<le> c'" "c' < side"
    by (auto simp: grid_ok_in_cells)
  from assms ab have e: "r * side + c = r' * side + c'"
    using grid_ok_index(1)[OF assms(1)] by auto
  have "(r * side + c) div side = r" "(r' * side + c') div side = r'" using b by auto
  with e have "r = r'" by simp
  with e show ?thesis by (simp add: ab)
qed

lemma set_style_grid:
  assumes "grid_ok side st" "a \<in> set (cells st)"
  shows "\<exists>st'. set_style st (FindCellIndex a (cells st)) f = Inr st' \<and>
      st' = st\<lparr>grid_items := (grid_items st)[nat (FindCellIndex a (cells st)) := f (style_of st a)]\<rparr>"
proof -
  obtain r c where a: "a = (r, c)" by (metis surj_pair)
  note i = grid_ok_index[OF assms(1) assms(2)[unfolded a]]
  have "length (grid_items st) = nat (side * side)" using assms(1) by (simp add: grid_ok_def)
  with i show ?thesis
    by (simp add: set_style_def getElementById_def js_nth_def a style_of_def nat_less_iff)
qed

lemma style_of_update:
  assumes "grid_ok side st" "a \<in> set (cells st)" "b \<in> set (cells st)"
  shows "style_of (st\<lparr>grid_items := (grid_items st)[nat (FindCellIndex a (cells st)) := s]\<rparr>) b
       = (if b = a then s else style_of st b)"
proof -
  obtain r c r' c' where ab: "a = (r, c)" "b = (r', c')" by (metis surj_pair)
  note ia = grid_ok_index[OF assms(1) assms(2)[unfolded ab]]
  note ib = grid_ok_index[OF assms(1) assms(3)[unfolded ab]]
  have len: "length (grid_items st) = nat (side * side)" using assms(1) by (simp add: grid_ok_def)
  show ?thesis
  proof (cases "b = a")
    case True
    then show ?thesis using ia len by (simp add: style_of_def ab nat_less_iff)
  next
    case False
    then have "FindCellIndex a (cells st) \<noteq> FindCellIndex b (cells st)"
      using grid_ok_index_inj[OF assms(1) assms(2) assms(3)] by auto
    then have "nat (FindCellIndex a (cells st)) \<noteq> nat (FindCellIndex b (cells st))"
      using ia ib by (simp add: ab)
    then show ?thesis using False by (simp add: style_of_def)
  qed
qed

lemma grid_ok_update [simp]:
  "grid_ok side (st\<lparr>grid_items := (grid_items st)[i := s]\<rparr>) = grid_ok side st"
  "grid_ok side (st\<lparr>visited := v\<rparr>) = grid_ok side st"
  "grid_ok side (st\<lparr>frontier := fr\<rparr>) = grid_ok side st"
  "grid_ok side (st\<lparr>random_calls := n\<rparr>) = grid_ok side st"
  by (simp_all add: grid_ok_def)

lemma IsOpen_style:
  assumes "grid_ok side st" "(r, c) \<in> set (cells st)"
  shows "IsOpen st (r, c) b \<longleftrightarrow>
     (0 \<le> r - 1 \<and> borderTopColor (style_of st (r, c)) = transparent \<and> b = (r - 1, c)) \<or>
     (c + 1 < side \<and> borderRightColor (style_of st (r, c)) = transparent \<and> b = (r, c + 1)) \<or>
     (r + 1 < side \<and> borderBottomColor (style_of st (r, c)) = transparent \<and> b = (r + 1, c)) \<or>
     (0 \<le> c - 1 \<and> borderLeftColor (style_of st (r, c)) = transparent \<and> b = (r, c - 1))"
proof -
  note i = grid_ok_index[OF assms]
  have len: "length (grid_items st) = nat (side * side)" 
    and nr: "num_rows st = side" "num_columns st = side" using assms(1) by (simp_all add: grid_ok_def)
  have g: "getElementById st (FindCellIndex (r, c) (cells st)) = Some (style_of st (r, c))"
    using i len by (simp add: getElementById_def js_nth_def style_of_def nat_less_iff)
  show ?thesis
    by (auto simp: IsOpen_def ConnectedNeighbors_def Let_def g nr)
qed



lemma two_styles:
  assumes ok: "grid_ok side st" and a: "a \<in> set (cells st)" and b: "b \<in> set (cells st)" and ne: "a \<noteq> b"
  shows "\<exists>st'. (case set_style st (FindCellIndex a (cells st)) fa of Inl e \<Rightarrow> Inl e
                 | Inr st1 \<Rightarrow> set_style st1 (FindCellIndex b (cells st)) fb) = Inr st' \<and>
      grid_ok side st' \<and> cells st' = cells st \<and> visited st' = visited st \<and> frontier st' = frontier st \<and>
      math_random st' = math_random st \<and> random_calls st' = random_calls st \<and>
      (\<forall>x\<in>set (cells st). style_of st' x =
          (if x = a then fa (style_of st a) else if x = b then fb (style_of st b) else style_of st x))"
proof -
  define st1 where "st1 = st\<lparr>grid_items := (grid_items st)[nat (FindCellIndex a (cells st)) := fa (style_of st a)]\<rparr>"
  from set_style_grid[OF ok a, of fa]
  have s1: "set_style st (FindCellIndex a (cells st)) fa = Inr st1" by (simp add: st1_def)
  have ok1: "grid_ok side st1" using ok by (simp add: st1_def)
  have c1: "cells st1 = cells st" "visited st1 = visited st" "frontier st1 = frontier st"
    "math_random st1 = math_random st" "random_calls st1 = random_calls st" by (simp_all add: st1_def)
  define st2 where "st2 = st1\<lparr>grid_items := (grid_items st1)[nat (FindCellIndex b (cells st1)) := fb (style_of st1 b)]\<rparr>"
  from set_style_grid[OF ok1, of b fb] b
  have s2: "set_style st1 (FindCellIndex b (cells st)) fb = Inr st2" by (simp add: st2_def c1)
  have c2: "cells st2 = cells st" "visited st2 = visited st" "frontier st2 = frontier st"
    "math_random st2 = math_random st" "random_calls st2 = random_calls st" by (simp_all add: st2_def c1)
  have ok2: "grid_ok side st2" using ok1 by (simp add: st2_def)
  have so1: "style_of st1 x = (if x = a then fa (style_of st a) else style_of st x)"
    if "x \<in> set (cells st)" for x
    unfolding st1_def by (rule style_of_update[OF ok a that])
  have so2: "style_of st2 x = (if x = b then fb (style_of st1 b) else style_of st1 x)"
    if "x \<in> set (cells st)" for x
    unfolding st2_def using style_of_update[OF ok1, of b x] b that by (simp add: c1)
  have "\<forall>x\<in>set (cells st). style_of st2 x =
          (if x = a then fa (style_of st a) else if x = b then fb (style_of st b) else style_of st x)"
    using ne b by (auto simp: so1 so2)
  with ok2 c2 s2 show ?thesis unfolding s1 by (intro exI[of _ st2]) simp
qed

lemma adjacent_cases:
  assumes "adjacent a b"
  obtains (west) "snd a - 1 = snd b" "fst a = fst b"
  | (east) "snd a + 1 = snd b" "fst a = fst b"
  | (north) "fst a - 1 = fst b" "snd a = snd b"
  | (south) "fst a + 1 = fst b" "snd a = snd b"
  using assms by (auto simp: adjacent_def)

lemma CutEdge_grid:
  assumes ok: "grid_ok side st" and a: "a \<in> set (cells st)" and b: "b \<in> set (cells st)"
    and adj: "adjacent a b"
  shows "\<exists>st'. CutEdge st a b = Inr st' \<and> grid_ok side st' \<and> cells st' = cells st \<and>
      visited st' = visited st \<and> frontier st' = frontier st \<and>
      math_random st' = math_random st \<and> random_calls st' = random_calls st \<and>
      (\<forall>x\<in>set (cells st). \<forall>y. IsOpen st' x y \<longleftrightarrow> IsOpen st x y \<or> (x = a \<and> y = b) \<or> (x = b \<and> y = a))"
proof -
  obtain r c r' c' where ab: "a = (r, c)" "b = (r', c')" by (metis surj_pair)
  have ne: "a \<noteq> b" using adj by (auto simp: adjacent_def)
  from a b ab ok have bnd: "0 \<le> r" "r < side" "0 \<le> c" "c < side" "0 \<le> r'" "r' < side" "0 \<le> c'" "c' < side"
    by (auto simp: grid_ok_in_cells)
  from adj show ?thesis
  proof (cases rule: adjacent_cases)
    case west
    have ce: "CutEdge st a b = (case set_style st (FindCellIndex a (cells st)) (borderLeftColor_update (\<lambda>_. transparent)) of
        Inl e \<Rightarrow> Inl e
      | Inr st1 \<Rightarrow> set_style st1 (FindCellIndex b (cells st)) (borderRightColor_update (\<lambda>_. transparent)))"
      using west ne by (simp add: CutEdge_def Let_def)
    from two_styles[OF ok a b ne, where fa = "borderLeftColor_update (\<lambda>_. transparent)"
        and fb = "borderRightColor_update (\<lambda>_. transparent)", folded ce]
    obtain st' where st': "CutEdge st a b = Inr st'" "grid_ok side st'" "cells st' = cells st"
      "visited st' = visited st" "frontier st' = frontier st"
      "math_random st' = math_random st" "random_calls st' = random_calls st"
      and so: "\<And>x. x \<in> set (cells st) \<Longrightarrow> style_of st' x =
          (if x = a then borderLeftColor_update (\<lambda>_. transparent) (style_of st a)
           else if x = b then borderRightColor_update (\<lambda>_. transparent) (style_of st b) else style_of st x)"
      by blast
    have "\<forall>x\<in>set (cells st). \<forall>y. IsOpen st' x y \<longleftrightarrow> IsOpen st x y \<or> (x = a \<and> y = b) \<or> (x = b \<and> y = a)"
    proof (intro ballI allI)
      fix x y assume x: "x \<in> set (cells st)"
      obtain xr xc where xx: "x = (xr, xc)" by (metis surj_pair)
      have x': "(xr, xc) \<in> set (cells st')" using x st'(3) xx by simp
      show "IsOpen st' x y \<longleftrightarrow> IsOpen st x y \<or> (x = a \<and> y = b) \<or> (x = b \<and> y = a)"
        unfolding xx IsOpen_style[OF st'(2) x'] IsOpen_style[OF ok x[unfolded xx]] so[OF x, unfolded xx]
        using west bnd ne by (auto simp: ab)
    qed
    with st' show ?thesis by blast
  next
    case east
    have ce: "CutEdge st a b = (case set_style st (FindCellIndex a (cells st)) (borderRightColor_update (\<lambda>_. transparent)) of
        Inl e \<Rightarrow> Inl e
      | Inr st1 \<Rightarrow> set_style st1 (FindCellIndex b (cells st)) (borderLeftColor_update (\<lambda>_. transparent)))"
      using east ne by (simp add: CutEdge_def Let_def)
    from two_styles[OF ok a b ne, where fa = "borderRightColor_update (\<lambda>_. transparent)"
        and fb = "borderLeftColor_update (\<lambda>_. transparent)", folded ce]
    obtain st' where st': "CutEdge st a b = Inr st'" "grid_ok side st'" "cells st' = cells st"
      "visited st' = visited st" "frontier st' = frontier st"
      "math_random st' = math_random st" "random_calls st' = random_calls st"
      and so: "\<And>x. x \<in> set (cells st) \<Longrightarrow> style_of st' x =
          (if x = a then borderRightColor_update (\<lambda>_. transparent) (style_of st a)
           else if x = b then borderLeftColor_update (\<lambda>_. transparent) (style_of st b) else style_of st x)"
      by blast
    have "\<forall>x\<in>set (cells st). \<forall>y. IsOpen st' x y \<longleftrightarrow> IsOpen st x y \<or> (x = a \<and> y = b) \<or> (x = b \<and> y = a)"
    proof (intro ballI allI)
      fix x y assume x: "x \<in> set (cells st)"
      obtain xr xc where xx: "x = (xr, xc)" by (metis surj_pair)
      have x': "(xr, xc) \<in> set (cells st')" using x st'(3) xx by simp
      show "IsOpen st' x y \<longleftrightarrow> IsOpen st x y \<or> (x = a \<and> y = b) \<or> (x = b \<and> y = a)"
        unfolding xx IsOpen_style[OF st'(2) x'] IsOpen_style[OF ok x[unfolded xx]] so[OF x, unfolded xx]
        using east bnd ne by (auto simp: ab)
    qed
    with st' show ?thesis by blast
  next
    case north
    have ce: "CutEdge st a b = (case set_style st (FindCellIndex a (cells st)) (borderTopColor_update (\<lambda>_. transparent)) of
        Inl e \<Rightarrow> Inl e
      | Inr st1 \<Rightarrow> set_style st1 (FindCellIndex b (cells st)) (borderBottomColor_update (\<lambda>_. transparent)))"
      using north ne by (simp add: CutEdge_def Let_def)
    from two_styles[OF ok a b ne, where fa = "borderTopColor_update (\<lambda>_. transparent)"
        and fb = "borderBottomColor_update (\<lambda>_. transparent)", folded ce]
    obtain st' where st': "CutEdge st a b = Inr st'" "grid_ok side st'" "cells st' = cells st"
      "visited st' = visited st" "frontier st' = frontier st"
      "math_random st' = math_random st" "random_calls st' = random_calls st"
      and so: "\<And>x. x \<in> set (cells st) \<Longrightarrow> style_of st' x =
          (if x = a then borderTopColor_update (\<lambda>_. transparent) (style_of st a)
           else if x = b then borderBottomColor_update (\<lambda>_. transparent) (style_of st b) else style_of st x)"
      by blast
    have "\<forall>x\<in>set (cells st). \<forall>y. IsOpen st' x y \<longleftrightarrow> IsOpen st x y \<or> (x = a \<and> y = b) \<or> (x = b \<and> y = a)"
    proof (intro ballI allI)
      fix x y assume x: "x \<in> set (cells st)"
      obtain xr xc where xx: "x = (xr, xc)" by (metis surj_pair)
      have x': "(xr, xc) \<in> set (cells st')" using x st'(3) xx by simp
      show "IsOpen st' x y \<longleftrightarrow> IsOpen st x y \<or> (x = a \<and> y = b) \<or> (x = b \<and> y = a)"
        unfolding xx IsOpen_style[OF st'(2) x'] IsOpen_style[OF ok x[unfolded xx]] so[OF x, unfolded xx]
        using north bnd ne by (auto simp: ab)
    qed
    with st' show ?thesis by blast
  next
    case south
    have ce: "CutEdge st a b = (case set_style st (FindCellIndex a (cells st)) (borderBottomColor_update (\<lambda>_. transparent)) of
        Inl e \<Rightarrow> Inl e
      | Inr st1 \<Rightarrow> set_style st1 (FindCellIndex b (cells st)) (borderTopColor_update (\<lambda>_. transparent)))"
      using south ne by (simp add: CutEdge_def Let_def)
    from two_styles[OF ok a b ne, where fa = "borderBottomColor_update (\<lambda>_. transparent)"
        and fb = "borderTopColor_update (\<lambda>_. transparent)", folded ce]
    obtain st' where st': "CutEdge st a b = Inr st'" "grid_ok side st'" "cells st' = cells st"
      "visited st' = visited st" "frontier st' = frontier st"
      "math_random st' = math_random st" "random_calls st' = random_calls st"
      and so: "\<And>x. x \<in> set (cells st) \<Longrightarrow> style_of st' x =
          (if x = a then borderBottomColor_update (\<lambda>_. transparent) (style_of st a)
           else if x = b then borderTopColor_update (\<lambda>_. transparent) (style_of st b) else style_of st x)"
      by blast
    have "\<forall>x\<in>set (cells st). \<forall>y. IsOpen st' x y \<longleftrightarrow> IsOpen st x y \<or> (x = a \<and> y = b) \<or> (x = b \<and> y = a)"
    proof (intro ballI allI)
      fix x y assume x: "x \<in> set (cells st)"
      obtain xr xc where xx: "x = (xr, xc)" by (metis surj_pair)
      have x': "(xr, xc) \<in> set (cells st')" using x st'(3) xx by simp
      show "IsOpen st' x y \<longleftrightarrow> IsOpen st x y \<or> (x = a \<and> y = b) \<or> (x = b \<and> y = a)"
        unfolding xx IsOpen_style[OF st'(2) x'] IsOpen_style[OF ok x[unfolded xx]] so[OF x, unfolded xx]
        using south bnd ne by (auto simp: ab)
    qed
    with st' show ?thesis by blast
  qed
qed


lemma cells_3x3:
  "cells (GenerateGrid_side st 3) = [(0,0),(0,1),(0,2),(1,0),(1,1),(1,2),(2,0),(2,1),(2,2)]"
  by (simp add: GenerateGrid_side_def upto.simps)

lemma valid_random_first_choice: "valid_random (page_load first_choice)"
  by (simp add: valid_random_def page_load_def first_choice_def)

lemma valid_random_fields:
  "math_random st' = math_random st \<Longrightarrow> valid_random st' = valid_random st"
  by (simp add: valid_random_def)

lemma random_index_range:
  assumes "valid_random st" "0 < n"
  shows "0 \<le> fst (random_index st n)" "fst (random_index st n) < n"
proof -
  let ?r = "math_random st (random_calls st)"
  from assms(1) have r: "0 \<le> ?r" "?r < 1" by (auto simp: valid_random_def)
  have "0 \<le> ?r * of_int n" using r assms(2) by simp
  then show "0 \<le> fst (random_index st n)" by (simp add: random_index_def)
  have "?r * of_int n < 1 * of_int n" using r assms(2) by (intro mult_strict_right_mono) auto
  then show "fst (random_index st n) < n" by (simp add: random_index_def floor_less_iff)
qed

lemma unvisited_count_le: "unvisited_count st \<le> length (cells st)"
proof -
  have "{i. 0 \<le> i \<and> i < int (length (cells st)) \<and> \<not> visited st i} \<subseteq> {0..<int (length (cells st))}"
    by auto
  from card_mono[OF _ this] show ?thesis by (simp add: unvisited_count_def)
qed

lemma RecursiveBacktrack_calls_bound:
  "RecursiveBacktrack_calls st path \<le> 2 * unvisited_count st + length path + 1"
proof (induction st path rule: RecursiveBacktrack_calls.induct)
  case (1 st path)
  show ?case
  proof (cases "length path > 0")
    case False
    then show ?thesis by (simp add: RecursiveBacktrack_calls.simps[of st path])
  next
    case True
    show ?thesis
    proof (cases "RecursiveBacktrack_body st path")
      case (Inl e)
      with True show ?thesis by (simp add: RecursiveBacktrack_calls.simps[of st path])
    next
      case (Inr r)
      obtain st' path' where r: "r = (st', path')" by (metis surj_pair)
      from "1.IH"[OF True Inr[unfolded r] refl]
      have ih: "RecursiveBacktrack_calls st' path' \<le> 2 * unvisited_count st' + length path' + 1" .
      from RecursiveBacktrack_body_decreases[OF Inr[unfolded r] True] ih
      have "1 + RecursiveBacktrack_calls st' path' \<le> 2 * unvisited_count st + length path + 1"
        by auto
      with True Inr r show ?thesis by (simp add: RecursiveBacktrack_calls.simps[of st path])
    qed
  qed
qed

lemma GenerateMaze_start_grid:
  assumes v: "valid_random st" and ok: "grid_ok side st"
    and gs: "GenerateMaze_start st = (startRow, startColumn, st3)"
  shows "(startRow, startColumn) \<in> set (cells st)" "grid_ok side st3" "valid_random st3"
    "visited st3 = (visited st)(startRow * side + startColumn := True)"
    "frontier st3 = frontier st" "grid_items st3 = grid_items st" "cells st3 = cells st"
proof -
  obtain st1 where r1: "random_index st (num_rows st) = (startRow, st1)"
    using gs by (auto simp: GenerateMaze_start_def split: prod.splits)
  note f1 = random_index_fields[OF r1]
  obtain st2 where r2: "random_index st1 (num_columns st1) = (startColumn, st2)"
    using gs r1 by (auto simp: GenerateMaze_start_def split: prod.splits)
  note f2 = random_index_fields[OF r2]
  have st3: "st3 = st2\<lparr>visited := (visited st2)(FindCellIndex (startRow, startColumn) (cells st2) := True)\<rparr>"
    using gs r1 r2 by (simp add: GenerateMaze_start_def)
  have side: "1 \<le> side" "num_rows st = side" "num_columns st = side" using ok by (simp_all add: grid_ok_def)
  have v1: "valid_random st1" using v f1 by (simp add: valid_random_def)
  have "0 \<le> startRow \<and> startRow < side"
    using random_index_range[OF v, of side] side r1 by simp
  moreover have "0 \<le> startColumn \<and> startColumn < side"
    using random_index_range[OF v1, of side] side r2 f1 by simp
  ultimately show s: "(startRow, startColumn) \<in> set (cells st)"
    by (simp add: grid_ok_in_cells[OF ok])
  show "grid_ok side st3" using ok f1 f2 by (simp add: st3 grid_ok_def)
  show "valid_random st3" using v f1 f2 by (simp add: st3 valid_random_def)
  show "visited st3 = (visited st)(startRow * side + startColumn := True)"
    using grid_ok_index(1)[OF ok s] by (simp add: st3 f1 f2)
  show "frontier st3 = frontier st" "grid_items st3 = grid_items st" "cells st3 = cells st"
    by (simp_all add: st3 f1 f2)
qed

lemma grid_ok_length_cells:
  assumes "grid_ok side st"
  shows "length (cells st) = nat (side * side)"
proof -
  have "0 \<le> side" using assms by (simp add: grid_ok_def)
  from length_cells[OF this, of st] show ?thesis by (simp add: grid_ok_cells[OF assms])
qed

lemma set_style_IsOpen:
  assumes ok: "grid_ok side st" and a: "a \<in> set (cells st)"
    and top: "0 \<le> fst a - 1 \<Longrightarrow> borderTopColor (f (style_of st a)) = borderTopColor (style_of st a)"
    and right: "snd a + 1 < side \<Longrightarrow> borderRightColor (f (style_of st a)) = borderRightColor (style_of st a)"
    and bottom: "fst a + 1 < side \<Longrightarrow> borderBottomColor (f (style_of st a)) = borderBottomColor (style_of st a)"
    and left: "0 \<le> snd a - 1 \<Longrightarrow> borderLeftColor (f (style_of st a)) = borderLeftColor (style_of st a)"
  shows "\<exists>st'. set_style st (FindCellIndex a (cells st)) f = Inr st' \<and> grid_ok side st' \<and>
     cells st' = cells st \<and> visited st' = visited st \<and> frontier st' = frontier st \<and>
     math_random st' = math_random st \<and> random_calls st' = random_calls st \<and>
     (\<forall>x\<in>set (cells st). \<forall>y. IsOpen st' x y = IsOpen st x y)"
proof -
  define st' where "st' = st\<lparr>grid_items := (grid_items st)[nat (FindCellIndex a (cells st)) := f (style_of st a)]\<rparr>"
  from set_style_grid[OF ok a, of f]
  have s1: "set_style st (FindCellIndex a (cells st)) f = Inr st'" by (simp add: st'_def)
  have ok': "grid_ok side st'" using ok by (simp add: st'_def)
  have c: "cells st' = cells st" "visited st' = visited st" "frontier st' = frontier st"
    "math_random st' = math_random st" "random_calls st' = random_calls st" by (simp_all add: st'_def)
  have so: "style_of st' x = (if x = a then f (style_of st a) else style_of st x)"
    if "x \<in> set (cells st)" for x
    unfolding st'_def by (rule style_of_update[OF ok a that])
  have "\<forall>x\<in>set (cells st). \<forall>y. IsOpen st' x y = IsOpen st x y"
  proof (intro ballI allI)
    fix x y assume x: "x \<in> set (cells st)"
    obtain xr xc where xx: "x = (xr, xc)" by (metis surj_pair)
    have x': "(xr, xc) \<in> set (cells st')" using x c xx by simp
    show "IsOpen st' x y = IsOpen st x y"
      unfolding xx IsOpen_style[OF ok' x'] IsOpen_style[OF ok x[unfolded xx]] so[OF x, unfolded xx]
      using top right bottom left by (auto simp: xx)
  qed
  with s1 ok' c show ?thesis by blast
qed

lemma set_backgroundColor_grid:
  assumes ok: "grid_ok side st" and a: "a \<in> set (cells st)"
  shows "\<exists>st'. set_backgroundColor st (FindCellIndex a (cells st)) colour = Inr st' \<and> grid_ok side st' \<and>
     cells st' = cells st \<and> visited st' = visited st \<and> frontier st' = frontier st \<and>
     math_random st' = math_random st \<and> random_calls st' = random_calls st \<and>
     (\<forall>x\<in>set (cells st). \<forall>y. IsOpen st' x y = IsOpen st x y)"
  unfolding set_backgroundColor_def by (rule set_style_IsOpen[OF ok a]) simp_all

lemma CreateEntranceAndExit_grid:
  assumes ok: "grid_ok side st"
  shows "\<exists>st'. CreateEntranceAndExit st = Inr st' \<and> grid_ok side st' \<and>
     cells st' = cells st \<and> visited st' = visited st \<and> frontier st' = frontier st \<and>
     math_random st' = math_random st \<and> random_calls st' = random_calls st \<and>
     (\<forall>x\<in>set (cells st). \<forall>y. IsOpen st' x y = IsOpen st x y)"
proof -
  have side: "1 \<le> side" "num_rows st = side" "num_columns st = side" using ok by (simp_all add: grid_ok_def)
  have e: "(side - 1, side - 1) \<in> set (cells st)" and x: "(0, 0) \<in> set (cells st)"
    using side by (simp_all add: grid_ok_in_cells[OF ok])
  from set_style_IsOpen[OF ok e, of "borderBottomColor_update (\<lambda>_. transparent)"]
  obtain st1 where st1: "set_style st (FindCellIndex (side - 1, side - 1) (cells st))
        (borderBottomColor_update (\<lambda>_. transparent)) = Inr st1" "grid_ok side st1"
     "cells st1 = cells st" "visited st1 = visited st" "frontier st1 = frontier st"
     "math_random st1 = math_random st" "random_calls st1 = random_calls st"
     "\<forall>x\<in>set (cells st). \<forall>y. IsOpen st1 x y = IsOpen st x y"
    by auto
  have x1: "(0, 0) \<in> set (cells st1)" using x st1(3) by simp
  from set_style_IsOpen[OF st1(2) x1, of "borderTopColor_update (\<lambda>_. transparent)"]
  obtain st2 where st2: "set_style st1 (FindCellIndex (0, 0) (cells st1))
        (borderTopColor_update (\<lambda>_. transparent)) = Inr st2" "grid_ok side st2"
     "cells st2 = cells st1" "visited st2 = visited st1" "frontier st2 = frontier st1"
     "math_random st2 = math_random st1" "random_calls st2 = random_calls st1"
     "\<forall>x\<in>set (cells st1). \<forall>y. IsOpen st2 x y = IsOpen st1 x y"
    by auto
  have "CreateEntranceAndExit st = Inr st2"
    using st1(1) st2(1) side by (simp add: CreateEntranceAndExit_def)
  with st1 st2 show ?thesis by auto
qed

lemma style_of_new_grid:
  assumes "1 \<le> side" "a \<in> set (cells (GenerateGrid_side st side))"
  shows "style_of (GenerateGrid_side st side) a = new_grid_item"
proof -
  obtain r c where a: "a = (r, c)" by (metis surj_pair)
  note ok = grid_ok_GenerateGrid_side[OF assms(1), of st]
  note i = grid_ok_index[OF ok assms(2)[unfolded a]]
  have "grid_items (GenerateGrid_side st side) = replicate (nat (side * side)) new_grid_item"
    by (simp add: GenerateGrid_side_def)
  with i show ?thesis by (simp add: style_of_def a nat_less_iff)
qed

lemma IsOpen_new_grid:
  assumes "1 \<le> side" "a \<in> set (cells (GenerateGrid_side st side))"
  shows "\<not> IsOpen (GenerateGrid_side st side) a b"
proof -
  obtain r c where a: "a = (r, c)" by (metis surj_pair)
  note ok = grid_ok_GenerateGrid_side[OF assms(1), of st]
  show ?thesis
    unfolding a IsOpen_style[OF ok assms(2)[unfolded a]] style_of_new_grid[OF assms, unfolded a]
    by (simp add: new_grid_item_def transparent_def)
qed

lemma grid_3x3: "grid_ok 3 (GenerateGrid_side (page_load first_choice) 3)"
  by (rule grid_ok_GenerateGrid_side) simp

lemma Dijkstras_discover_queue:
  "Dijkstras_discover st depth neighbors q = Inr (st', q') \<Longrightarrow> \<exists>new. queue q' = queue q @ new"
proof (induction neighbors arbitrary: st q)
  case Nil
  then show ?case by simp
next
  case (Cons n ns)
  show ?case
  proof (cases "visited st (FindCellIndex n (cells st))")
    case True
    with Cons.prems have "Dijkstras_discover st depth ns q = Inr (st', q')" by simp
    from Cons.IH[OF this] show ?thesis .
  next
    case False
    with Cons.prems obtain st1 where
      "Dijkstras_discover st1 depth ns
         (q\<lparr>queue := queue q @ [(fst n, snd n, plus_one depth)],
            depthMap := (depthMap q)(FindCellIndex n (cells st) \<mapsto> plus_one depth),
            depth_writes := depth_writes q @ [(FindCellIndex n (cells st), plus_one depth)]\<rparr>) = Inr (st', q')"
      by (auto simp: Let_def split: sum.splits)
    from Cons.IH[OF this] show ?thesis by auto
  qed
qed

lemma Dijkstras_iteration_unfold:
  assumes "queue q = cell # rest"
    and "set_backgroundColor (s\<lparr>visited := (visited s)(FindCellIndex (fst cell, fst (snd cell)) (cells s) := True)\<rparr>)
           (FindCellIndex (fst cell, fst (snd cell)) (cells s)) ''#5941f6'' = Inr st2"
  shows "Dijkstras_iteration s q =
     (if fst cell = num_rows s - 1 \<and> fst (snd cell) = num_columns s - 1
      then Inr (Break (st2, q\<lparr>queue := rest\<rparr>))
      else
        (case ConnectedNeighbors st2 (fst cell) (fst (snd cell)) of
           Inl e \<Rightarrow> Inl e
         | Inr neighbors \<Rightarrow>
            (case Dijkstras_discover st2
                    (depthMap (q\<lparr>queue := rest\<rparr>) (FindCellIndex (fst cell, fst (snd cell)) (cells s)))
                    neighbors (q\<lparr>queue := rest\<rparr>) of
               Inl e \<Rightarrow> Inl e
             | Inr r \<Rightarrow> Inr (Continue r))))"
  using assms set_backgroundColor_fields(4,5)[OF assms(2)]
  by (simp add: Dijkstras_iteration_def Let_def)

lemma Dijkstras_iteration_InrD:
  assumes "Dijkstras_iteration s q = Inr r"
  obtains cell rest st2 where "queue q = cell # rest"
    and "set_backgroundColor (s\<lparr>visited := (visited s)(FindCellIndex (fst cell, fst (snd cell)) (cells s) := True)\<rparr>)
           (FindCellIndex (fst cell, fst (snd cell)) (cells s)) ''#5941f6'' = Inr st2"
proof -
  from assms obtain cell rest where q: "queue q = cell # rest"
    by (cases "queue q") (auto simp: Dijkstras_iteration_def)
  let ?idx = "FindCellIndex (fst cell, fst (snd cell)) (cells s)"
  obtain st2 where "set_backgroundColor (s\<lparr>visited := (visited s)(?idx := True)\<rparr>) ?idx ''#5941f6'' = Inr st2"
  proof (cases "set_backgroundColor (s\<lparr>visited := (visited s)(?idx := True)\<rparr>) ?idx ''#5941f6''")
    case (Inl e)
    with assms q have False by (simp add: Dijkstras_iteration_def Let_def)
    then show ?thesis ..
  next
    case (Inr st2)
    then show ?thesis by (rule that)
  qed
  with q show ?thesis by (rule that)
qed

lemma Dijkstras_iteration_Break:
  assumes "Dijkstras_iteration s q = Inr (Break r)"
  shows "\<exists>d rest. queue q = (num_rows s - 1, num_columns s - 1, d) # rest"
proof -
  from assms obtain cell rest st2 where q: "queue q = cell # rest"
    and bg: "set_backgroundColor (s\<lparr>visited := (visited s)(FindCellIndex (fst cell, fst (snd cell)) (cells s) := True)\<rparr>)
           (FindCellIndex (fst cell, fst (snd cell)) (cells s)) ''#5941f6'' = Inr st2"
    by (rule Dijkstras_iteration_InrD)
  have c: "fst cell = num_rows s - 1 \<and> fst (snd cell) = num_columns s - 1"
  proof (rule ccontr)
    assume "\<not> ?thesis"
    with assms show False
      unfolding Dijkstras_iteration_unfold[OF q bg] by (simp split: sum.splits)
  qed
  then have "cell = (num_rows s - 1, num_columns s - 1, snd (snd cell))" by (metis prod.collapse)
  with q show ?thesis by metis
qed

lemma Dijkstras_iteration_Continue:
  assumes "Dijkstras_iteration s q = Inr (Continue (s', q'))"
  shows "\<exists>cell rest new. queue q = cell # rest \<and>
     (fst cell, fst (snd cell)) \<noteq> (num_rows s - 1, num_columns s - 1) \<and> queue q' = rest @ new"
proof -
  from assms obtain cell rest st2 where q: "queue q = cell # rest"
    and bg: "set_backgroundColor (s\<lparr>visited := (visited s)(FindCellIndex (fst cell, fst (snd cell)) (cells s) := True)\<rparr>)
           (FindCellIndex (fst cell, fst (snd cell)) (cells s)) ''#5941f6'' = Inr st2"
    by (rule Dijkstras_iteration_InrD)
  note u = assms[unfolded Dijkstras_iteration_unfold[OF q bg]]
  have c: "\<not> (fst cell = num_rows s - 1 \<and> fst (snd cell) = num_columns s - 1)"
    using u by (auto split: if_splits)
  with u obtain neighbors where
    d: "Dijkstras_discover st2 (depthMap (q\<lparr>queue := rest\<rparr>) (FindCellIndex (fst cell, fst (snd cell)) (cells s)))
          neighbors (q\<lparr>queue := rest\<rparr>) = Inr (s', q')"
    by (auto split: sum.splits)
  from Dijkstras_discover_queue[OF d] obtain new where "queue q' = rest @ new" by auto
  with c q show ?thesis by auto
qed

lemma Dijkstras_iteration_entrance:
  assumes ok: "grid_ok side s" and q: "queue q = (side - 1, side - 1, d) # rest"
  shows "\<exists>r. Dijkstras_iteration s q = Inr (Break r)"
proof -
  have side: "1 \<le> side" "num_rows s = side" "num_columns s = side" using ok by (simp_all add: grid_ok_def)
  let ?idx = "FindCellIndex (side - 1, side - 1) (cells s)"
  let ?s1 = "s\<lparr>visited := (visited s)(?idx := True)\<rparr>"
  have ok1: "grid_ok side ?s1" using ok by simp
  have e: "(side - 1, side - 1) \<in> set (cells ?s1)" using side by (simp add: grid_ok_in_cells[OF ok])
  from set_backgroundColor_grid[OF ok1 e, of "''#5941f6''"]
  obtain st2 where bg: "set_backgroundColor ?s1 ?idx ''#5941f6'' = Inr st2" and ok2: "grid_ok side st2"
    by auto
  have "num_rows st2 = side" "num_columns st2 = side" using ok2 by (simp_all add: grid_ok_def)
  with bg q show ?thesis by (simp add: Dijkstras_iteration_def Let_def)
qed

lemma grid_ok_maze_3x3: "grid_ok 3 maze_3x3"
  by code_simp

section \<open>The passage graph\<close>


lemma distinct_concat_map:
  assumes "distinct xs" "\<And>x. x \<in> set xs \<Longrightarrow> distinct (f x)"
    "\<And>x y. x \<in> set xs \<Longrightarrow> y \<in> set xs \<Longrightarrow> x \<noteq> y \<Longrightarrow> set (f x) \<inter> set (f y) = {}"
  shows "distinct (concat (map f xs))"
  using assms
proof (induction xs)
  case Nil
  then show ?case by simp
next
  case (Cons a xs)
  have "distinct (concat (map f xs))" using Cons by auto
  moreover have "distinct (f a)" using Cons.prems by simp
  moreover have "set (f a) \<inter> set (concat (map f xs)) = {}"
  proof -
    have "set (f a) \<inter> set (f y) = {}" if "y \<in> set xs" for y
      using Cons.prems(1) Cons.prems(3)[of a y] that by auto
    then show ?thesis by auto
  qed
  ultimately show ?case by simp
qed

lemma GetAllEdges_mem:
  "(a, b) \<in> set (GetAllEdges st) \<longleftrightarrow>
     (\<exists>x\<in>{0..num_rows st - 1}. \<exists>y\<in>{0..num_columns st - 1}. a = (x, y) \<and>
        ((x < num_rows st - 1 \<and> b = (x + 1, y)) \<or> (y < num_columns st - 1 \<and> b = (x, y + 1))))"
  by (auto simp: GetAllEdges_def split: if_splits)

lemma GetAllEdges_iff:
  "(a, b) \<in> set (GetAllEdges st) \<longleftrightarrow>
     0 \<le> fst a \<and> 0 \<le> snd a \<and> fst b < num_rows st \<and> snd b < num_columns st \<and>
     ((fst b = fst a + 1 \<and> snd b = snd a) \<or> (fst b = fst a \<and> snd b = snd a + 1))"
  (is "?L \<longleftrightarrow> ?R")
proof
  assume ?L
  then obtain x y where "x \<in> {0..num_rows st - 1}" "y \<in> {0..num_columns st - 1}" "a = (x, y)"
    "(x < num_rows st - 1 \<and> b = (x + 1, y)) \<or> (y < num_columns st - 1 \<and> b = (x, y + 1))"
    unfolding GetAllEdges_mem by blast
  then show ?R by auto
next
  assume r: ?R
  obtain x y where a: "a = (x, y)" by (metis surj_pair)
  from r a have "x \<in> {0..num_rows st - 1}" "y \<in> {0..num_columns st - 1}"
    "(x < num_rows st - 1 \<and> b = (x + 1, y)) \<or> (y < num_columns st - 1 \<and> b = (x, y + 1))"
    by (auto simp: prod_eq_iff)
  with a show ?L unfolding GetAllEdges_mem by blast
qed

lemma GetAllEdges_distinct: "distinct (GetAllEdges st)"
  unfolding GetAllEdges_def
proof (rule distinct_concat_map, goal_cases)
  case 1
  show ?case by simp
next
  case (2 x)
  show ?case by (rule distinct_concat_map) (auto split: if_splits)
next
  case (3 x y)
  then show ?case by (auto split: if_splits)
qed

lemma GetAllEdges_grid:
  assumes "grid_ok side st" "(a, b) \<in> set (GetAllEdges st)"
  shows "a \<in> set (cells st)" "b \<in> set (cells st)" "adjacent a b" "(b, a) \<notin> set (GetAllEdges st)"
proof -
  have nr: "num_rows st = side" "num_columns st = side" using assms(1) by (simp_all add: grid_ok_def)
  obtain r c r' c' where ab: "a = (r, c)" "b = (r', c')" by (metis surj_pair)
  note e = assms(2)[unfolded GetAllEdges_iff nr ab, simplified]
  from e show "a \<in> set (cells st)" "b \<in> set (cells st)"
    unfolding ab grid_ok_in_cells[OF assms(1)] by auto
  from e show "adjacent a b" unfolding ab adjacent_def by auto
  from e show "(b, a) \<notin> set (GetAllEdges st)" unfolding GetAllEdges_iff ab by auto
qed

lemma adjacent_sym: "adjacent a b \<Longrightarrow> adjacent b a"
  by (auto simp: adjacent_def)

lemma adjacent_GetAllEdges:
  assumes "grid_ok side st" "a \<in> set (cells st)" "b \<in> set (cells st)" "adjacent a b"
  shows "(a, b) \<in> set (GetAllEdges st) \<or> (b, a) \<in> set (GetAllEdges st)"
proof -
  have nr: "num_rows st = side" "num_columns st = side" using assms(1) by (simp_all add: grid_ok_def)
  obtain r c r' c' where ab: "a = (r, c)" "b = (r', c')" by (metis surj_pair)
  from assms(2,3) have "0 \<le> r" "r < side" "0 \<le> c" "c < side" "0 \<le> r'" "r' < side" "0 \<le> c'" "c' < side"
    unfolding ab grid_ok_in_cells[OF assms(1)] by auto
  with assms(4) show ?thesis
    unfolding GetAllEdges_iff nr ab adjacent_def by auto
qed

lemma filter_length_add_one:
  assumes "distinct xs" "e \<in> set xs" "\<not> P e" "\<And>x. x \<in> set xs \<Longrightarrow> Q x \<longleftrightarrow> P x \<or> x = e"
  shows "length (filter Q xs) = length (filter P xs) + 1"
  using assms
proof (induction xs)
  case Nil
  then show ?case by simp
next
  case (Cons a xs)
  show ?case
  proof (cases "a = e")
    case True
    then have "e \<notin> set xs" using Cons.prems(1) by simp
    then have "filter Q xs = filter P xs" using Cons.prems(4) by (intro filter_cong) auto
    with True Cons.prems show ?thesis by simp
  next
    case False
    then have "e \<in> set xs" using Cons.prems(2) by simp
    from Cons.IH[OF _ this Cons.prems(3)] Cons.prems(1,4)
    have "length (filter Q xs) = length (filter P xs) + 1" by simp
    moreover have "Q a = P a" using Cons.prems(4)[of a] False by simp
    ultimately show ?thesis by simp
  qed
qed

text \<open>States that agree on the grid and on its passages.\<close>

definition same_passages :: "maze \<Rightarrow> maze \<Rightarrow> bool" where
  "same_passages st st' \<longleftrightarrow> cells st' = cells st \<and> num_rows st' = num_rows st \<and>
     num_columns st' = num_columns st \<and> (\<forall>x\<in>set (cells st). \<forall>y. IsOpen st' x y = IsOpen st x y)"

lemma same_passages_eq:
  assumes "grid_ok side st" "same_passages st st'"
  shows "passages st' = passages st" "open_passages st' = open_passages st"
proof -
  from assms(2) show "passages st' = passages st" by (auto simp: passages_def same_passages_def)
  have "GetAllEdges st' = GetAllEdges st" using assms(2) by (simp add: GetAllEdges_def same_passages_def)
  moreover have "filter (\<lambda>(a, b). IsOpen st' a b) (GetAllEdges st) = filter (\<lambda>(a, b). IsOpen st a b) (GetAllEdges st)"
    using assms(2) GetAllEdges_grid(1)[OF assms(1)]
    by (intro filter_cong) (auto simp: same_passages_def)
  ultimately show "open_passages st' = open_passages st" by (simp add: open_passages_def)
qed

lemma IsOpen_cells:
  assumes "grid_ok side st" "a \<in> set (cells st)" "IsOpen st a b"
  shows "b \<in> set (cells st)" "adjacent a b"
proof -
  obtain r c where a: "a = (r, c)" by (metis surj_pair)
  from assms(2) a have bnd: "0 \<le> r" "r < side" "0 \<le> c" "c < side" by (auto simp: grid_ok_in_cells[OF assms(1)])
  from assms(3)[unfolded a IsOpen_style[OF assms(1) assms(2)[unfolded a]]] bnd
  show "b \<in> set (cells st)" "adjacent a b"
    by (auto simp: grid_ok_in_cells[OF assms(1)] adjacent_def a)
qed

text \<open>The effect of carving one new passage.\<close>

lemma CutEdge_passages:
  assumes ok: "grid_ok side st" and a: "a \<in> set (cells st)" and b: "b \<in> set (cells st)"
    and adj: "adjacent a b"
  shows "\<exists>st'. CutEdge st a b = Inr st' \<and> grid_ok side st' \<and> cells st' = cells st \<and>
      visited st' = visited st \<and> frontier st' = frontier st \<and>
      math_random st' = math_random st \<and> random_calls st' = random_calls st \<and>
      passages st' = passages st \<union> {(a, b), (b, a)} \<and>
      (\<not> IsOpen st a b \<and> \<not> IsOpen st b a \<longrightarrow> length (open_passages st') = length (open_passages st) + 1)"
proof -
  from CutEdge_grid[OF ok a b adj] obtain st' where
    st': "CutEdge st a b = Inr st'" "grid_ok side st'" "cells st' = cells st"
      "visited st' = visited st" "frontier st' = frontier st"
      "math_random st' = math_random st" "random_calls st' = random_calls st"
    and io: "\<And>x y. x \<in> set (cells st) \<Longrightarrow> IsOpen st' x y \<longleftrightarrow> IsOpen st x y \<or> (x = a \<and> y = b) \<or> (x = b \<and> y = a)"
    by blast
  have p: "passages st' = passages st \<union> {(a, b), (b, a)}"
    using a b by (auto simp: passages_def st'(3) io)
  have nr: "num_rows st' = num_rows st" "num_columns st' = num_columns st"
    using ok st'(2) by (simp_all add: grid_ok_def)
  have ge: "GetAllEdges st' = GetAllEdges st" by (simp add: GetAllEdges_def nr)
  have cnt: "length (open_passages st') = length (open_passages st) + 1"
    if closed: "\<not> IsOpen st a b" "\<not> IsOpen st b a"
  proof -
    from adjacent_GetAllEdges[OF ok a b adj] show ?thesis
    proof
      assume e: "(a, b) \<in> set (GetAllEdges st)"
      have "length (filter (\<lambda>(x, y). IsOpen st' x y) (GetAllEdges st))
          = length (filter (\<lambda>(x, y). IsOpen st x y) (GetAllEdges st)) + 1"
      proof (rule filter_length_add_one[OF GetAllEdges_distinct e])
        show "\<not> (case (a, b) of (x, y) \<Rightarrow> IsOpen st x y)" using closed by simp
        fix x assume x: "x \<in> set (GetAllEdges st)"
        obtain u v where uv: "x = (u, v)" by (metis surj_pair)
        from GetAllEdges_grid[OF ok x[unfolded uv]] e
        have "u \<in> set (cells st)" "(u, v) \<noteq> (b, a)" by auto
        then show "(case x of (x, y) \<Rightarrow> IsOpen st' x y) \<longleftrightarrow> (case x of (x, y) \<Rightarrow> IsOpen st x y) \<or> x = (a, b)"
          by (auto simp: uv io)
      qed
      then show ?thesis by (simp add: open_passages_def ge)
    next
      assume e: "(b, a) \<in> set (GetAllEdges st)"
      have "length (filter (\<lambda>(x, y). IsOpen st' x y) (GetAllEdges st))
          = length (filter (\<lambda>(x, y). IsOpen st x y) (GetAllEdges st)) + 1"
      proof (rule filter_length_add_one[OF GetAllEdges_distinct e])
        show "\<not> (case (b, a) of (x, y) \<Rightarrow> IsOpen st x y)" using closed by simp
        fix x assume x: "x \<in> set (GetAllEdges st)"
        obtain u v where uv: "x = (u, v)" by (metis surj_pair)
        from GetAllEdges_grid[OF ok x[unfolded uv]] e
        have "u \<in> set (cells st)" "(u, v) \<noteq> (a, b)" by auto
        then show "(case x of (x, y) \<Rightarrow> IsOpen st' x y) \<longleftrightarrow> (case x of (x, y) \<Rightarrow> IsOpen st x y) \<or> x = (b, a)"
          by (auto simp: uv io)
      qed
      then show ?thesis by (simp add: open_passages_def ge)
    qed
  qed
  from st' p cnt show ?thesis by blast
qed



lemma Neighbors_mem:
  "n \<in> set (Neighbors st r c) \<longleftrightarrow>
     (0 \<le> r - 1 \<and> n = (r - 1, c)) \<or> (c + 1 < num_columns st \<and> n = (r, c + 1)) \<or>
     (r + 1 < num_rows st \<and> n = (r + 1, c)) \<or> (0 \<le> c - 1 \<and> n = (r, c - 1))"
  by (auto simp: Neighbors_def)

lemma Neighbors_iff:
  assumes "grid_ok side st" "(r, c) \<in> set (cells st)"
  shows "n \<in> set (Neighbors st r c) \<longleftrightarrow> n \<in> set (cells st) \<and> adjacent (r, c) n"
proof -
  have nr: "num_rows st = side" "num_columns st = side" using assms(1) by (simp_all add: grid_ok_def)
  obtain r' c' where n: "n = (r', c')" by (metis surj_pair)
  from assms(2) have bnd: "0 \<le> r" "r < side" "0 \<le> c" "c < side"
    by (auto simp: grid_ok_in_cells[OF assms(1)])
  show ?thesis
    unfolding n grid_ok_in_cells[OF assms(1)] Neighbors_mem nr adjacent_def prod.inject fst_conv snd_conv
    using bnd by presburger
qed

lemma Neighbors_distinct: "distinct (Neighbors st r c)"
  by (simp add: Neighbors_def)

lemma int_interval_induct:
  fixes i0 :: int
  assumes base: "P i0"
    and up: "\<And>i. i0 \<le> i \<Longrightarrow> i < hi \<Longrightarrow> P i \<Longrightarrow> P (i + 1)"
    and down: "\<And>i. lo < i \<Longrightarrow> i \<le> i0 \<Longrightarrow> P i \<Longrightarrow> P (i - 1)"
    and i: "lo \<le> i" "i \<le> hi"
  shows "P i"
proof (cases "i0 \<le> i")
  case True
  then have "i \<le> hi \<longrightarrow> P i"
  proof (induction i rule: int_ge_induct)
    case base
    show ?case using assms(1) by simp
  next
    case (step j)
    then show ?case using up[of j] by auto
  qed
  with i show ?thesis by simp
next
  case False
  then have "i \<le> i0" by simp
  then have "lo \<le> i \<longrightarrow> P i"
  proof (induction i rule: int_le_induct)
    case base
    show ?case using assms(1) by simp
  next
    case (step j)
    then show ?case using down[of j] by auto
  qed
  with i show ?thesis by simp
qed

lemma grid_closed_all:
  assumes ok: "grid_ok side st" and sub: "S \<subseteq> set (cells st)" and s0: "s0 \<in> S"
    and closed: "\<And>a b. a \<in> S \<Longrightarrow> b \<in> set (cells st) \<Longrightarrow> adjacent a b \<Longrightarrow> b \<in> S"
  shows "S = set (cells st)"
proof -
  obtain r0 c0 where s0': "s0 = (r0, c0)" by (metis surj_pair)
  from s0 sub s0' have b0: "0 \<le> r0" "r0 < side" "0 \<le> c0" "c0 < side"
    by (auto simp: grid_ok_in_cells[OF ok])
  have col: "(r, c0) \<in> S" if r: "0 \<le> r" "r \<le> side - 1" for r
  proof (rule int_interval_induct[where P = "\<lambda>r. (r, c0) \<in> S" and ?i0.0 = r0 and lo = 0 and hi = "side - 1"])
    show "(r0, c0) \<in> S" using s0 s0' by simp
    show "(i + 1, c0) \<in> S" if "r0 \<le> i" "i < side - 1" "(i, c0) \<in> S" for i
      by (rule closed[of "(i, c0)"]) (use that b0 in \<open>simp_all add: grid_ok_in_cells[OF ok] adjacent_def\<close>)
    show "(i - 1, c0) \<in> S" if "0 < i" "i \<le> r0" "(i, c0) \<in> S" for i
      by (rule closed[of "(i, c0)"]) (use that b0 in \<open>simp_all add: grid_ok_in_cells[OF ok] adjacent_def\<close>)
  qed (use r in auto)
  have all: "(r, c) \<in> S" if r: "0 \<le> r" "r \<le> side - 1" and c: "0 \<le> c" "c \<le> side - 1" for r c
  proof (rule int_interval_induct[where P = "\<lambda>c. (r, c) \<in> S" and ?i0.0 = c0 and lo = 0 and hi = "side - 1"])
    show "(r, c0) \<in> S" using col[OF r] .
    show "(r, i + 1) \<in> S" if "c0 \<le> i" "i < side - 1" "(r, i) \<in> S" for i
      by (rule closed[of "(r, i)"]) (use that b0 r in \<open>simp_all add: grid_ok_in_cells[OF ok] adjacent_def\<close>)
    show "(r, i - 1) \<in> S" if "0 < i" "i \<le> c0" "(r, i) \<in> S" for i
      by (rule closed[of "(r, i)"]) (use that b0 r in \<open>simp_all add: grid_ok_in_cells[OF ok] adjacent_def\<close>)
  qed (use c in auto)
  show ?thesis
  proof
    show "S \<subseteq> set (cells st)" by (rule sub)
    show "set (cells st) \<subseteq> S"
    proof
      fix x assume x: "x \<in> set (cells st)"
      obtain r c where xx: "x = (r, c)" by (metis surj_pair)
      from x show "x \<in> S" unfolding xx grid_ok_in_cells[OF ok] by (intro all) auto
    qed
  qed
qed


section \<open>Growing a tree of visited cells\<close>


definition tree_inv :: "int \<Rightarrow> maze \<Rightarrow> bool" where
  "tree_inv side st \<longleftrightarrow>
     grid_ok side st \<and> visited_cells st \<noteq> {} \<and> sym (passages st) \<and>
     passages st \<subseteq> visited_cells st \<times> visited_cells st \<and>
     (\<forall>a\<in>visited_cells st. \<forall>b\<in>visited_cells st. (a, b) \<in> (passages st)\<^sup>*) \<and>
     length (open_passages st) + 1 = card (visited_cells st)"

lemma ConnectedNeighbors_update [simp]:
  "ConnectedNeighbors (st\<lparr>visited := v\<rparr>) = ConnectedNeighbors st"
  "ConnectedNeighbors (st\<lparr>frontier := fr\<rparr>) = ConnectedNeighbors st"
  "ConnectedNeighbors (st\<lparr>random_calls := n\<rparr>) = ConnectedNeighbors st"
  by (simp_all add: ConnectedNeighbors_def getElementById_def fun_eq_iff cong: option.case_cong)

lemma IsOpen_update [simp]:
  "IsOpen (st\<lparr>visited := v\<rparr>) = IsOpen st"
  "IsOpen (st\<lparr>frontier := fr\<rparr>) = IsOpen st"
  "IsOpen (st\<lparr>random_calls := n\<rparr>) = IsOpen st"
  by (simp_all add: IsOpen_def fun_eq_iff)

lemma passages_update [simp]:
  "passages (st\<lparr>visited := v\<rparr>) = passages st"
  "passages (st\<lparr>frontier := fr\<rparr>) = passages st"
  "passages (st\<lparr>random_calls := n\<rparr>) = passages st"
  by (simp_all add: passages_def)

lemma open_passages_update [simp]:
  "open_passages (st\<lparr>visited := v\<rparr>) = open_passages st"
  "open_passages (st\<lparr>frontier := fr\<rparr>) = open_passages st"
  "open_passages (st\<lparr>random_calls := n\<rparr>) = open_passages st"
  by (simp_all add: open_passages_def GetAllEdges_def)

lemma visited_cells_update [simp]:
  "visited_cells (st\<lparr>frontier := fr\<rparr>) = visited_cells st"
  "visited_cells (st\<lparr>random_calls := n\<rparr>) = visited_cells st"
  by (simp_all add: visited_cells_def)

lemma visited_cells_subset: "visited_cells st \<subseteq> set (cells st)"
  by (auto simp: visited_cells_def)

lemma visited_cells_finite: "finite (visited_cells st)"
  by (rule finite_subset[OF visited_cells_subset]) simp

lemma visited_cells_mark:
  assumes "grid_ok side st" "n \<in> set (cells st)"
  shows "visited_cells (st\<lparr>visited := (visited st)(FindCellIndex n (cells st) := True)\<rparr>)
       = insert n (visited_cells st)"
  using assms grid_ok_index_inj[OF assms(1) _ assms(2)]
  by (auto simp: visited_cells_def)

lemma visited_cells_cong:
  "cells st' = cells st \<Longrightarrow> visited st' = visited st \<Longrightarrow> visited_cells st' = visited_cells st"
  by (simp add: visited_cells_def)

lemma tree_inv_same:
  assumes "tree_inv side st" "grid_ok side st'" "passages st' = passages st"
    "open_passages st' = open_passages st" "visited_cells st' = visited_cells st"
  shows "tree_inv side st'"
  using assms by (simp add: tree_inv_def)

lemma tree_inv_grow:
  assumes t: "tree_inv side st" and c: "c \<in> visited_cells st"
    and n: "n \<notin> visited_cells st"
    and ok': "grid_ok side st'"
    and p: "passages st' = passages st \<union> {(n, c), (c, n)}"
    and l: "length (open_passages st') = length (open_passages st) + 1"
    and v: "visited_cells st' = insert n (visited_cells st)"
  shows "tree_inv side st'"
proof -
  let ?V = "visited_cells st" and ?P = "passages st"
  from t have sub: "?P \<subseteq> ?V \<times> ?V" and conn: "\<And>a b. a \<in> ?V \<Longrightarrow> b \<in> ?V \<Longrightarrow> (a, b) \<in> ?P\<^sup>*"
    and cnt: "length (open_passages st) + 1 = card ?V"
    by (auto simp: tree_inv_def)
  have mono: "?P\<^sup>* \<subseteq> (passages st')\<^sup>*" by (rule rtrancl_mono) (auto simp: p)
  have nc: "(n, c) \<in> (passages st')\<^sup>*" "(c, n) \<in> (passages st')\<^sup>*" by (auto simp: p)
  have conn': "(a, b) \<in> (passages st')\<^sup>*" if "a \<in> insert n ?V" "b \<in> insert n ?V" for a b
  proof -
    have ac: "(a, c) \<in> (passages st')\<^sup>*"
    proof (cases "a = n")
      case True
      then show ?thesis using nc by simp
    next
      case False
      with that(1) have "a \<in> ?V" by simp
      from conn[OF this c] mono show ?thesis by blast
    qed
    have cb: "(c, b) \<in> (passages st')\<^sup>*"
    proof (cases "b = n")
      case True
      then show ?thesis using nc by simp
    next
      case False
      with that(2) have "b \<in> ?V" by simp
      from conn[OF c this] mono show ?thesis by blast
    qed
    from ac cb show ?thesis by (rule rtrancl_trans)
  qed
  have "card (insert n ?V) = card ?V + 1" using n visited_cells_finite[of st] by simp
  with cnt l have cnt': "length (open_passages st') + 1 = card (visited_cells st')" by (simp add: v)
  have "passages st' \<subseteq> visited_cells st' \<times> visited_cells st'" using sub c by (auto simp: p v)
  moreover have "sym (passages st')" using t by (auto simp: tree_inv_def p sym_def)
  ultimately show ?thesis using conn' cnt' ok' by (auto simp: tree_inv_def v)
qed

lemma grid_ok_distinct_cells: "grid_ok side st \<Longrightarrow> distinct (cells st)"
  using distinct_cells[of st side] by (simp add: grid_ok_cells)

lemma tree_inv_spanning:
  assumes "tree_inv side st" "visited_cells st = set (cells st)"
  shows "spanning_tree st"
proof -
  have "grid_ok side st" using assms(1) by (simp add: tree_inv_def)
  then have "card (set (cells st)) = length (cells st)"
    by (intro distinct_card grid_ok_distinct_cells)
  with assms show ?thesis by (auto simp: tree_inv_def spanning_tree_def)
qed

text \<open>A set of visited cells whose members have only visited neighbours is the whole grid.\<close>

lemma visited_closed_all:
  assumes ok: "grid_ok side st" and ne: "visited_cells st \<noteq> {}"
    and closed: "\<And>a b. a \<in> visited_cells st \<Longrightarrow> b \<in> set (Neighbors st (fst a) (snd a)) \<Longrightarrow> b \<in> visited_cells st"
  shows "visited_cells st = set (cells st)"
proof -
  from ne obtain s0 where s0: "s0 \<in> visited_cells st" by auto
  show ?thesis
  proof (rule grid_closed_all[OF ok visited_cells_subset s0])
    fix a b assume a: "a \<in> visited_cells st" and b: "b \<in> set (cells st)" and adj: "adjacent a b"
    have "a \<in> set (cells st)" using a visited_cells_subset by auto
    then have "b \<in> set (Neighbors st (fst a) (snd a))"
      using Neighbors_iff[OF ok, of "fst a" "snd a" b] b adj by simp
    with a show "b \<in> visited_cells st" by (rule closed)
  qed
qed



text \<open>States that differ at most in the styles of the elements and have the same passages.\<close>

definition restyled :: "maze \<Rightarrow> maze \<Rightarrow> bool" where
  "restyled st st' \<longleftrightarrow>
     cells st' = cells st \<and> num_rows st' = num_rows st \<and> num_columns st' = num_columns st \<and>
     length (grid_items st') = length (grid_items st) \<and>
     visited st' = visited st \<and> frontier st' = frontier st \<and>
     math_random st' = math_random st \<and> random_calls st' = random_calls st \<and>
     passages st' = passages st \<and> open_passages st' = open_passages st"

lemma restyled_fields:
  assumes "restyled st st'"
  shows "cells st' = cells st" "num_rows st' = num_rows st" "num_columns st' = num_columns st"
    "visited st' = visited st" "frontier st' = frontier st"
    "math_random st' = math_random st" "random_calls st' = random_calls st"
    "passages st' = passages st" "open_passages st' = open_passages st"
    "grid_ok side st' = grid_ok side st" "valid_random st' = valid_random st"
    "visited_cells st' = visited_cells st" "Neighbors st' = Neighbors st"
    "unvisitedNeighbors st' = unvisitedNeighbors st"
  using assms
  by (simp_all add: restyled_def grid_ok_def valid_random_def visited_cells_def Neighbors_def
      unvisitedNeighbors_def fun_eq_iff)

lemma restyled_tree_inv: "restyled st st' \<Longrightarrow> tree_inv side st' = tree_inv side st"
  by (simp add: tree_inv_def restyled_fields)

lemma IsOpen_same_passages:
  assumes "grid_ok side st" "grid_ok side st'" "cells st' = cells st"
    "\<forall>x\<in>set (cells st). \<forall>y. IsOpen st' x y = IsOpen st x y"
  shows "passages st' = passages st" "open_passages st' = open_passages st"
proof -
  have "same_passages st st'" using assms by (simp add: same_passages_def grid_ok_def)
  from same_passages_eq[OF assms(1) this]
  show "passages st' = passages st" "open_passages st' = open_passages st" by simp_all
qed

lemma set_backgroundColor_restyled:
  assumes ok: "grid_ok side st" and a: "a \<in> set (cells st)"
  shows "\<exists>st'. set_backgroundColor st (FindCellIndex a (cells st)) colour = Inr st' \<and> restyled st st'"
proof -
  from set_backgroundColor_grid[OF ok a, of colour] obtain st' where
    s: "set_backgroundColor st (FindCellIndex a (cells st)) colour = Inr st'" "grid_ok side st'"
     "cells st' = cells st" "visited st' = visited st" "frontier st' = frontier st"
     "math_random st' = math_random st" "random_calls st' = random_calls st"
     "\<forall>x\<in>set (cells st). \<forall>y. IsOpen st' x y = IsOpen st x y" by blast
  from IsOpen_same_passages[OF ok s(2,3,8)] s ok
  have "restyled st st'" by (simp add: restyled_def grid_ok_def)
  with s(1) show ?thesis by blast
qed

lemma CreateEntranceAndExit_restyled:
  assumes ok: "grid_ok side st"
  shows "\<exists>st'. CreateEntranceAndExit st = Inr st' \<and> restyled st st'"
proof -
  from CreateEntranceAndExit_grid[OF ok] obtain st' where
    s: "CreateEntranceAndExit st = Inr st'" "grid_ok side st'"
     "cells st' = cells st" "visited st' = visited st" "frontier st' = frontier st"
     "math_random st' = math_random st" "random_calls st' = random_calls st"
     "\<forall>x\<in>set (cells st). \<forall>y. IsOpen st' x y = IsOpen st x y" by blast
  from IsOpen_same_passages[OF ok s(2,3,8)] s ok
  have "restyled st st'" by (simp add: restyled_def grid_ok_def)
  with s(1) show ?thesis by blast
qed

lemma random_index_pick:
  assumes "valid_random st" "xs \<noteq> []"
  shows "\<exists>x. js_nth xs (fst (random_index st (int (length xs)))) = Some x \<and> x \<in> set xs"
proof -
  have "0 < int (length xs)" using assms(2) by simp
  from random_index_range[OF assms(1) this]
  show ?thesis by (simp add: js_nth_def nat_less_iff)
qed

lemma random_index_snd: "snd (random_index st n) = st\<lparr>random_calls := Suc (random_calls st)\<rparr>"
  by (simp add: random_index_def)

lemma valid_random_update [simp]:
  "valid_random (st\<lparr>random_calls := n\<rparr>) = valid_random st"
  "valid_random (st\<lparr>visited := v\<rparr>) = valid_random st"
  "valid_random (st\<lparr>frontier := fr\<rparr>) = valid_random st"
  by (simp_all add: valid_random_def)

lemma Neighbors_update [simp]:
  "Neighbors (st\<lparr>random_calls := n\<rparr>) = Neighbors st"
  "Neighbors (st\<lparr>visited := v\<rparr>) = Neighbors st"
  "Neighbors (st\<lparr>frontier := fr\<rparr>) = Neighbors st"
  by (simp_all add: Neighbors_def fun_eq_iff)

text \<open>Carving a passage from an unvisited cell to a visited neighbour and marking it visited.\<close>

lemma carve_and_visit:
  assumes t: "tree_inv side st" and c: "c \<in> visited_cells st"
    and n: "n \<in> set (cells st)" "n \<notin> visited_cells st" and adj: "adjacent n c"
  shows "\<exists>st1. CutEdge st n c = Inr st1 \<and> grid_ok side st1 \<and> cells st1 = cells st \<and>
      num_rows st1 = num_rows st \<and> num_columns st1 = num_columns st \<and>
      visited st1 = visited st \<and> frontier st1 = frontier st \<and>
      math_random st1 = math_random st \<and> random_calls st1 = random_calls st \<and>
      (\<forall>st'. grid_ok side st' \<longrightarrow> passages st' = passages st1 \<longrightarrow>
         open_passages st' = open_passages st1 \<longrightarrow>
         visited_cells st' = insert n (visited_cells st) \<longrightarrow> tree_inv side st')"
proof -
  from t have ok: "grid_ok side st" and sub: "passages st \<subseteq> visited_cells st \<times> visited_cells st"
    by (auto simp: tree_inv_def)
  have c': "c \<in> set (cells st)" using c visited_cells_subset by auto
  from CutEdge_passages[OF ok n(1) c' adj] obtain st1 where
    s: "CutEdge st n c = Inr st1" "grid_ok side st1" "cells st1 = cells st"
      "visited st1 = visited st" "frontier st1 = frontier st"
      "math_random st1 = math_random st" "random_calls st1 = random_calls st"
      "passages st1 = passages st \<union> {(n, c), (c, n)}"
      "\<not> IsOpen st n c \<and> \<not> IsOpen st c n \<longrightarrow> length (open_passages st1) = length (open_passages st) + 1"
    by blast
  have "(n, c) \<notin> passages st" "(c, n) \<notin> passages st" using sub n(2) by auto
  then have "\<not> IsOpen st n c" "\<not> IsOpen st c n" using n(1) c' by (auto simp: passages_def)
  with s(9) have l: "length (open_passages st1) = length (open_passages st) + 1" by simp
  have nr: "num_rows st1 = num_rows st" "num_columns st1 = num_columns st"
    using ok s(2) by (simp_all add: grid_ok_def)
  have "tree_inv side st'" if "grid_ok side st'" "passages st' = passages st1"
    "open_passages st' = open_passages st1" "visited_cells st' = insert n (visited_cells st)" for st'
    by (rule tree_inv_grow[OF t c n(2) that(1) _ _ that(4)]) (simp_all add: that s(8) l)
  with s nr show ?thesis by blast
qed

definition RB_inv :: "int \<Rightarrow> maze \<Rightarrow> cell list \<Rightarrow> bool" where
  "RB_inv side st path \<longleftrightarrow>
     tree_inv side st \<and> valid_random st \<and> set path \<subseteq> visited_cells st \<and>
     (\<forall>a\<in>visited_cells st - set path. \<forall>b\<in>set (Neighbors st (fst a) (snd a)). b \<in> visited_cells st)"

lemma RecursiveBacktrack_body_inv:
  assumes inv: "RB_inv side st path" and ne: "path \<noteq> []"
  shows "\<exists>st' path'. RecursiveBacktrack_body st path = Inr (st', path') \<and> RB_inv side st' path'"
proof -
  let ?cur = "last path"
  from inv have t: "tree_inv side st" and vr: "valid_random st" and sub: "set path \<subseteq> visited_cells st"
    and closed: "\<And>a b. a \<in> visited_cells st \<Longrightarrow> a \<notin> set path \<Longrightarrow>
        b \<in> set (Neighbors st (fst a) (snd a)) \<Longrightarrow> b \<in> visited_cells st"
    by (auto simp: RB_inv_def)
  from t have ok: "grid_ok side st" by (simp add: tree_inv_def)
  have curV: "?cur \<in> visited_cells st" using ne sub by auto
  then have cur: "?cur \<in> set (cells st)" using visited_cells_subset by auto
  from set_backgroundColor_restyled[OF ok cur] obtain st1 where
    bg: "set_backgroundColor st (FindCellIndex ?cur (cells st)) ''rgb(255, 200, 200)'' = Inr st1"
    and r1: "restyled st st1" by blast
  note f1 = restyled_fields[OF r1]
  have t1: "tree_inv side st1" using t by (simp add: restyled_tree_inv[OF r1])
  have ok1: "grid_ok side st1" using ok by (simp add: f1)
  show ?thesis
  proof (cases "unvisitedNeighbors st1 ?cur = []")
    case False
    let ?uns = "unvisitedNeighbors st1 ?cur"
    obtain i st2 where ri: "random_index st1 (int (length ?uns)) = (i, st2)" by fastforce
    have vr1: "valid_random st1" using vr by (simp add: f1)
    from random_index_pick[OF vr1 False] ri obtain n where
      nth: "js_nth ?uns i = Some n" and nin: "n \<in> set ?uns" by auto
    have st2: "st2 = st1\<lparr>random_calls := Suc (random_calls st1)\<rparr>"
      using ri random_index_snd[of st1 "int (length ?uns)"] by simp
    from unvisitedNeighbors_D[OF nin]
    have nb: "n \<in> set (Neighbors st (fst ?cur) (snd ?cur))"
      and nv: "\<not> visited st (FindCellIndex n (cells st))" by (simp_all add: f1)
    from nb Neighbors_iff[OF ok, of "fst ?cur" "snd ?cur" n] cur
    have n: "n \<in> set (cells st)" and adj: "adjacent n ?cur" by (auto intro: adjacent_sym)
    have nV: "n \<notin> visited_cells st" using nv by (simp add: visited_cells_def)
    have t2: "tree_inv side st2" using t1 by (simp add: st2 tree_inv_def visited_cells_def)
    have V2: "visited_cells st2 = visited_cells st" by (simp add: st2 f1)
    have c2: "cells st2 = cells st" by (simp add: st2 f1)
    from carve_and_visit[OF t2, of ?cur n] curV n nV adj V2 c2 obtain st3 where
      cut: "CutEdge st2 n ?cur = Inr st3" and ok3: "grid_ok side st3" and c3: "cells st3 = cells st"
      and v3: "visited st3 = visited st" and mr3: "math_random st3 = math_random st"
      and nr3: "num_rows st3 = num_rows st" "num_columns st3 = num_columns st"
      and grow: "\<And>st'. grid_ok side st' \<Longrightarrow> passages st' = passages st3 \<Longrightarrow>
         open_passages st' = open_passages st3 \<Longrightarrow>
         visited_cells st' = insert n (visited_cells st) \<Longrightarrow> tree_inv side st'"
      by (auto simp: st2 f1)
    let ?st' = "st3\<lparr>visited := (visited st3)(FindCellIndex n (cells st3) := True)\<rparr>"
    have V': "visited_cells ?st' = insert n (visited_cells st)"
      using visited_cells_mark[OF ok3, of n] n c3
        visited_cells_cong[of st3 st] v3 by simp
    have t': "tree_inv side ?st'" by (rule grow) (simp_all add: ok3 V')
    have nb': "Neighbors ?st' = Neighbors st" by (simp add: Neighbors_def fun_eq_iff nr3)
    have "RB_inv side ?st' (path @ [n])"
      unfolding RB_inv_def V' nb' using t' vr mr3 sub closed
      by (auto simp: valid_random_def)
    moreover have "RecursiveBacktrack_body st path = Inr (?st', path @ [n])"
      using bg False ri nth cut by (simp add: RecursiveBacktrack_body_def Let_def f1)
    ultimately show ?thesis by blast
  next
    case True
    have cur1: "?cur \<in> set (cells st1)" using cur by (simp add: f1)
    from set_backgroundColor_restyled[OF ok1 cur1] obtain st2 where
      bg2: "set_backgroundColor st1 (FindCellIndex ?cur (cells st1)) ''rgb(255, 240, 240)'' = Inr st2"
      and r2: "restyled st1 st2" by blast
    note f2 = restyled_fields[OF r2]
    have allv: "b \<in> visited_cells st" if "b \<in> set (Neighbors st (fst ?cur) (snd ?cur))" for b
    proof -
      from that Neighbors_iff[OF ok, of "fst ?cur" "snd ?cur" b] cur have "b \<in> set (cells st)" by simp
      moreover have "visited st (FindCellIndex b (cells st))"
        using True that by (auto simp: unvisitedNeighbors_def f1 filter_empty_conv)
      ultimately show ?thesis by (simp add: visited_cells_def)
    qed
    have "RB_inv side st2 (butlast path)"
      unfolding RB_inv_def f2 f1 restyled_tree_inv[OF r2] restyled_tree_inv[OF r1]
    proof (intro conjI ballI)
      show "tree_inv side st" by (rule t)
      show "valid_random st" by (rule vr)
      show "set (butlast path) \<subseteq> visited_cells st" using sub by (auto dest: in_set_butlastD)
      fix a b assume a: "a \<in> visited_cells st - set (butlast path)"
        and b: "b \<in> set (Neighbors st (fst a) (snd a))"
      show "b \<in> visited_cells st"
      proof (cases "a \<in> set path")
        case False
        with a b show ?thesis by (auto intro: closed[of a b])
      next
        case True
        have "set path = insert ?cur (set (butlast path))"
          using ne by (metis append_butlast_last_id list.simps(15) rotate1.simps(2) set_rotate1)
        with True a have "a = ?cur" by auto
        with b show ?thesis using allv by simp
      qed
    qed
    moreover have "RecursiveBacktrack_body st path = Inr (st2, butlast path)"
      using bg True bg2 by (simp add: RecursiveBacktrack_body_def Let_def)
    ultimately show ?thesis by blast
  qed
qed

lemma RecursiveBacktrack_tree:
  "RB_inv side st path \<Longrightarrow>
     \<exists>st'. RecursiveBacktrack st path = Inr st' \<and> tree_inv side st' \<and>
        visited_cells st' = set (cells st') \<and> valid_random st'"
proof (induction st path rule: RecursiveBacktrack.induct)
  case (1 st path)
  show ?case
  proof (cases "path = []")
    case True
    from "1.prems" have t: "tree_inv side st" and vr: "valid_random st"
      and closed: "\<And>a b. a \<in> visited_cells st \<Longrightarrow> b \<in> set (Neighbors st (fst a) (snd a)) \<Longrightarrow> b \<in> visited_cells st"
      by (auto simp: RB_inv_def True)
    have "visited_cells st = set (cells st)"
    proof (rule visited_closed_all[of side])
      show "grid_ok side st" "visited_cells st \<noteq> {}" using t by (simp_all add: tree_inv_def)
    qed (rule closed)
    with t vr True show ?thesis by (simp add: RecursiveBacktrack.simps[of st path])
  next
    case False
    from RecursiveBacktrack_body_inv[OF "1.prems" False] obtain st' path' where
      b: "RecursiveBacktrack_body st path = Inr (st', path')" and inv': "RB_inv side st' path'" by blast
    from False have l: "0 < length path" by simp
    from "1.IH"[OF l b refl inv'] l b show ?thesis
      by (simp add: RecursiveBacktrack.simps[of st path])
  qed
qed



lemma new_grid_passages:
  assumes "1 \<le> side"
  shows "passages (GenerateGrid_side st side) = {}" "open_passages (GenerateGrid_side st side) = []"
proof -
  note ok = grid_ok_GenerateGrid_side[OF assms, of st]
  show "passages (GenerateGrid_side st side) = {}"
    using IsOpen_new_grid[OF assms] by (auto simp: passages_def)
  show "open_passages (GenerateGrid_side st side) = []"
    unfolding open_passages_def filter_empty_conv
    using IsOpen_new_grid[OF assms] GetAllEdges_grid(1)[OF ok] by auto
qed

lemma GenerateMaze_start_tree:
  assumes v: "valid_random st0" and s: "1 \<le> side"
    and gs: "GenerateMaze_start (GenerateGrid_side st0 side) = (startRow, startColumn, st3)"
  shows "tree_inv side st3" "visited_cells st3 = {(startRow, startColumn)}" "valid_random st3"
    "(startRow, startColumn) \<in> set (cells st3)" "frontier st3 = frontier st0"
proof -
  let ?g = "GenerateGrid_side st0 side"
  have ok: "grid_ok side ?g" by (rule grid_ok_GenerateGrid_side[OF s])
  have vg: "valid_random ?g" using v by (simp add: valid_random_def GenerateGrid_side_def)
  note g = GenerateMaze_start_grid[OF vg ok gs]
  show "valid_random st3" by (rule g(3))
  show c: "(startRow, startColumn) \<in> set (cells st3)" using g(1) g(7) by simp
  show "frontier st3 = frontier st0" using g(5) by (simp add: GenerateGrid_side_def)
  have ok3: "grid_ok side st3" by (rule g(2))
  have nr: "num_rows st3 = num_rows ?g" "num_columns st3 = num_columns ?g"
    using ok ok3 by (simp_all add: grid_ok_def)
  have io: "IsOpen st3 = IsOpen ?g"
    by (simp add: IsOpen_def ConnectedNeighbors_def getElementById_def fun_eq_iff g nr
        cong: option.case_cong)
  have p: "passages st3 = {}" using new_grid_passages(1)[OF s, of st0]
    by (simp add: passages_def io g)
  have op: "open_passages st3 = []" using new_grid_passages(2)[OF s, of st0]
    by (simp add: open_passages_def io GetAllEdges_def nr)
  have i: "FindCellIndex (startRow, startColumn) (cells st3) = startRow * side + startColumn"
    using grid_ok_index(1)[OF ok3 c] .
  show V: "visited_cells st3 = {(startRow, startColumn)}"
  proof -
    have "visited st3 = (\<lambda>j. False)(FindCellIndex (startRow, startColumn) (cells st3) := True)"
      using g(4) i by (simp add: GenerateGrid_side_def)
    then have "visited_cells st3 = {x \<in> set (cells st3).
        FindCellIndex x (cells st3) = FindCellIndex (startRow, startColumn) (cells st3)}"
      by (auto simp: visited_cells_def)
    also have "\<dots> = {(startRow, startColumn)}"
      using c grid_ok_index_inj[OF ok3 _ c] by auto
    finally show ?thesis .
  qed
  show "tree_inv side st3" by (simp add: tree_inv_def ok3 V p op sym_def)
qed

lemma restyled_refl: "restyled st st"
  by (simp add: restyled_def)

lemma restyled_trans: "restyled st st1 \<Longrightarrow> restyled st1 st2 \<Longrightarrow> restyled st st2"
  by (simp add: restyled_def)

lemma restyled_frontier:
  "restyled st st' \<Longrightarrow> restyled (st\<lparr>frontier := fr\<rparr>) (st'\<lparr>frontier := fr\<rparr>)"
  by (simp add: restyled_def)

lemma Prims_start_frontier_restyled:
  assumes "grid_ok side st" "set ns \<subseteq> set (cells st)"
  shows "\<exists>st'. Prims_start_frontier st ns = Inr st' \<and> restyled (st\<lparr>frontier := frontier st @ ns\<rparr>) st'"
  using assms
proof (induction ns arbitrary: st)
  case Nil
  then show ?case by (simp add: restyled_def)
next
  case (Cons n ns)
  from Cons.prems have n: "n \<in> set (cells st)" by simp
  from set_backgroundColor_restyled[OF Cons.prems(1) n] obtain st1 where
    bg: "set_backgroundColor st (FindCellIndex n (cells st)) ''rgb(255, 200, 200)'' = Inr st1"
    and r1: "restyled st st1" by blast
  note f1 = restyled_fields[OF r1]
  let ?st2 = "st1\<lparr>frontier := frontier st1 @ [n]\<rparr>"
  have ok2: "grid_ok side ?st2" using Cons.prems(1) by (simp add: f1)
  have "set ns \<subseteq> set (cells ?st2)" using Cons.prems(2) by (simp add: f1)
  from Cons.IH[OF ok2 this] obtain st' where
    ih: "Prims_start_frontier ?st2 ns = Inr st'" "restyled (?st2\<lparr>frontier := frontier ?st2 @ ns\<rparr>) st'"
    by blast
  have "restyled (st\<lparr>frontier := frontier st @ n # ns\<rparr>) (?st2\<lparr>frontier := frontier ?st2 @ ns\<rparr>)"
    using restyled_frontier[OF r1, of "frontier st @ n # ns"] by (simp add: f1)
  from this ih(2) have "restyled (st\<lparr>frontier := frontier st @ n # ns\<rparr>) st'" by (rule restyled_trans)
  with bg ih(1) show ?case by (simp add: Let_def)
qed

lemma FindCellIndex_neg_iff: "FindCellIndex x xs < 0 \<longleftrightarrow> x \<notin> set xs"
  using FindCellIndex_from_notin[of x xs 0] FindCellIndex_from_in[of x xs 0]
  by (auto simp: FindCellIndex_def)

text \<open>The frontier after the last loop of an iteration.\<close>

fun grown :: "maze \<Rightarrow> cell list \<Rightarrow> cell list \<Rightarrow> cell list" where
  "grown st fr [] = fr"
| "grown st fr (n # ns) =
     (if \<not> visited st (FindCellIndex n (cells st)) \<and> n \<notin> set fr then grown st (fr @ [n]) ns
      else grown st fr ns)"

lemma grown_set:
  "set (grown st fr ns) = set fr \<union> {n \<in> set ns. \<not> visited st (FindCellIndex n (cells st))}"
  by (induction ns arbitrary: fr) auto

lemma grown_distinct: "distinct fr \<Longrightarrow> distinct (grown st fr ns)"
  by (induction ns arbitrary: fr) auto

lemma Prims_grow_frontier_restyled:
  assumes "grid_ok side st" "set ns \<subseteq> set (cells st)"
  shows "\<exists>st'. Prims_grow_frontier st ns = Inr st' \<and>
     restyled (st\<lparr>frontier := grown st (frontier st) ns\<rparr>) st'"
  using assms
proof (induction ns arbitrary: st)
  case Nil
  then show ?case by (simp add: restyled_def)
next
  case (Cons n ns)
  from Cons.prems have n: "n \<in> set (cells st)" and ns: "set ns \<subseteq> set (cells st)" by simp_all
  show ?case
  proof (cases "\<not> visited st (FindCellIndex n (cells st)) \<and> n \<notin> set (frontier st)")
    case False
    from Cons.IH[OF Cons.prems(1) ns] False show ?thesis
      by (auto simp: FindCellIndex_neg_iff)
  next
    case True
    let ?st1 = "st\<lparr>frontier := frontier st @ [n]\<rparr>"
    have ok1: "grid_ok side ?st1" using Cons.prems(1) by simp
    have n1: "n \<in> set (cells ?st1)" using n by simp
    from set_backgroundColor_restyled[OF ok1 n1] obtain st2 where
      bg: "set_backgroundColor ?st1 (FindCellIndex n (cells ?st1)) ''rgb(255, 200, 200)'' = Inr st2"
      and r2: "restyled ?st1 st2" by blast
    note f2 = restyled_fields[OF r2]
    have ok2: "grid_ok side st2" using ok1 by (simp add: f2)
    have "set ns \<subseteq> set (cells st2)" using ns by (simp add: f2)
    from Cons.IH[OF ok2 this] obtain st' where
      ih: "Prims_grow_frontier st2 ns = Inr st'"
        "restyled (st2\<lparr>frontier := grown st2 (frontier st2) ns\<rparr>) st'" by blast
    have g: "grown st2 (frontier st2) ns = grown st (frontier st @ [n]) ns"
    proof -
      have "grown st2 fr ns = grown st fr ns" for fr
        by (induction ns arbitrary: fr) (simp_all add: f2)
      then show ?thesis by (simp add: f2)
    qed
    have "restyled (st\<lparr>frontier := grown st (frontier st) (n # ns)\<rparr>)
        (st2\<lparr>frontier := grown st2 (frontier st2) ns\<rparr>)"
      using restyled_frontier[OF r2, of "grown st (frontier st @ [n]) ns"] True by (simp add: g)
    from this ih(2) have "restyled (st\<lparr>frontier := grown st (frontier st) (n # ns)\<rparr>) st'"
      by (rule restyled_trans)
    with bg ih(1) True show ?thesis by (simp add: Let_def FindCellIndex_neg_iff)
  qed
qed


section \<open>The invariant of Prim's algorithm\<close>


definition Prims_inv :: "int \<Rightarrow> maze \<Rightarrow> bool" where
  "Prims_inv side st \<longleftrightarrow>
     tree_inv side st \<and> valid_random st \<and> distinct (frontier st) \<and>
     set (frontier st) \<subseteq> set (cells st) - visited_cells st \<and>
     (\<forall>f\<in>set (frontier st). \<exists>v\<in>visited_cells st. adjacent f v) \<and>
     (\<forall>v\<in>visited_cells st. \<forall>n\<in>set (cells st). adjacent v n \<longrightarrow> n \<notin> visited_cells st \<longrightarrow>
        n \<in> set (frontier st))"

lemma splice_one_nth:
  assumes "distinct xs" "i < length xs"
  shows "set (splice_one xs (int i)) = set xs - {xs ! i}" "distinct (splice_one xs (int i))"
proof -
  have s: "splice_one xs (int i) = take i xs @ drop (Suc i) xs"
    using assms(2) by (simp add: splice_one_def Let_def min_def)
  have xs: "xs = take i xs @ xs ! i # drop (Suc i) xs"
    using assms(2) by (simp add: id_take_nth_drop)
  from assms(1) xs have d: "distinct (take i xs @ xs ! i # drop (Suc i) xs)" by simp
  then show "distinct (splice_one xs (int i))" by (simp add: s)
  from d have "xs ! i \<notin> set (take i xs)" "xs ! i \<notin> set (drop (Suc i) xs)" by auto
  moreover have "set xs = set (take i xs) \<union> {xs ! i} \<union> set (drop (Suc i) xs)"
    by (subst xs) auto
  ultimately show "set (splice_one xs (int i)) = set xs - {xs ! i}" by (auto simp: s)
qed

lemma visitedNeighbors_set:
  assumes "grid_ok side st" "a \<in> set (cells st)"
  shows "set (visitedNeighbors st (Neighbors st (fst a) (snd a))) = {v \<in> visited_cells st. adjacent a v}"
  using Neighbors_iff[OF assms(1), of "fst a" "snd a"] assms(2)
  by (auto simp: visitedNeighbors_def visited_cells_def)

lemma Prims_iteration_inv:
  assumes inv: "Prims_inv side st" and ne: "frontier st \<noteq> []"
  shows "\<exists>st'. Prims_iteration st = Inr st' \<and> Prims_inv side st' \<and>
     card (visited_cells st') = Suc (card (visited_cells st)) \<and> cells st' = cells st"
proof -
  let ?F = "frontier st" and ?V = "visited_cells st"
  from inv have t: "tree_inv side st" and vr: "valid_random st" and dF: "distinct ?F"
    and subF: "set ?F \<subseteq> set (cells st) - ?V"
    and hasv: "\<And>f. f \<in> set ?F \<Longrightarrow> \<exists>v\<in>?V. adjacent f v"
    and closed: "\<And>v n. v \<in> ?V \<Longrightarrow> n \<in> set (cells st) \<Longrightarrow> adjacent v n \<Longrightarrow> n \<notin> ?V \<Longrightarrow> n \<in> set ?F"
    by (auto simp: Prims_inv_def)
  from t have ok: "grid_ok side st" by (simp add: tree_inv_def)
  \<comment> \<open>the random frontier cell\<close>
  obtain i st1 where ri: "random_index st (int (length ?F)) = (i, st1)" by fastforce
  have st1: "st1 = st\<lparr>random_calls := Suc (random_calls st)\<rparr>"
    using ri random_index_snd[of st "int (length ?F)"] by simp
  have "0 < int (length ?F)" using ne by simp
  from random_index_range[OF vr this] ri have ir: "0 \<le> i" "i < int (length ?F)" by simp_all
  define rc where "rc = ?F ! nat i"
  have nth: "js_nth (frontier st1) i = Some rc" using ir by (simp add: js_nth_def st1 rc_def)
  have rcF: "rc \<in> set ?F" using ir by (simp add: rc_def nat_less_iff)
  then have rc: "rc \<in> set (cells st)" and rcV: "rc \<notin> ?V" using subF by auto
  have idx: "FindCellIndex rc (frontier st1) = i"
    using FindCellIndex_from_nth[OF dF, of "nat i" 0] ir
    by (simp add: FindCellIndex_def st1 rc_def nat_less_iff)
  define F' where "F' = splice_one ?F i"
  have F': "set F' = set ?F - {rc}" "distinct F'"
    using splice_one_nth[OF dF, of "nat i"] ir by (simp_all add: F'_def rc_def nat_less_iff)
  define st2 where "st2 = st1\<lparr>frontier := F'\<rparr>"
  let ?ns = "Neighbors st (fst rc) (snd rc)"
  let ?vns = "visitedNeighbors st ?ns"
  have vns: "set ?vns = {v \<in> ?V. adjacent rc v}" by (rule visitedNeighbors_set[OF ok rc])
  have vns2: "visitedNeighbors st2 (Neighbors st2 (fst rc) (snd rc)) = ?vns"
    by (simp add: st2_def st1 visitedNeighbors_def)
  have vne: "?vns \<noteq> []" using hasv[OF rcF] vns by auto
  \<comment> \<open>the random visited neighbour\<close>
  obtain j st3 where rj: "random_index st2 (int (length ?vns)) = (j, st3)" by fastforce
  have st3: "st3 = st2\<lparr>random_calls := Suc (random_calls st2)\<rparr>"
    using rj random_index_snd[of st2 "int (length ?vns)"] by simp
  have vr2: "valid_random st2" using vr by (simp add: st2_def st1)
  from random_index_pick[OF vr2 vne] rj obtain vn where
    nthv: "js_nth ?vns j = Some vn" and vnin: "vn \<in> set ?vns" by auto
  from vnin vns have vnV: "vn \<in> ?V" and adj: "adjacent rc vn" by auto
  \<comment> \<open>carving\<close>
  have t3: "tree_inv side st3" using t by (simp add: st3 st2_def st1 tree_inv_def visited_cells_def)
  have V3: "visited_cells st3 = ?V" by (simp add: st3 st2_def st1 visited_cells_def)
  have c3: "cells st3 = cells st" by (simp add: st3 st2_def st1)
  from carve_and_visit[OF t3, of vn rc] vnV rc rcV adj V3 c3 obtain st4 where
    cut: "CutEdge st3 rc vn = Inr st4" and ok4: "grid_ok side st4" and c4: "cells st4 = cells st"
    and v4: "visited st4 = visited st" and mr4: "math_random st4 = math_random st"
    and nr4: "num_rows st4 = num_rows st" "num_columns st4 = num_columns st"
    and fr4: "frontier st4 = F'"
    and grow: "\<And>st'. grid_ok side st' \<Longrightarrow> passages st' = passages st4 \<Longrightarrow>
         open_passages st' = open_passages st4 \<Longrightarrow>
         visited_cells st' = insert rc ?V \<Longrightarrow> tree_inv side st'"
    by (auto simp: st3 st2_def st1)
  have rc4: "rc \<in> set (cells st4)" using rc c4 by simp
  from set_backgroundColor_restyled[OF ok4 rc4] obtain st5 where
    bg: "set_backgroundColor st4 (FindCellIndex rc (cells st4)) ''rgb(255, 240, 240)'' = Inr st5"
    and r5: "restyled st4 st5" by blast
  note f5 = restyled_fields[OF r5]
  define st6 where "st6 = st5\<lparr>visited := (visited st5)(FindCellIndex rc (cells st5) := True)\<rparr>"
  have ok5: "grid_ok side st5" using ok4 by (simp add: f5)
  have ok6: "grid_ok side st6" using ok5 by (simp add: st6_def)
  have V6: "visited_cells st6 = insert rc ?V"
    unfolding st6_def using visited_cells_mark[OF ok5, of rc] rc
      visited_cells_cong[of st5 st] by (simp add: f5 c4 v4)
  have p6: "passages st6 = passages st4" "open_passages st6 = open_passages st4"
    by (simp_all add: st6_def f5)
  have t6: "tree_inv side st6" by (rule grow[OF ok6 p6 V6])
  have c6: "cells st6 = cells st" by (simp add: st6_def f5 c4)
  have fr6: "frontier st6 = F'" by (simp add: st6_def f5 fr4)
  have nb6: "Neighbors st6 = Neighbors st" by (simp add: Neighbors_def fun_eq_iff st6_def f5 nr4)
  have nsub: "set ?ns \<subseteq> set (cells st6)"
    using Neighbors_iff[OF ok, of "fst rc" "snd rc"] rc by (auto simp: c6)
  from Prims_grow_frontier_restyled[OF ok6 nsub] obtain st7 where
    gf: "Prims_grow_frontier st6 ?ns = Inr st7"
    and r7: "restyled (st6\<lparr>frontier := grown st6 (frontier st6) ?ns\<rparr>) st7" by blast
  note f7 = restyled_fields[OF r7]
  define F'' where "F'' = grown st6 F' ?ns"
  have F''set: "set F'' = set F' \<union> {n \<in> set (cells st). adjacent rc n \<and> n \<notin> insert rc ?V}"
  proof -
    have "{n \<in> set ?ns. \<not> visited st6 (FindCellIndex n (cells st6))}
        = {n \<in> set (cells st). adjacent rc n \<and> n \<notin> visited_cells st6}"
      using Neighbors_iff[OF ok, of "fst rc" "snd rc"] rc
      by (auto simp: visited_cells_def c6)
    then show ?thesis by (simp add: F''_def grown_set V6)
  qed
  have F''d: "distinct F''" unfolding F''_def by (rule grown_distinct[OF F'(2)])
  have fr7: "frontier st7 = F''" by (simp add: f7 F''_def fr6)
  have V7: "visited_cells st7 = insert rc ?V" by (simp add: f7 V6)
  have c7: "cells st7 = cells st" by (simp add: f7 c6)
  have t7: "tree_inv side st7"
    using t6 restyled_tree_inv[OF r7, of side] by (simp add: tree_inv_def visited_cells_def)
  have vr7: "valid_random st7" using vr mr4 by (simp add: f7 valid_random_def st6_def f5)
  have inv7: "Prims_inv side st7"
    unfolding Prims_inv_def fr7 V7 c7
  proof (intro conjI ballI impI)
    show "tree_inv side st7" by (rule t7)
    show "valid_random st7" by (rule vr7)
    show "distinct F''" by (rule F''d)
    show "set F'' \<subseteq> set (cells st) - insert rc ?V"
      using subF by (auto simp: F''set F'(1))
    show "\<exists>v\<in>insert rc ?V. adjacent f v" if "f \<in> set F''" for f
    proof (cases "f \<in> set F'")
      case True
      then have "f \<in> set ?F" by (simp add: F'(1))
      from hasv[OF this] show ?thesis by auto
    next
      case False
      with that have "adjacent rc f" by (simp add: F''set)
      then show ?thesis by (auto intro: adjacent_sym)
    qed
    show "n \<in> set F''" if "v \<in> insert rc ?V" "n \<in> set (cells st)" "adjacent v n" "n \<notin> insert rc ?V" for v n
    proof (cases "v = rc")
      case True
      with that show ?thesis by (simp add: F''set)
    next
      case False
      with that have "v \<in> ?V" "n \<notin> ?V" "n \<noteq> rc" by auto
      from closed[OF this(1) that(2,3) this(2)] this(3) show ?thesis by (simp add: F''set F'(1))
    qed
  qed
  have "Prims_iteration st = Inr st7"
    unfolding Prims_iteration_def ri
    using nth idx rj[unfolded vns2[symmetric]] nthv cut bg gf
    by (simp add: Let_def F'_def st2_def st1 vns2 st6_def nb6[symmetric] visitedNeighbors_def)
  moreover have "card (visited_cells st7) = Suc (card ?V)"
    using rcV visited_cells_finite[of st] by (simp add: V7)
  ultimately show ?thesis using inv7 c7 by blast
qed


lemma card_visited_le: "card (visited_cells st) \<le> length (cells st)"
proof -
  have "card (visited_cells st) \<le> card (set (cells st))"
    by (rule card_mono[OF _ visited_cells_subset]) simp
  also have "\<dots> \<le> length (cells st)" by (rule card_length)
  finally show ?thesis .
qed

lemma Prims_inv_final:
  assumes "Prims_inv side st" "frontier st = []"
  shows "visited_cells st = set (cells st)"
proof -
  from assms(1) have t: "tree_inv side st"
    and closed: "\<And>v n. v \<in> visited_cells st \<Longrightarrow> n \<in> set (cells st) \<Longrightarrow> adjacent v n \<Longrightarrow>
        n \<notin> visited_cells st \<Longrightarrow> n \<in> set (frontier st)"
    by (auto simp: Prims_inv_def)
  from t have ok: "grid_ok side st" and ne: "visited_cells st \<noteq> {}" by (simp_all add: tree_inv_def)
  show ?thesis
  proof (rule visited_closed_all[OF ok ne])
    fix a b assume a: "a \<in> visited_cells st" and b: "b \<in> set (Neighbors st (fst a) (snd a))"
    have "a \<in> set (cells st)" using a visited_cells_subset by auto
    with b Neighbors_iff[OF ok, of "fst a" "snd a" b] have "b \<in> set (cells st)" "adjacent a b" by simp_all
    with closed[OF a, of b] assms(2) show "b \<in> visited_cells st" by auto
  qed
qed

lemma Prims_loop_tree:
  assumes "Prims_inv side st"
  shows "\<exists>st'. Prims_loop st = Some (Inr st') \<and> Prims_inv side st' \<and> frontier st' = []"
  using assms
proof (induction "length (cells st) - card (visited_cells st)" arbitrary: st rule: less_induct)
  case less
  show ?case
  proof (cases "frontier st = []")
    case True
    with less.prems show ?thesis by (simp add: Prims_loop.simps[of st])
  next
    case False
    from Prims_iteration_inv[OF less.prems False] obtain st1 where
      it: "Prims_iteration st = Inr st1" and inv1: "Prims_inv side st1"
      and card1: "card (visited_cells st1) = Suc (card (visited_cells st))"
      and c1: "cells st1 = cells st" by blast
    have "card (visited_cells st1) \<le> length (cells st)" using card_visited_le[of st1] c1 by simp
    with card1 have "length (cells st1) - card (visited_cells st1)
        < length (cells st) - card (visited_cells st)" using c1 by simp
    from less.hyps[OF this inv1] obtain st' where
      "Prims_loop st1 = Some (Inr st')" "Prims_inv side st'" "frontier st' = []" by blast
    with it False show ?thesis by (simp add: Prims_loop.simps[of st])
  qed
qed

lemma adjacent_irrefl: "\<not> adjacent a a"
  by (simp add: adjacent_def)

lemma PrimsAlgorithm_setup_inv:
  assumes t: "tree_inv side st" and vr: "valid_random st" and fr: "frontier st = []"
    and V: "visited_cells st = {(r, c)}"
  shows "\<exists>st'. PrimsAlgorithm_setup st r c = Inr st' \<and> Prims_inv side st'"
proof -
  from t have ok: "grid_ok side st" by (simp add: tree_inv_def)
  have s: "(r, c) \<in> set (cells st)" using V visited_cells_subset[of st] by auto
  let ?ns = "Neighbors st r c"
  have nsub: "set ?ns \<subseteq> set (cells st)" using Neighbors_iff[OF ok s] by auto
  from Prims_start_frontier_restyled[OF ok nsub] obtain st1 where
    sf: "Prims_start_frontier st ?ns = Inr st1"
    and r1: "restyled (st\<lparr>frontier := frontier st @ ?ns\<rparr>) st1" by blast
  note f1 = restyled_fields[OF r1]
  have ok1: "grid_ok side st1" using ok by (simp add: f1)
  have s1: "(r, c) \<in> set (cells st1)" using s by (simp add: f1)
  from set_backgroundColor_restyled[OF ok1 s1] obtain st2 where
    bg: "set_backgroundColor st1 (FindCellIndex (r, c) (cells st1)) ''rgb(255, 240, 240)'' = Inr st2"
    and r2: "restyled st1 st2" by blast
  note f2 = restyled_fields[OF r2]
  have t2: "tree_inv side st2"
    using t restyled_tree_inv[OF r2, of side] restyled_tree_inv[OF r1, of side]
    by (simp add: tree_inv_def visited_cells_def)
  have F2: "frontier st2 = ?ns" by (simp add: f2 f1 fr)
  have V2: "visited_cells st2 = {(r, c)}" by (simp add: f2 f1 V)
  have c2: "cells st2 = cells st" by (simp add: f2 f1)
  have "Prims_inv side st2"
    unfolding Prims_inv_def F2 V2 c2
  proof (intro conjI ballI impI)
    show "tree_inv side st2" by (rule t2)
    show "valid_random st2" using vr by (simp add: f2 f1)
    show "distinct ?ns" by (rule Neighbors_distinct)
    show "set ?ns \<subseteq> set (cells st) - {(r, c)}"
      using Neighbors_iff[OF ok s] adjacent_irrefl by auto
    show "\<exists>v\<in>{(r, c)}. adjacent f v" if "f \<in> set ?ns" for f
      using that Neighbors_iff[OF ok s, of f] by (auto intro: adjacent_sym)
    show "n \<in> set ?ns" if "v \<in> {(r, c)}" "n \<in> set (cells st)" "adjacent v n" for v n
      using that Neighbors_iff[OF ok s, of n] by simp
  qed
  moreover have "PrimsAlgorithm_setup st r c = Inr st2"
    using sf bg by (simp add: PrimsAlgorithm_setup_def)
  ultimately show ?thesis by blast
qed

lemma Prims_reaches_inv:
  assumes "Prims_reaches st0 st" "Prims_inv side st0"
  shows "Prims_inv side st"
  using assms
proof (induction rule: Prims_reaches.induct)
  case enters
  then show ?case by simp
next
  case (iterates st st')
  then have "Prims_inv side st" "frontier st \<noteq> []" by auto
  from Prims_iteration_inv[OF this] iterates.hyps(3) show ?case by auto
qed

lemma Prims_inv_spanning:
  assumes "Prims_inv side st" "frontier st = []"
  shows "spanning_tree st"
  using tree_inv_spanning[of side st] Prims_inv_final[OF assms] assms(1)
  by (simp add: Prims_inv_def)

lemma restyled_spanning_tree: "restyled st st' \<Longrightarrow> spanning_tree st' = spanning_tree st"
  by (simp add: spanning_tree_def restyled_fields)

section \<open>The invariant of Kruskal's algorithm\<close>


definition cellMap_ok :: "maze \<Rightarrow> map_cell list \<Rightarrow> bool" where
  "cellMap_ok st cellMap \<longleftrightarrow> map (\<lambda>cell. (cell_x cell, cell_y cell)) cellMap = cells st"

definition set_of :: "maze \<Rightarrow> map_cell list \<Rightarrow> cell \<Rightarrow> int" where
  "set_of st cellMap a = cell_set (cellMap ! nat (FindCellIndex a (cells st)))"

lemma find_last_unique:
  assumes d: "distinct (map f xs)" and i: "i < length xs"
  shows "find_last (\<lambda>x. f x = f (xs ! i)) xs = Some (xs ! i)"
proof -
  have u: "f (xs ! j) = f (xs ! i) \<longleftrightarrow> j = i" if "j < length xs" for j
    using d i that by (auto simp: distinct_conv_nth)
  let ?k = "length xs - Suc i"
  have k: "?k < length (rev xs)" using i by simp
  have rk: "rev xs ! ?k = xs ! i" using i by (simp add: rev_nth)
  have "\<not> f (rev xs ! j) = f (xs ! i)" if "j < ?k" for j
  proof -
    have j: "j < length xs" using that by simp
    then have "rev xs ! j = xs ! (length xs - Suc j)" by (simp add: rev_nth)
    moreover have "length xs - Suc j \<noteq> i" using that i by linarith
    moreover have "length xs - Suc j < length xs" using j by simp
    ultimately show ?thesis using u by simp
  qed
  with k rk show ?thesis
    unfolding find_last_def find_Some_iff by (intro exI[of _ ?k]) simp
qed

lemma cell_index:
  assumes "distinct xs" "a \<in> set xs"
  shows "0 \<le> FindCellIndex a xs" "nat (FindCellIndex a xs) < length xs" "xs ! nat (FindCellIndex a xs) = a"
  using FindCellIndex_from_in[OF assms(2), of 0] by (simp_all add: FindCellIndex_def nat_less_iff)

lemma cellMap_find:
  assumes ok: "grid_ok side st" and cm: "cellMap_ok st cellMap" and a: "a \<in> set (cells st)"
  shows "find_last (\<lambda>cell. cell_x cell = fst a \<and> cell_y cell = snd a) cellMap
       = Some (cellMap ! nat (FindCellIndex a (cells st)))"
    and "cell_x (cellMap ! nat (FindCellIndex a (cells st))) = fst a"
    and "cell_y (cellMap ! nat (FindCellIndex a (cells st))) = snd a"
proof -
  let ?f = "\<lambda>cell. (cell_x cell, cell_y cell)"
  let ?i = "nat (FindCellIndex a (cells st))"
  have d: "distinct (cells st)" by (rule grid_ok_distinct_cells[OF ok])
  note ci = cell_index[OF d a]
  have len: "length cellMap = length (cells st)" using cm unfolding cellMap_ok_def by (metis length_map)
  have i: "?i < length cellMap" using ci len by simp
  have fi: "?f (cellMap ! ?i) = a"
  proof -
    have "?f (cellMap ! ?i) = map ?f cellMap ! ?i" using i by simp
    also have "\<dots> = cells st ! ?i" using cm by (simp add: cellMap_ok_def)
    finally show ?thesis using ci by simp
  qed
  from fi show "cell_x (cellMap ! ?i) = fst a" by (metis fst_conv)
  from fi show "cell_y (cellMap ! ?i) = snd a" by (metis snd_conv)
  have dm: "distinct (map ?f cellMap)" using cm d by (simp add: cellMap_ok_def)
  have e: "(\<lambda>cell. cell_x cell = fst a \<and> cell_y cell = snd a) = (\<lambda>x. ?f x = ?f (cellMap ! ?i))"
    by (auto simp: fi prod_eq_iff)
  show "find_last (\<lambda>cell. cell_x cell = fst a \<and> cell_y cell = snd a) cellMap
       = Some (cellMap ! ?i)" unfolding e by (rule find_last_unique[OF dm i])
qed

definition Kruskals_inv :: "int \<Rightarrow> maze \<Rightarrow> (cell \<times> cell) list \<Rightarrow> map_cell list \<Rightarrow> bool" where
  "Kruskals_inv side st edges cellMap \<longleftrightarrow>
     grid_ok side st \<and> valid_random st \<and> cellMap_ok st cellMap \<and> sym (passages st) \<and>
     (\<forall>a\<in>set (cells st). \<forall>b\<in>set (cells st).
        set_of st cellMap a = set_of st cellMap b \<longrightarrow> (a, b) \<in> (passages st)\<^sup>*) \<and>
     (\<forall>(a, b)\<in>passages st. set_of st cellMap a = set_of st cellMap b) \<and>
     length (open_passages st) + card (set_of st cellMap ` set (cells st)) = length (cells st) \<and>
     (\<forall>(a, b)\<in>set (GetAllEdges st). (a, b) \<in> set edges \<or> set_of st cellMap a = set_of st cellMap b)"

lemma splice_one_set:
  assumes "i < length xs"
  shows "set xs - {xs ! i} \<subseteq> set (splice_one xs (int i))" "length (splice_one xs (int i)) < length xs"
proof -
  have s: "splice_one xs (int i) = take i xs @ drop (Suc i) xs"
    using assms by (simp add: splice_one_def Let_def min_def)
  have xs: "xs = take i xs @ xs ! i # drop (Suc i) xs"
    using assms by (simp add: id_take_nth_drop)
  have "set xs = set (take i xs) \<union> {xs ! i} \<union> set (drop (Suc i) xs)"
    by (subst xs) auto
  then show "set xs - {xs ! i} \<subseteq> set (splice_one xs (int i))" by (auto simp: s)
  show "length (splice_one xs (int i)) < length xs" using assms by (simp add: s)
qed

lemma set_of_relabel:
  assumes ok: "grid_ok side st" and cm: "cellMap_ok st cellMap" and x: "x \<in> set (cells st)"
  shows "set_of st (map (\<lambda>cell. if cell_set cell = old then cell\<lparr>cell_set := new\<rparr> else cell) cellMap) x
       = (if set_of st cellMap x = old then new else set_of st cellMap x)"
proof -
  have d: "distinct (cells st)" by (rule grid_ok_distinct_cells[OF ok])
  have len: "length cellMap = length (cells st)" using cm unfolding cellMap_ok_def by (metis length_map)
  from cell_index(2)[OF d x] len show ?thesis by (simp add: set_of_def)
qed

lemma cellMap_ok_relabel:
  "cellMap_ok st cellMap \<Longrightarrow>
   cellMap_ok st (map (\<lambda>cell. if cell_set cell = old then cell\<lparr>cell_set := new\<rparr> else cell) cellMap)"
proof -
  have "(\<lambda>cell. (cell_x cell, cell_y cell)) \<circ> (\<lambda>cell. if cell_set cell = old then cell\<lparr>cell_set := new\<rparr> else cell)
      = (\<lambda>cell. (cell_x cell, cell_y cell))" by (auto simp: fun_eq_iff)
  then have "map (\<lambda>cell. (cell_x cell, cell_y cell))
      (map (\<lambda>cell. if cell_set cell = old then cell\<lparr>cell_set := new\<rparr> else cell) cellMap)
      = map (\<lambda>cell. (cell_x cell, cell_y cell)) cellMap"
    unfolding map_map by (rule arg_cong)
  then show "cellMap_ok st cellMap \<Longrightarrow> ?thesis" unfolding cellMap_ok_def by (rule trans)
qed



definition Kruskals_loop_inv :: "int \<Rightarrow> maze \<Rightarrow> (cell \<times> cell) list \<Rightarrow> map_cell list \<Rightarrow> bool" where
  "Kruskals_loop_inv side st edges cellMap \<longleftrightarrow>
     Kruskals_inv side st edges cellMap \<and> set edges \<subseteq> set (GetAllEdges st)"

lemma set_of_cong: "cells st' = cells st \<Longrightarrow> set_of st' = set_of st"
  by (simp add: set_of_def fun_eq_iff)

lemma set_of_update [simp]: "set_of (st\<lparr>random_calls := n\<rparr>) = set_of st"
  by (simp add: set_of_def fun_eq_iff)

lemma cellMap_ok_cong: "cells st' = cells st \<Longrightarrow> cellMap_ok st' = cellMap_ok st"
  by (simp add: cellMap_ok_def fun_eq_iff)

lemma GetAllEdges_cong:
  "num_rows st' = num_rows st \<Longrightarrow> num_columns st' = num_columns st \<Longrightarrow> GetAllEdges st' = GetAllEdges st"
  by (simp add: GetAllEdges_def)

lemma splice_one_subset: "set (splice_one xs i) \<subseteq> set xs"
  by (auto simp: splice_one_def Let_def dest: in_set_takeD in_set_dropD)

lemma Kruskals_iteration_inv:
  assumes linv: "Kruskals_loop_inv side st edges cellMap" and ne: "edges \<noteq> []"
  shows "\<exists>st' edges' cellMap'. Kruskals_iteration st edges cellMap = Inr (st', edges', cellMap') \<and>
     Kruskals_loop_inv side st' edges' cellMap'"
proof -
  let ?S = "set_of st cellMap" and ?C = "set (cells st)" and ?P = "passages st"
  from linv have inv: "Kruskals_inv side st edges cellMap" and sub: "set edges \<subseteq> set (GetAllEdges st)"
    by (simp_all add: Kruskals_loop_inv_def)
  from inv have ok: "grid_ok side st" and vr: "valid_random st" and cm: "cellMap_ok st cellMap"
    and sy: "sym (passages st)"
    and I1: "\<And>x y. x \<in> ?C \<Longrightarrow> y \<in> ?C \<Longrightarrow> ?S x = ?S y \<Longrightarrow> (x, y) \<in> ?P\<^sup>*"
    and I2: "\<And>x y. (x, y) \<in> ?P \<Longrightarrow> ?S x = ?S y"
    and I3: "length (open_passages st) + card (?S ` ?C) = length (cells st)"
    and I4: "\<And>x y. (x, y) \<in> set (GetAllEdges st) \<Longrightarrow> (x, y) \<in> set edges \<or> ?S x = ?S y"
    by (auto simp: Kruskals_inv_def)
  \<comment> \<open>the random edge\<close>
  obtain i st1 where ri: "random_index st (int (length edges)) = (i, st1)" by fastforce
  have st1: "st1 = st\<lparr>random_calls := Suc (random_calls st)\<rparr>"
    using ri random_index_snd[of st "int (length edges)"] by simp
  have "0 < int (length edges)" using ne by simp
  from random_index_range[OF vr this] ri have ir: "0 \<le> i" "i < int (length edges)" by simp_all
  obtain a b where e: "edges ! nat i = (a, b)" by (metis surj_pair)
  have nth: "js_nth edges i = Some (a, b)" using ir e by (simp add: js_nth_def)
  have ein: "(a, b) \<in> set edges" using ir e by (metis nat_less_iff nth_mem)
  with sub have eg: "(a, b) \<in> set (GetAllEdges st)" by auto
  note g = GetAllEdges_grid[OF ok eg]
  define edges1 where "edges1 = splice_one edges i"
  have i': "nat i < length edges" using ir by simp
  have e1: "set edges - {(a, b)} \<subseteq> set edges1" "set edges1 \<subseteq> set edges"
    using splice_one_set(1)[OF i'] ir e splice_one_subset[of edges i] by (simp_all add: edges1_def)
  have ok1: "grid_ok side st1" using ok by (simp add: st1)
  have cm1: "cellMap_ok st1 cellMap" using cm by (simp add: st1 cellMap_ok_def)
  have a1: "a \<in> set (cells st1)" and b1: "b \<in> set (cells st1)" using g by (simp_all add: st1)
  define cell1 where "cell1 = cellMap ! nat (FindCellIndex a (cells st))"
  define cell2 where "cell2 = cellMap ! nat (FindCellIndex b (cells st))"
  have f1: "find_last (\<lambda>cell. cell_x cell = fst (fst (a, b)) \<and> cell_y cell = snd (fst (a, b))) cellMap = Some cell1"
    and f2: "find_last (\<lambda>cell. cell_x cell = fst (snd (a, b)) \<and> cell_y cell = snd (snd (a, b))) cellMap = Some cell2"
    using cellMap_find(1)[OF ok cm g(1)] cellMap_find(1)[OF ok cm g(2)] by (simp_all add: cell1_def cell2_def)
  have xy1: "(cell_x cell1, cell_y cell1) = a" and xy2: "(cell_x cell2, cell_y cell2) = b"
    using cellMap_find(2,3)[OF ok cm g(1)] cellMap_find(2,3)[OF ok cm g(2)]
    by (simp_all add: cell1_def cell2_def)
  have s1: "cell_set cell1 = ?S a" and s2: "cell_set cell2 = ?S b"
    by (simp_all add: set_of_def cell1_def cell2_def)
  show ?thesis
  proof (cases "?S a = ?S b")
    case True
    have it: "Kruskals_iteration st edges cellMap = Inr (st1, edges1, cellMap)"
      unfolding Kruskals_iteration_def ri using nth f1 f2 True
      by (simp add: Let_def edges1_def s1 s2)
    have "Kruskals_inv side st1 edges1 cellMap"
      unfolding Kruskals_inv_def
    proof (intro conjI ballI impI)
      show "grid_ok side st1" by (rule ok1)
      show "valid_random st1" using vr by (simp add: st1)
      show "cellMap_ok st1 cellMap" by (rule cm1)
      show "sym (passages st1)" using sy by (simp add: st1)
      show "(x, y) \<in> (passages st1)\<^sup>*"
        if "x \<in> set (cells st1)" "y \<in> set (cells st1)" "set_of st1 cellMap x = set_of st1 cellMap y" for x y
        using that I1[of x y] by (simp add: st1 set_of_def)
      show "case p of (x, y) \<Rightarrow> set_of st1 cellMap x = set_of st1 cellMap y" if "p \<in> passages st1" for p
        using that I2[of "fst p" "snd p"] by (cases p) (simp add: st1 set_of_def)
      show "length (open_passages st1) + card (set_of st1 cellMap ` set (cells st1)) = length (cells st1)"
        using I3 by (simp add: st1)
      show "case p of (x, y) \<Rightarrow> (x, y) \<in> set edges1 \<or> set_of st1 cellMap x = set_of st1 cellMap y"
        if "p \<in> set (GetAllEdges st1)" for p
      proof -
        obtain x y where p: "p = (x, y)" by (metis surj_pair)
        have pg: "(x, y) \<in> set (GetAllEdges st)" using that p by (simp add: st1 GetAllEdges_def)
        show ?thesis
        proof (cases "(x, y) = (a, b)")
          case True
          with \<open>?S a = ?S b\<close> show ?thesis by (simp add: p st1 set_of_def)
        next
          case False
          with I4[OF pg] e1(1) show ?thesis by (auto simp: p st1 set_of_def)
        qed
      qed
    qed
    moreover have "set edges1 \<subseteq> set (GetAllEdges st1)"
      using e1(2) sub by (auto simp: st1 GetAllEdges_def)
    ultimately show ?thesis using it by (auto simp: Kruskals_loop_inv_def)
  next
    case False
    define cellMap1 where "cellMap1 =
      map (\<lambda>cell. if cell_set cell = cell_set cell2 then cell\<lparr>cell_set := cell_set cell1\<rparr> else cell) cellMap"
    from set_backgroundColor_restyled[OF ok1 a1] obtain st2 where
      bg1: "set_backgroundColor st1 (FindCellIndex a (cells st1)) ''rgb(255, 240, 240)'' = Inr st2"
      and r2: "restyled st1 st2" by blast
    note fl2 = restyled_fields[OF r2]
    have ok2: "grid_ok side st2" using ok1 by (simp add: fl2)
    have b2: "b \<in> set (cells st2)" using b1 by (simp add: fl2)
    from set_backgroundColor_restyled[OF ok2 b2] obtain st3 where
      bg2: "set_backgroundColor st2 (FindCellIndex b (cells st2)) ''rgb(255, 240, 240)'' = Inr st3"
      and r3: "restyled st2 st3" by blast
    note fl3 = restyled_fields[OF r3]
    have ok3: "grid_ok side st3" using ok2 by (simp add: fl3)
    have c3: "cells st3 = cells st" by (simp add: fl3 fl2 st1)
    have p3: "passages st3 = ?P" "open_passages st3 = open_passages st" by (simp_all add: fl3 fl2 st1)
    have a3: "a \<in> set (cells st3)" and b3: "b \<in> set (cells st3)" using g by (simp_all add: c3)
    from CutEdge_passages[OF ok3 a3 b3 g(3)] obtain st4 where
      cut: "CutEdge st3 a b = Inr st4" and ok4: "grid_ok side st4" and c4: "cells st4 = cells st"
      and mr4: "math_random st4 = math_random st"
      and p4: "passages st4 = ?P \<union> {(a, b), (b, a)}"
      and l4: "\<not> IsOpen st3 a b \<and> \<not> IsOpen st3 b a \<longrightarrow>
          length (open_passages st4) = length (open_passages st) + 1"
      by (auto simp: c3 p3 fl3 fl2 st1)
    have "(a, b) \<notin> ?P" "(b, a) \<notin> ?P" using I2[of a b] I2[of b a] False by auto
    then have "\<not> IsOpen st3 a b" "\<not> IsOpen st3 b a"
      using a3 b3 p3(1) by (auto simp: passages_def)
    with l4 have len4: "length (open_passages st4) = length (open_passages st) + 1" by simp
    have it: "Kruskals_iteration st edges cellMap = Inr (st4, edges1, cellMap1)"
      unfolding Kruskals_iteration_def ri using nth f1 f2 False bg1 bg2 cut
      by (simp add: Let_def edges1_def s1 s2 xy1 xy2 cellMap1_def fl2)
    let ?S' = "set_of st4 cellMap1"
    have S': "?S' x = (if ?S x = ?S b then ?S a else ?S x)" if "x \<in> ?C" for x
      unfolding cellMap1_def s1 s2 set_of_cong[OF c4] by (rule set_of_relabel[OF ok cm that])
    have nr4: "num_rows st4 = num_rows st" "num_columns st4 = num_columns st"
      using ok ok4 by (simp_all add: grid_ok_def)
    have ge4: "GetAllEdges st4 = GetAllEdges st" by (rule GetAllEdges_cong[OF nr4])
    have mono: "?P\<^sup>* \<subseteq> (passages st4)\<^sup>*" by (rule rtrancl_mono) (auto simp: p4)
    have ab4: "(a, b) \<in> (passages st4)\<^sup>*" "(b, a) \<in> (passages st4)\<^sup>*" by (auto simp: p4)
    have img: "?S' ` ?C = ?S ` ?C - {?S b}"
    proof
      show "?S' ` ?C \<subseteq> ?S ` ?C - {?S b}" using S' g(1) False by auto
      show "?S ` ?C - {?S b} \<subseteq> ?S' ` ?C"
      proof
        fix s assume "s \<in> ?S ` ?C - {?S b}"
        then obtain x where "x \<in> ?C" "s = ?S x" "?S x \<noteq> ?S b" by auto
        then have "?S' x = s" by (simp add: S')
        with \<open>x \<in> ?C\<close> show "s \<in> ?S' ` ?C" by blast
      qed
    qed
    have "?S b \<in> ?S ` ?C" using g(2) by simp
    then have card4: "Suc (card (?S' ` ?C)) = card (?S ` ?C)"
      unfolding img by (intro card.remove[symmetric]) simp_all
    have "Kruskals_inv side st4 edges1 cellMap1"
      unfolding Kruskals_inv_def c4 ge4
    proof (intro conjI ballI impI)
      show "grid_ok side st4" by (rule ok4)
      show "sym (passages st4)" using sy by (auto simp: p4 sym_def)
      show "valid_random st4" using vr mr4 by (simp add: valid_random_def)
      show "cellMap_ok st4 cellMap1"
        unfolding cellMap1_def cellMap_ok_cong[OF c4] by (rule cellMap_ok_relabel[OF cm])
      show "(x, y) \<in> (passages st4)\<^sup>*" if x: "x \<in> ?C" and y: "y \<in> ?C" and eq: "?S' x = ?S' y" for x y
      proof (cases "?S x = ?S y")
        case True
        from I1[OF x y this] mono show ?thesis by blast
      next
        case ne: False
        with eq S'[OF x] S'[OF y] have "(?S x = ?S b \<and> ?S y = ?S a) \<or> (?S x = ?S a \<and> ?S y = ?S b)"
          by (auto split: if_splits)
        then show ?thesis
        proof
          assume h: "?S x = ?S b \<and> ?S y = ?S a"
          have "(x, b) \<in> (passages st4)\<^sup>*" using I1[OF x g(2)] h mono by auto
          moreover have "(a, y) \<in> (passages st4)\<^sup>*" using I1[OF g(1) y] h mono by auto
          ultimately show ?thesis using ab4(2) by (meson rtrancl_trans)
        next
          assume h: "?S x = ?S a \<and> ?S y = ?S b"
          have "(x, a) \<in> (passages st4)\<^sup>*" using I1[OF x g(1)] h mono by auto
          moreover have "(b, y) \<in> (passages st4)\<^sup>*" using I1[OF g(2) y] h mono by auto
          ultimately show ?thesis using ab4(1) by (meson rtrancl_trans)
        qed
      qed
      show "case p of (x, y) \<Rightarrow> ?S' x = ?S' y" if "p \<in> passages st4" for p
      proof -
        obtain x y where p: "p = (x, y)" by (metis surj_pair)
        from that p p4 have "(x, y) \<in> ?P \<or> (x, y) = (a, b) \<or> (x, y) = (b, a)" by auto
        then show ?thesis
        proof (elim disjE)
          assume xy: "(x, y) \<in> ?P"
          then have x: "x \<in> ?C" by (simp add: passages_def)
          from xy have "IsOpen st x y" by (simp add: passages_def)
          from IsOpen_cells(1)[OF ok x this] have y: "y \<in> ?C" .
          from I2[OF xy] show ?thesis by (simp add: p S'[OF x] S'[OF y])
        next
          assume "(x, y) = (a, b)"
          then show ?thesis using False by (simp add: p S'[OF g(1)] S'[OF g(2)])
        next
          assume "(x, y) = (b, a)"
          then show ?thesis using False by (simp add: p S'[OF g(1)] S'[OF g(2)])
        qed
      qed
      show "length (open_passages st4) + card (?S' ` ?C) = length (cells st)"
        using I3 card4 len4 by simp
      show "case p of (x, y) \<Rightarrow> (x, y) \<in> set edges1 \<or> ?S' x = ?S' y" if "p \<in> set (GetAllEdges st)" for p
      proof -
        obtain x y where p: "p = (x, y)" by (metis surj_pair)
        note gx = GetAllEdges_grid(1,2)[OF ok that[unfolded p]]
        show ?thesis
        proof (cases "(x, y) = (a, b)")
          case True
          then show ?thesis using False by (simp add: p S'[OF g(1)] S'[OF g(2)])
        next
          case nab: False
          from I4[OF that[unfolded p]] show ?thesis
          proof
            assume "(x, y) \<in> set edges"
            with nab e1(1) show ?thesis by (auto simp: p)
          next
            assume "?S x = ?S y"
            then show ?thesis by (simp add: p S'[OF gx(1)] S'[OF gx(2)])
          qed
        qed
      qed
    qed
    moreover have "set edges1 \<subseteq> set (GetAllEdges st4)" using e1(2) sub by (auto simp: ge4)
    ultimately show ?thesis using it by (auto simp: Kruskals_loop_inv_def)
  qed
qed



lemma Kruskals_loop_unfold:
  assumes "Kruskals_iteration st edges cellMap = Inr (st1, edges1, cellMap1)"
  shows "Kruskals_loop st edges cellMap =
     (if length edges1 > 0 then Kruskals_loop st1 edges1 cellMap1 else Inr st1)"
  by (subst Kruskals_loop.simps) (simp add: assms)

lemma Kruskals_loop_tree:
  assumes "Kruskals_loop_inv side st edges cellMap" "edges \<noteq> []"
  shows "\<exists>st' cellMap'. Kruskals_loop st edges cellMap = Inr st' \<and> Kruskals_loop_inv side st' [] cellMap'"
  using assms
proof (induction "length edges" arbitrary: st edges cellMap rule: less_induct)
  case less
  from Kruskals_iteration_inv[OF less.prems] obtain st1 edges1 cellMap1 where
    it: "Kruskals_iteration st edges cellMap = Inr (st1, edges1, cellMap1)"
    and inv1: "Kruskals_loop_inv side st1 edges1 cellMap1" by blast
  note u = Kruskals_loop_unfold[OF it]
  show ?case
  proof (cases "edges1 = []")
    case True
    with inv1 have "Kruskals_loop_inv side st1 [] cellMap1" by simp
    moreover have "Kruskals_loop st edges cellMap = Inr st1" unfolding u using True by simp
    ultimately show ?thesis by blast
  next
    case False
    from Kruskals_iteration_length[OF it] have "length edges1 < length edges" .
    from less.hyps[OF this inv1 False] obtain st' cellMap' where
      r: "Kruskals_loop st1 edges1 cellMap1 = Inr st'" "Kruskals_loop_inv side st' [] cellMap'" by blast
    have "Kruskals_loop st edges cellMap = Inr st'" unfolding u using False r(1) by simp
    with r(2) show ?thesis by blast
  qed
qed

lemma Kruskals_final:
  assumes "Kruskals_loop_inv side st [] cellMap"
  shows "spanning_tree st"
proof -
  let ?S = "set_of st cellMap" and ?C = "set (cells st)" and ?P = "passages st"
  from assms have inv: "Kruskals_inv side st [] cellMap" by (simp add: Kruskals_loop_inv_def)
  from inv have ok: "grid_ok side st" by (simp add: Kruskals_inv_def)
  from inv have I1': "\<forall>x\<in>?C. \<forall>y\<in>?C. ?S x = ?S y \<longrightarrow> (x, y) \<in> ?P\<^sup>*"
    unfolding Kruskals_inv_def by blast
  have I1: "(x, y) \<in> ?P\<^sup>*" if "x \<in> ?C" "y \<in> ?C" "?S x = ?S y" for x y
    using I1' that by blast
  from inv have I3: "length (open_passages st) + card (?S ` ?C) = length (cells st)"
    unfolding Kruskals_inv_def by blast
  from inv have sy: "sym ?P" unfolding Kruskals_inv_def by blast
  from inv have I4': "\<forall>(x, y)\<in>set (GetAllEdges st). (x, y) \<in> set [] \<or> ?S x = ?S y"
    unfolding Kruskals_inv_def by blast
  have I4: "?S x = ?S y" if "(x, y) \<in> set (GetAllEdges st)" for x y
    using I4' that by fastforce
  have s: "1 \<le> side" using ok by (simp add: grid_ok_def)
  have o: "(0, 0) \<in> ?C" using s by (simp add: grid_ok_in_cells[OF ok])
  have all: "{x \<in> ?C. ?S x = ?S (0, 0)} = ?C"
  proof (rule grid_closed_all[OF ok])
    show "{x \<in> ?C. ?S x = ?S (0, 0)} \<subseteq> ?C" by auto
    show "(0, 0) \<in> {x \<in> ?C. ?S x = ?S (0, 0)}" using o by simp
    fix a b assume a: "a \<in> {x \<in> ?C. ?S x = ?S (0, 0)}" and b: "b \<in> ?C" and adj: "adjacent a b"
    from a have a': "a \<in> ?C" by simp
    from adjacent_GetAllEdges[OF ok a' b adj] have "?S a = ?S b"
    proof
      assume "(a, b) \<in> set (GetAllEdges st)"
      then show ?thesis by (rule I4)
    next
      assume "(b, a) \<in> set (GetAllEdges st)"
      then show ?thesis by (rule I4[symmetric])
    qed
    with a b show "b \<in> {x \<in> ?C. ?S x = ?S (0, 0)}" by simp
  qed
  then have same: "?S x = ?S (0, 0)" if "x \<in> ?C" for x using that by blast
  have "?S ` ?C = {?S (0, 0)}"
  proof
    show "?S ` ?C \<subseteq> {?S (0, 0)}" using same by blast
    show "{?S (0, 0)} \<subseteq> ?S ` ?C" using o by blast
  qed
  then have "card (?S ` ?C) = 1" by simp
  with I3 have "length (open_passages st) + 1 = length (cells st)" by simp
  moreover have "\<forall>x\<in>?C. \<forall>y\<in>?C. (x, y) \<in> ?P\<^sup>*"
  proof (intro ballI)
    fix x y assume x: "x \<in> ?C" and y: "y \<in> ?C"
    have "?S x = ?S y" using same[OF x] same[OF y] by (rule trans[OF _ sym])
    with x y show "(x, y) \<in> ?P\<^sup>*" by (rule I1)
  qed
  ultimately show ?thesis using sy by (simp add: spanning_tree_def)
qed

lemma Kruskals_initial:
  assumes ok: "grid_ok side st" and vr: "valid_random st"
    and p: "passages st = {}" and op: "open_passages st = []"
  shows "Kruskals_loop_inv side st (GetAllEdges st)
     (map (\<lambda>i. \<lparr>cell_x = fst (cells st ! i), cell_y = snd (cells st ! i), cell_set = int i\<rparr>)
        [0..<length (cells st)])"
    (is "Kruskals_loop_inv side st _ ?cm")
proof -
  let ?C = "set (cells st)"
  have d: "distinct (cells st)" by (rule grid_ok_distinct_cells[OF ok])
  have cm: "cellMap_ok st ?cm"
    unfolding cellMap_ok_def by (simp add: comp_def map_nth)
  have S: "set_of st ?cm x = FindCellIndex x (cells st)" if "x \<in> ?C" for x
    using cell_index(1,2)[OF d that] by (simp add: set_of_def)
  have inj: "inj_on (\<lambda>x. FindCellIndex x (cells st)) ?C"
    by (rule inj_onI) (rule grid_ok_index_inj[OF ok])
  have "set_of st ?cm ` ?C = (\<lambda>x. FindCellIndex x (cells st)) ` ?C" using S by auto
  then have "card (set_of st ?cm ` ?C) = card ?C" by (simp add: card_image[OF inj])
  also have "\<dots> = length (cells st)" by (rule distinct_card[OF d])
  finally have card: "card (set_of st ?cm ` ?C) = length (cells st)" .
  have "Kruskals_inv side st (GetAllEdges st) ?cm"
    unfolding Kruskals_inv_def p op
  proof (intro conjI ballI impI)
    show "(a, b) \<in> {}\<^sup>*" if "a \<in> ?C" "b \<in> ?C" "set_of st ?cm a = set_of st ?cm b" for a b
    proof -
      from that have "a = b" using S grid_ok_index_inj[OF ok that(1,2)] by simp
      then show ?thesis by simp
    qed
    show "length [] + card (set_of st ?cm ` ?C) = length (cells st)" using card by simp
    show "grid_ok side st" by (rule ok)
    show "valid_random st" by (rule vr)
    show "cellMap_ok st ?cm" by (rule cm)
    show "sym {}" by (simp add: sym_def)
  qed auto
  then show ?thesis by (simp add: Kruskals_loop_inv_def)
qed

lemma GetAllEdges_nonempty:
  assumes "grid_ok side st" "2 \<le> side"
  shows "GetAllEdges st \<noteq> []"
proof -
  have "((0, 0), (1, 0)) \<in> set (GetAllEdges st)"
    using assms by (simp add: GetAllEdges_iff grid_ok_def)
  then show ?thesis by auto
qed

lemma tree_inv_start_empty:
  assumes t: "tree_inv side st" and V: "visited_cells st = {s}"
  shows "passages st = {}" "open_passages st = []"
proof -
  from t have ok: "grid_ok side st" and sub: "passages st \<subseteq> visited_cells st \<times> visited_cells st"
    and cnt: "length (open_passages st) + 1 = card (visited_cells st)" by (auto simp: tree_inv_def)
  show "open_passages st = []" using cnt V by simp
  show "passages st = {}"
  proof (rule ccontr)
    assume "passages st \<noteq> {}"
    then obtain a b where ab: "(a, b) \<in> passages st" by auto
    with sub V have "a = s" "b = s" by auto
    with ab have "s \<in> set (cells st)" "IsOpen st s s" by (simp_all add: passages_def)
    from IsOpen_cells(2)[OF ok this] show False by (simp add: adjacent_irrefl)
  qed
qed

lemma Kruskals_tree:
  assumes "grid_ok side st" "valid_random st" "passages st = {}" "open_passages st = []" "2 \<le> side"
  shows "\<exists>st'. Kruskals st = Inr st' \<and> spanning_tree st' \<and> grid_ok side st'"
proof -
  from Kruskals_loop_tree[OF Kruskals_initial[OF assms(1-4)] GetAllEdges_nonempty[OF assms(1,5)]]
  obtain st' cellMap' where k: "Kruskals_loop st (GetAllEdges st)
     (map (\<lambda>i. \<lparr>cell_x = fst (cells st ! i), cell_y = snd (cells st ! i), cell_set = int i\<rparr>)
        [0..<length (cells st)]) = Inr st'"
    and inv: "Kruskals_loop_inv side st' [] cellMap'" by blast
  from k have "Kruskals st = Inr st'" by (simp add: Kruskals_def Let_def)
  moreover have "grid_ok side st'" using inv by (simp add: Kruskals_loop_inv_def Kruskals_inv_def)
  ultimately show ?thesis using Kruskals_final[OF inv] by blast
qed




lemma spanning_tree_finish:
  assumes ok: "grid_ok side st" and sp: "spanning_tree st"
  shows "\<exists>st'. CreateEntranceAndExit st = Inr st' \<and> spanning_tree st' \<and> grid_ok side st'"
proof -
  from CreateEntranceAndExit_restyled[OF ok] obtain st' where
    c: "CreateEntranceAndExit st = Inr st'" and r: "restyled st st'" by blast
  from restyled_spanning_tree[OF r] sp restyled_fields(10)[OF r, of side] ok c
  show ?thesis by auto
qed

lemma GenerateMaze_spanning_tree:
  assumes vr: "valid_random st0" and fr: "frontier st0 = []" and s: "1 \<le> side"
    and alg: "alg_drop = ''0'' \<or> alg_drop = ''1'' \<or> (alg_drop = ''2'' \<and> 2 \<le> side)"
  shows "\<exists>st. GenerateMaze (GenerateGrid_side st0 side) alg_drop = Some (Inr st) \<and>
     spanning_tree st \<and> grid_ok side st"
proof -
  obtain r c st3 where gs: "GenerateMaze_start (GenerateGrid_side st0 side) = (r, c, st3)"
    by (metis surj_pair)
  note g = GenerateMaze_start_tree[OF vr s gs]
  have fr3: "frontier st3 = []" using g(5) fr by simp
  have ok3: "grid_ok side st3" using g(1) by (simp add: tree_inv_def)
  have gen: "\<exists>st4. (if alg_drop = ''0'' then PrimsAlgorithm st3 r c
                  else if alg_drop = ''1'' then Some (RecursiveBacktrack st3 [(r, c)])
                  else if alg_drop = ''2'' then Some (Kruskals st3)
                  else Some (Inr st3)) = Some (Inr st4) \<and> spanning_tree st4 \<and> grid_ok side st4"
  proof -
    consider (prim) "alg_drop = ''0''" | (rb) "alg_drop = ''1''" | (kruskal) "alg_drop = ''2''" "2 \<le> side"
      using alg by blast
    then show ?thesis
    proof cases
      case prim
      from PrimsAlgorithm_setup_inv[OF g(1) g(3) fr3 g(2)] obtain st4 where
        su: "PrimsAlgorithm_setup st3 r c = Inr st4" and inv4: "Prims_inv side st4" by blast
      from Prims_loop_tree[OF inv4] obtain st5 where
        l: "Prims_loop st4 = Some (Inr st5)" and inv5: "Prims_inv side st5" and f5: "frontier st5 = []"
        by blast
      have "PrimsAlgorithm st3 r c = Some (Inr st5)" using su l by (simp add: PrimsAlgorithm_def)
      moreover have "grid_ok side st5" using inv5 by (simp add: Prims_inv_def tree_inv_def)
      ultimately show ?thesis using prim Prims_inv_spanning[OF inv5 f5] by auto
    next
      case rb
      have "RB_inv side st3 [(r, c)]" using g by (simp add: RB_inv_def)
      from RecursiveBacktrack_tree[OF this] obtain st4 where
        "RecursiveBacktrack st3 [(r, c)] = Inr st4" "tree_inv side st4"
        "visited_cells st4 = set (cells st4)" by blast
      with rb tree_inv_spanning[of side st4] show ?thesis by (auto simp: tree_inv_def)
    next
      case kruskal
      from Kruskals_tree[OF ok3 g(3) tree_inv_start_empty[OF g(1) g(2)] kruskal(2)] kruskal(1)
      show ?thesis by auto
    qed
  qed
  then obtain st4 where
    g4: "(if alg_drop = ''0'' then PrimsAlgorithm st3 r c
          else if alg_drop = ''1'' then Some (RecursiveBacktrack st3 [(r, c)])
          else if alg_drop = ''2'' then Some (Kruskals st3)
          else Some (Inr st3)) = Some (Inr st4)" and sp4: "spanning_tree st4" and ok4: "grid_ok side st4"
    by blast
  from spanning_tree_finish[OF ok4 sp4] obtain st5 where
    "CreateEntranceAndExit st4 = Inr st5" "spanning_tree st5" "grid_ok side st5" by blast
  with gs g4 show ?thesis by (simp add: GenerateMaze_def Let_def)
qed

section \<open>The solver on a tree of passages\<close>

lemma open_passages_distinct: "distinct (open_passages st)"
  unfolding open_passages_def by (rule distinct_filter[OF GetAllEdges_distinct])

lemma open_passages_iff:
  "(a, b) \<in> set (open_passages st) \<longleftrightarrow> (a, b) \<in> set (GetAllEdges st) \<and> IsOpen st a b"
  by (simp add: open_passages_def)

text \<open>
  In a spanning tree every passage joins a cell other than the root to its parent, the
  neighbour through which a shortest path from the root reaches it.
\<close>

lemma spanning_tree_parents:
  assumes ok: "grid_ok side st" and sp: "spanning_tree st" and r: "r \<in> set (cells st)"
  shows "\<exists>parent. \<forall>x\<in>set (cells st). \<forall>y. IsOpen st x y \<longrightarrow>
     (y \<noteq> r \<and> parent y = x) \<or> (x \<noteq> r \<and> parent x = y)"
proof -
  let ?C = "set (cells st)" and ?P = "passages st"
  from sp have sy: "sym ?P" and conn: "\<And>a b. a \<in> ?C \<Longrightarrow> b \<in> ?C \<Longrightarrow> (a, b) \<in> ?P\<^sup>*"
    and cnt: "length (open_passages st) + 1 = length (cells st)"
    by (auto simp: spanning_tree_def)
  have io_sym: "IsOpen st y x" if "x \<in> ?C" "IsOpen st x y" for x y
  proof -
    from that have "(x, y) \<in> ?P" by (simp add: passages_def)
    with sy have "(y, x) \<in> ?P" by (auto dest: symD)
    then show ?thesis by (simp add: passages_def)
  qed
  define d where "d x = (LEAST n. (r, x) \<in> ?P ^^ n)" for x
  have reach: "\<exists>n. (r, x) \<in> ?P ^^ n" if "x \<in> ?C" for x
    using conn[OF r that] by (rule rtrancl_imp_relpow)
  have d_in: "(r, x) \<in> ?P ^^ d x" if "x \<in> ?C" for x
    unfolding d_def using reach[OF that] by (rule LeastI_ex)
  have d_le: "d x \<le> n" if "(r, x) \<in> ?P ^^ n" for x n
    unfolding d_def using that by (rule Least_le)
  have ex_parent: "\<exists>y. (y, x) \<in> ?P \<and> d y < d x" if x: "x \<in> ?C" "x \<noteq> r" for x
  proof -
    have "d x \<noteq> 0" using d_in[OF x(1)] x(2) by (auto intro: ccontr)
    then obtain m where m: "d x = Suc m" by (cases "d x") auto
    with d_in[OF x(1)] obtain y where y: "(r, y) \<in> ?P ^^ m" "(y, x) \<in> ?P" by auto
    from d_le[OF y(1)] m have "d y < d x" by simp
    with y(2) show ?thesis by blast
  qed
  define parent where "parent x = (SOME y. (y, x) \<in> ?P \<and> d y < d x)" for x
  have par: "(parent x, x) \<in> ?P" "d (parent x) < d x" if "x \<in> ?C" "x \<noteq> r" for x
    using someI_ex[OF ex_parent[OF that]] by (simp_all add: parent_def)
  have parC: "parent x \<in> ?C" "IsOpen st (parent x) x" "IsOpen st x (parent x)"
    "adjacent x (parent x)" if "x \<in> ?C" "x \<noteq> r" for x
  proof -
    from par(1)[OF that] show p: "parent x \<in> ?C" and o: "IsOpen st (parent x) x"
      by (simp_all add: passages_def)
    from io_sym[OF p o] show o': "IsOpen st x (parent x)" .
    from IsOpen_cells(2)[OF ok that(1) o'] show "adjacent x (parent x)" .
  qed
  define e where "e x = (if (x, parent x) \<in> set (GetAllEdges st) then (x, parent x) else (parent x, x))" for x
  have e_cases: "e x = (x, parent x) \<or> e x = (parent x, x)" for x by (simp add: e_def)
  have e_in: "e x \<in> set (open_passages st)" if "x \<in> ?C" "x \<noteq> r" for x
  proof (cases "(x, parent x) \<in> set (GetAllEdges st)")
    case True
    with parC(3)[OF that] show ?thesis by (simp add: e_def open_passages_iff)
  next
    case False
    with adjacent_GetAllEdges[OF ok that(1) parC(1)[OF that] parC(4)[OF that]]
    have "(parent x, x) \<in> set (GetAllEdges st)" by simp
    with False parC(2)[OF that] show ?thesis by (simp add: e_def open_passages_iff)
  qed
  have inj: "inj_on e (?C - {r})"
  proof (rule inj_onI)
    fix x y assume x: "x \<in> ?C - {r}" and y: "y \<in> ?C - {r}" and eq: "e x = e y"
    from x y have dx: "d (parent x) < d x" and dy: "d (parent y) < d y" using par(2) by auto
    from e_cases[of x] e_cases[of y] eq
    have "x = y \<or> (x = parent y \<and> parent x = y)" by auto
    with dx dy show "x = y" by auto
  qed
  have d_cells: "distinct (cells st)" by (rule grid_ok_distinct_cells[OF ok])
  have "card (e ` (?C - {r})) = card (?C - {r})" by (rule card_image[OF inj])
  also have "\<dots> = card ?C - 1" using r by simp
  also have "\<dots> = length (cells st) - 1" by (simp add: distinct_card[OF d_cells])
  also have "\<dots> = length (open_passages st)" using cnt by simp
  also have "\<dots> = card (set (open_passages st))"
    by (simp add: distinct_card[OF open_passages_distinct])
  finally have "card (e ` (?C - {r})) = card (set (open_passages st))" .
  moreover have "e ` (?C - {r}) \<subseteq> set (open_passages st)"
  proof
    fix p assume "p \<in> e ` (?C - {r})"
    then obtain x where "x \<in> ?C" "x \<noteq> r" "p = e x" by blast
    then show "p \<in> set (open_passages st)" using e_in[of x] by simp
  qed
  ultimately have all: "e ` (?C - {r}) = set (open_passages st)"
    by (intro card_subset_eq) simp_all
  have "(y \<noteq> r \<and> parent y = x) \<or> (x \<noteq> r \<and> parent x = y)" if x: "x \<in> ?C" and o: "IsOpen st x y" for x y
  proof -
    from IsOpen_cells[OF ok x o] have y: "y \<in> ?C" and adj: "adjacent x y" .
    from io_sym[OF x o] have o': "IsOpen st y x" .
    from adjacent_GetAllEdges[OF ok x y adj] o o'
    have "(x, y) \<in> set (open_passages st) \<or> (y, x) \<in> set (open_passages st)"
      by (auto simp: open_passages_iff)
    then obtain p where p: "p \<in> set (open_passages st)" "p = (x, y) \<or> p = (y, x)" by blast
    from p(1) have "p \<in> e ` (?C - {r})" unfolding all .
    then obtain z where z: "z \<in> ?C" "z \<noteq> r" "e z = p" by blast
    from e_cases[of z] show ?thesis
    proof
      assume "e z = (z, parent z)"
      with z(3) p(2) have "(z = x \<and> parent z = y) \<or> (z = y \<and> parent z = x)" by (metis prod.inject)
      with z(2) show ?thesis by blast
    next
      assume "e z = (parent z, z)"
      with z(3) p(2) have "(z = x \<and> parent z = y) \<or> (z = y \<and> parent z = x)" by (metis prod.inject)
      with z(2) show ?thesis by blast
    qed
  qed
  then show ?thesis by blast
qed

lemma ConnectedNeighbors_grid:
  assumes ok: "grid_ok side st" and x: "(r, c) \<in> set (cells st)"
  shows "\<exists>ns. ConnectedNeighbors st r c = Inr ns \<and> distinct ns \<and> set ns = {y. IsOpen st (r, c) y}"
proof -
  note i = grid_ok_index[OF ok x]
  have len: "length (grid_items st) = nat (side * side)" using ok by (simp add: grid_ok_def)
  have g: "getElementById st (FindCellIndex (r, c) (cells st)) = Some (style_of st (r, c))"
    using i len by (simp add: getElementById_def js_nth_def style_of_def nat_less_iff)
  obtain ns where ns: "ConnectedNeighbors st r c = Inr ns"
    by (cases "ConnectedNeighbors st r c") (auto simp: ConnectedNeighbors_def Let_def g split: if_splits)
  then have "set ns = {y. IsOpen st (r, c) y}" by (auto simp: IsOpen_def)
  moreover have "distinct ns"
    using ns by (auto simp: ConnectedNeighbors_def Let_def g split: if_splits)
  ultimately show ?thesis using ns by blast
qed

lemma record_depths_apply:
  "record_depths st v m ns k =
     (if k \<in> (\<lambda>n. FindCellIndex n (cells st)) ` set ns then Some v else m k)"
  unfolding record_depths_def by (induction ns arbitrary: m) auto

lemma discoveries_cong:
  "cells st' = cells st \<Longrightarrow> visited st' = visited st \<Longrightarrow> discoveries st' = discoveries st"
  by (simp add: discoveries_def fun_eq_iff)

lemma record_depths_cong:
  "cells st' = cells st \<Longrightarrow> record_depths st' = record_depths st"
  by (simp add: record_depths_def fun_eq_iff)

lemma Dijkstras_discover_result:
  assumes "grid_ok side st" "set ns \<subseteq> set (cells st)"
  shows "\<exists>st'. Dijkstras_discover st depth ns q =
       Inr (st', q\<lparr>queue := queue q @ map (\<lambda>n. (fst n, snd n, plus_one depth)) (discoveries st ns),
                   depthMap := record_depths st (plus_one depth) (depthMap q) (discoveries st ns),
                   depth_writes := depth_writes q @
                     map (\<lambda>n. (FindCellIndex n (cells st), plus_one depth)) (discoveries st ns)\<rparr>) \<and>
     restyled st st'"
  using assms
proof (induction ns arbitrary: st q)
  case Nil
  then show ?case by (simp add: discoveries_def record_depths_def restyled_refl)
next
  case (Cons n ns)
  from Cons.prems have n: "n \<in> set (cells st)" and ns: "set ns \<subseteq> set (cells st)" by simp_all
  show ?case
  proof (cases "visited st (FindCellIndex n (cells st))")
    case True
    from Cons.IH[OF Cons.prems(1) ns, of q] True show ?thesis
      by (simp add: discoveries_def)
  next
    case False
    from set_backgroundColor_restyled[OF Cons.prems(1) n] obtain st1 where
      bg: "set_backgroundColor st (FindCellIndex n (cells st)) ''#5941f6'' = Inr st1"
      and r1: "restyled st st1" by blast
    note f1 = restyled_fields[OF r1]
    have ok1: "grid_ok side st1" using Cons.prems(1) by (simp add: f1)
    have ns1: "set ns \<subseteq> set (cells st1)" using ns by (simp add: f1)
    let ?v = "plus_one depth"
    let ?q1 = "q\<lparr>queue := queue q @ [(fst n, snd n, ?v)],
                  depthMap := (depthMap q)(FindCellIndex n (cells st) \<mapsto> ?v),
                  depth_writes := depth_writes q @ [(FindCellIndex n (cells st), ?v)]\<rparr>"
    from Cons.IH[OF ok1 ns1, of ?q1] obtain st' where
      ih: "Dijkstras_discover st1 depth ns ?q1 =
         Inr (st', ?q1\<lparr>queue := queue ?q1 @ map (\<lambda>n. (fst n, snd n, ?v)) (discoveries st1 ns),
                   depthMap := record_depths st1 ?v (depthMap ?q1) (discoveries st1 ns),
                   depth_writes := depth_writes ?q1 @
                     map (\<lambda>n. (FindCellIndex n (cells st1), ?v)) (discoveries st1 ns)\<rparr>)"
      and r': "restyled st1 st'" by blast
    have d1: "discoveries st1 = discoveries st" by (rule discoveries_cong) (simp_all add: f1)
    have rd1: "record_depths st1 = record_depths st" by (rule record_depths_cong) (simp add: f1)
    have dn: "discoveries st (n # ns) = n # discoveries st ns" using False by (simp add: discoveries_def)
    have "Dijkstras_discover st depth (n # ns) q = Dijkstras_discover st1 depth ns ?q1"
      using False bg by (simp add: Let_def)
    also note ih
    finally have "Dijkstras_discover st depth (n # ns) q =
       Inr (st', q\<lparr>queue := queue q @ map (\<lambda>n. (fst n, snd n, ?v)) (discoveries st (n # ns)),
                   depthMap := record_depths st ?v (depthMap q) (discoveries st (n # ns)),
                   depth_writes := depth_writes q @
                     map (\<lambda>n. (FindCellIndex n (cells st), ?v)) (discoveries st (n # ns))\<rparr>)"
      by (simp add: d1 rd1 dn f1 record_depths_def)
    with restyled_trans[OF r1 r'] show ?thesis by blast
  qed
qed

lemma restyled_IsOpen:
  assumes "restyled st st'" "x \<in> set (cells st)"
  shows "IsOpen st' x y = IsOpen st x y"
proof -
  from assms(1) have "passages st' = passages st" "cells st' = cells st" by (simp_all add: restyled_def)
  then have "(x, y) \<in> passages st' \<longleftrightarrow> (x, y) \<in> passages st" by simp
  with assms(2) \<open>cells st' = cells st\<close> show ?thesis by (simp add: passages_def)
qed

lemma tree_edges_restyled: "restyled st st' \<Longrightarrow> tree_edges parent st' = tree_edges parent st"
  by (simp add: tree_edges_def restyled_IsOpen restyled_fields(1))

lemma tree_edges_update [simp]: "tree_edges parent (st\<lparr>visited := v\<rparr>) = tree_edges parent st"
  by (simp add: tree_edges_def)

lemma inj_index:
  assumes "grid_ok side st" "set xs \<subseteq> set (cells st)" "distinct xs"
  shows "distinct (map (\<lambda>n. FindCellIndex n (cells st)) xs)"
proof -
  have "inj_on (\<lambda>n. FindCellIndex n (cells st)) (set xs)"
    by (rule inj_onI) (use assms(2) grid_ok_index_inj[OF assms(1)] in blast)
  with assms(3) show ?thesis by (simp add: distinct_map)
qed

lemma Dijkstras_iteration_inv:
  assumes inv: "BFS_inv side parent st q" and ne: "queue q \<noteq> []"
  shows "\<exists>res st' q'. Dijkstras_iteration st q = Inr res \<and> step_state res = (st', q') \<and>
     BFS_inv side parent st' q' \<and> writes_once st q q' \<and>
     cells st' = cells st \<and> visited_cells st \<subset> visited_cells st'"
proof -
  let ?C = "set (cells st)" and ?V = "visited_cells st" and ?D = "discovered st q"
  let ?idx = "\<lambda>n. FindCellIndex n (cells st)"
  from inv have ok: "grid_ok side st" and te: "tree_edges parent st"
    and qC: "set (queue_cells q) \<subseteq> ?C" and qd: "distinct (queue_cells q)"
    and qV: "set (queue_cells q) \<inter> ?V = {}"
    and D: "?D = ?V \<union> set (queue_cells q)"
    and root: "(0, 0) \<in> ?D"
    and par: "\<And>x. x \<in> ?D \<Longrightarrow> x \<noteq> (0, 0) \<Longrightarrow> parent x \<in> ?V"
    and num: "\<And>k v. depthMap q k = Some v \<Longrightarrow> \<exists>n. v = Num n"
    and wd: "distinct (map fst (depth_writes q))"
    and wg: "set (depth_writes q) = {(k, d). depthMap q k = Some d}"
    unfolding BFS_inv_def by blast+
  from ne obtain cell rest where q: "queue q = cell # rest" by (cases "queue q") auto
  define X where "X = (fst cell, fst (snd cell))"
  define restc where "restc = map (\<lambda>e. (fst e, fst (snd e))) rest"
  have qc: "queue_cells q = X # restc" by (simp add: queue_cells_def q X_def restc_def)
  have XC: "X \<in> ?C" and XnV: "X \<notin> ?V" and Xnr: "X \<notin> set restc" and rd: "distinct restc"
    and rC: "set restc \<subseteq> ?C" and rV: "set restc \<inter> ?V = {}"
    using qC qd qV by (auto simp: qc)
  have D': "?D = insert X (?V \<union> set restc)" using D by (simp add: qc)
  have XD: "X \<in> ?D" using D' by simp
  then obtain m where dX: "depthMap q (?idx X) = Some (Num m)"
    using num by (fastforce simp: discovered_def)
  \<comment> \<open>the cell is marked visited and coloured\<close>
  define st1 where "st1 = st\<lparr>visited := (visited st)(?idx X := True)\<rparr>"
  have ok1: "grid_ok side st1" using ok by (simp add: st1_def)
  have V1: "visited_cells st1 = insert X ?V" unfolding st1_def by (rule visited_cells_mark[OF ok XC])
  have X1: "X \<in> set (cells st1)" using XC by (simp add: st1_def)
  from set_backgroundColor_restyled[OF ok1 X1] obtain st2 where
    bg: "set_backgroundColor st1 (FindCellIndex X (cells st1)) ''#5941f6'' = Inr st2"
    and r2: "restyled st1 st2" by blast
  note f2 = restyled_fields[OF r2]
  have c2: "cells st2 = cells st" by (simp add: f2 st1_def)
  have ok2: "grid_ok side st2" using ok1 by (simp add: f2)
  have V2: "visited_cells st2 = insert X ?V" by (simp add: f2 V1)
  have te2: "tree_edges parent st2" using te by (simp add: tree_edges_restyled[OF r2] st1_def)
  have nr2: "num_rows st2 = num_rows st" "num_columns st2 = num_columns st" by (simp_all add: f2 st1_def)
  have bg': "set_backgroundColor (st\<lparr>visited := (visited st)(FindCellIndex (fst cell, fst (snd cell)) (cells st) := True)\<rparr>)
           (FindCellIndex (fst cell, fst (snd cell)) (cells st)) ''#5941f6'' = Inr st2"
    using bg by (simp add: st1_def X_def)
  note unf = Dijkstras_iteration_unfold[OF q bg']
  define q1 where "q1 = q\<lparr>queue := rest\<rparr>"
  have disc2: "discovered st2 q' = discovered st q'" for q' by (simp add: discovered_def c2)
  show ?thesis
  proof (cases "fst cell = num_rows st - 1 \<and> fst (snd cell) = num_columns st - 1")
    case True
    have it: "Dijkstras_iteration st q = Inr (Break (st2, q1))" using unf True by (simp add: q1_def)
    have "BFS_inv side parent st2 q1"
      unfolding BFS_inv_def disc2 V2 c2
    proof (intro conjI ballI impI allI)
      show "grid_ok side st2" by (rule ok2)
      show "tree_edges parent st2" by (rule te2)
      show "set (queue_cells q1) \<subseteq> ?C" using rC by (simp add: q1_def queue_cells_def restc_def)
      show "distinct (queue_cells q1)" using rd by (simp add: q1_def queue_cells_def restc_def)
      show "set (queue_cells q1) \<inter> insert X ?V = {}"
        using rV Xnr by (auto simp: q1_def queue_cells_def restc_def)
      show "discovered st q1 = insert X ?V \<union> set (queue_cells q1)"
      proof -
        have "discovered st q1 = ?D" by (simp add: q1_def discovered_def)
        moreover have "queue_cells q1 = restc" by (simp add: q1_def queue_cells_def restc_def)
        ultimately show ?thesis using D' by simp
      qed
      show "(0, 0) \<in> discovered st q1" using root by (simp add: q1_def discovered_def)
      show "parent x \<in> insert X ?V" if "x \<in> discovered st q1" "x \<noteq> (0, 0)" for x
        using par[of x] that by (simp add: q1_def discovered_def)
      show "\<exists>n. v = Num n" if "depthMap q1 k = Some v" for k v
        using num[of k v] that by (simp add: q1_def)
      show "distinct (map fst (depth_writes q1))" using wd by (simp add: q1_def)
      show "set (depth_writes q1) = {(k, d). depthMap q1 k = Some d}" using wg by (simp add: q1_def)
    qed
    moreover have "writes_once st q q1"
      unfolding writes_once_def by (rule exI[of _ "[]"]) (simp add: q1_def)
    moreover have "visited_cells st \<subset> visited_cells st2" using XnV V2 by auto
    ultimately show ?thesis using it c2 by (simp add: step_state_def)
  next
    case False
    from ConnectedNeighbors_grid[OF ok2, of "fst cell" "fst (snd cell)"] XC obtain ns where
      cn: "ConnectedNeighbors st2 (fst cell) (fst (snd cell)) = Inr ns" and nsd: "distinct ns"
      and nss: "set ns = {y. IsOpen st2 X y}" by (auto simp: X_def c2)
    have io2: "IsOpen st2 X y = IsOpen st X y" for y
      using restyled_IsOpen[OF r2 X1, of y] by (simp add: st1_def)
    have nsC: "set ns \<subseteq> ?C" using nss IsOpen_cells(1)[OF ok XC] by (auto simp: io2)
    define new where "new = discoveries st2 ns"
    have new_set: "set new = {y. IsOpen st X y \<and> y \<noteq> X \<and> y \<notin> ?V}"
    proof -
      have "y \<in> set new \<longleftrightarrow> IsOpen st X y \<and> y \<notin> visited_cells st2" for y
        using nsC by (auto simp: new_def discoveries_def nss io2 visited_cells_def c2)
      then show ?thesis by (auto simp: V2)
    qed
    have newd: "distinct new" using nsd by (simp add: new_def discoveries_def)
    have newC: "set new \<subseteq> ?C" using nsC by (auto simp: new_def discoveries_def)
    \<comment> \<open>a discovered cell is new: its parent is the dequeued cell\<close>
    have new_par: "n \<noteq> (0, 0) \<and> parent n = X \<and> n \<notin> ?D" if n: "n \<in> set new" for n
    proof -
      from n have o: "IsOpen st X n" and nV: "n \<notin> ?V" by (simp_all add: new_set)
      from te XC o have "(n \<noteq> (0, 0) \<and> parent n = X) \<or> (X \<noteq> (0, 0) \<and> parent X = n)"
        unfolding tree_edges_def by blast
      then have p: "n \<noteq> (0, 0) \<and> parent n = X"
      proof
        assume "X \<noteq> (0, 0) \<and> parent X = n"
        with par[OF XD] nV show ?thesis by auto
      qed
      have "n \<notin> ?D"
      proof
        assume "n \<in> ?D"
        from par[OF this] p have "X \<in> ?V" by simp
        with XnV show False ..
      qed
      with p show ?thesis by simp
    qed
    from Dijkstras_discover_result[OF ok2, of ns "depthMap q1 (?idx X)" q1] nsC
    obtain st3 where
      dis: "Dijkstras_discover st2 (depthMap q1 (?idx X)) ns q1 =
        Inr (st3, q1\<lparr>queue := queue q1 @ map (\<lambda>n. (fst n, snd n, plus_one (depthMap q1 (?idx X)))) new,
                   depthMap := record_depths st2 (plus_one (depthMap q1 (?idx X))) (depthMap q1) new,
                   depth_writes := depth_writes q1 @
                     map (\<lambda>n. (FindCellIndex n (cells st2), plus_one (depthMap q1 (?idx X)))) new\<rparr>)"
      and r3: "restyled st2 st3" by (auto simp: c2 new_def)
    have po: "plus_one (depthMap q1 (?idx X)) = Num (m + 1)" by (simp add: q1_def dX plus_one_def)
    define q3 where "q3 = q\<lparr>queue := rest @ map (\<lambda>n. (fst n, snd n, Num (m + 1))) new,
        depthMap := record_depths st (Num (m + 1)) (depthMap q) new,
        depth_writes := depth_writes q @ map (\<lambda>n. (?idx n, Num (m + 1))) new\<rparr>"
    have dis': "Dijkstras_discover st2 (depthMap q1 (?idx X)) ns q1 = Inr (st3, q3)"
      unfolding dis po by (simp add: q1_def q3_def c2 record_depths_cong[OF c2])
    have it: "Dijkstras_iteration st q = Inr (Continue (st3, q3))"
      unfolding unf using False cn dis' by (simp add: q1_def X_def)
    note f3 = restyled_fields[OF r3]
    have c3: "cells st3 = cells st" by (simp add: f3 c2)
    have V3: "visited_cells st3 = insert X ?V" by (simp add: f3 V2)
    have dm3: "depthMap q3 k = (if k \<in> ?idx ` set new then Some (Num (m + 1)) else depthMap q k)" for k
      by (simp add: q3_def record_depths_apply)
    have key_new: "depthMap q (?idx n) = None" if "n \<in> set new" for n
      using new_par[OF that] newC that by (auto simp: discovered_def)
    have idx_new: "?idx x \<in> ?idx ` set new \<longleftrightarrow> x \<in> set new" if "x \<in> ?C" for x
      using grid_ok_index_inj[OF ok that] newC by blast
    have D3: "discovered st3 q3 = ?D \<union> set new"
    proof -
      have "x \<in> discovered st3 q3 \<longleftrightarrow> x \<in> ?D \<union> set new" for x
      proof (cases "x \<in> ?C")
        case True
        then show ?thesis by (simp add: discovered_def c3 dm3 idx_new)
      next
        case False
        then show ?thesis using newC by (auto simp: discovered_def c3)
      qed
      then show ?thesis by blast
    qed
    have qc3: "queue_cells q3 = restc @ new"
      by (simp add: q3_def queue_cells_def restc_def comp_def)
    have "BFS_inv side parent st3 q3"
      unfolding BFS_inv_def D3 V3 c3 qc3
    proof (intro conjI ballI impI allI)
      show "grid_ok side st3" using ok2 by (simp add: f3)
      show "tree_edges parent st3" using te2 by (simp add: tree_edges_restyled[OF r3])
      show "set (restc @ new) \<subseteq> ?C" using rC newC by simp
      show "distinct (restc @ new)"
        using rd newd new_par D' by auto
      show "set (restc @ new) \<inter> insert X ?V = {}"
        using rV Xnr new_set by auto
      show "?D \<union> set new = insert X ?V \<union> set (restc @ new)" using D' by auto
      show "(0, 0) \<in> ?D \<union> set new" using root by simp
      show "parent x \<in> insert X ?V" if "x \<in> ?D \<union> set new" "x \<noteq> (0, 0)" for x
        using that par[of x] new_par[of x] by auto
      show "\<exists>n. v = Num n" if "depthMap q3 k = Some v" for k v
        using that num[of k v] by (auto simp: dm3 split: if_splits)
      show "distinct (map fst (depth_writes q3))"
      proof -
        have "map fst (depth_writes q3) = map fst (depth_writes q) @ map ?idx new"
          by (simp add: q3_def comp_def)
        moreover have "distinct (map ?idx new)" by (rule inj_index[OF ok newC newd])
        moreover have "set (map fst (depth_writes q)) \<inter> set (map ?idx new) = {}"
        proof -
          have "k \<notin> fst ` set (depth_writes q)" if "k \<in> ?idx ` set new" for k
            using that key_new by (auto simp: wg)
          then show ?thesis by auto
        qed
        ultimately show ?thesis using wd by simp
      qed
      show "set (depth_writes q3) = {(k, d). depthMap q3 k = Some d}"
      proof -
        have "set (depth_writes q3) = set (depth_writes q) \<union> (\<lambda>n. (?idx n, Num (m + 1))) ` set new"
          by (simp add: q3_def)
        also have "\<dots> = {(k, d). depthMap q3 k = Some d}"
          using key_new by (auto simp: wg dm3 split: if_splits)
        finally show ?thesis .
      qed
    qed
    moreover have "writes_once st q q3"
      unfolding writes_once_def
    proof (intro exI[of _ "map (\<lambda>n. (?idx n, Num (m + 1))) new"] conjI ballI allI impI)
      show "depth_writes q3 = depth_writes q @ map (\<lambda>n. (?idx n, Num (m + 1))) new"
        by (simp add: q3_def)
      show "distinct (map fst (map (\<lambda>n. (?idx n, Num (m + 1))) new))"
        using inj_index[OF ok newC newd] by (simp add: comp_def)
      show "case p of (k, d) \<Rightarrow> depthMap q k = None \<and> depthMap q3 k = Some d \<and>
           (\<exists>n. depthMap q (FindCellIndex (fst (hd (queue q)), fst (snd (hd (queue q)))) (cells st))
                   = Some (Num n) \<and> d = Num (n + 1))"
        if "p \<in> set (map (\<lambda>n. (?idx n, Num (m + 1))) new)" for p
        using that key_new dX by (auto simp: dm3 q X_def)
      show "depthMap q3 k = depthMap q k" if "depthMap q k \<noteq> None" for k
        using that key_new by (auto simp: dm3)
    qed
    moreover have "visited_cells st \<subset> visited_cells st3" using XnV V3 by auto
    ultimately show ?thesis using it c3 by (simp add: step_state_def)
  qed
qed

lemma Dijkstras_start_inv:
  assumes ok: "grid_ok side st0" and sp: "spanning_tree st0" and s: "Dijkstras_start st0 = (st, q)"
  shows "\<exists>parent. BFS_inv side parent st q"
proof -
  have side: "1 \<le> side" using ok by (simp add: grid_ok_def)
  then have o: "(0, 0) \<in> set (cells st0)" by (simp add: grid_ok_in_cells[OF ok])
  have i0: "FindCellIndex (0, 0) (cells st0) = 0" using grid_ok_index(1)[OF ok o] by simp
  from spanning_tree_parents[OF ok sp o] obtain parent where
    p: "\<forall>x\<in>set (cells st0). \<forall>y. IsOpen st0 x y \<longrightarrow>
          (y \<noteq> (0, 0) \<and> parent y = x) \<or> (x \<noteq> (0, 0) \<and> parent x = y)" by blast
  from s have st: "st = st0\<lparr>visited := (\<lambda>i. False)\<rparr>"
    and q: "q = \<lparr>queue = [(0, 0, Num 0)], depthMap = [0 \<mapsto> Num 0], depth_writes = [(0, Num 0)]\<rparr>"
    by (simp_all add: Dijkstras_start_def)
  have V: "visited_cells st = {}" by (simp add: st visited_cells_def)
  have c: "cells st = cells st0" by (simp add: st)
  have D: "discovered st q = {(0, 0)}"
  proof -
    have "x \<in> discovered st q \<longleftrightarrow> x = (0, 0)" for x
    proof
      assume "x \<in> discovered st q"
      then have x: "x \<in> set (cells st0)" "FindCellIndex x (cells st0) = 0"
        by (auto simp: discovered_def c q split: if_splits)
      with grid_ok_index_inj[OF ok x(1) o] i0 show "x = (0, 0)" by simp
    next
      assume "x = (0, 0)"
      then show "x \<in> discovered st q" using o i0 by (simp add: discovered_def c q)
    qed
    then show ?thesis by blast
  qed
  have "BFS_inv side parent st q"
    unfolding BFS_inv_def D V
  proof (intro conjI ballI impI allI)
    show "grid_ok side st" using ok by (simp add: st)
    show "tree_edges parent st" using p by (simp add: st tree_edges_def)
    show "set (queue_cells q) \<subseteq> set (cells st)" using o by (simp add: queue_cells_def q c)
    show "distinct (queue_cells q)" by (simp add: queue_cells_def q)
    show "set (queue_cells q) \<inter> {} = {}" by simp
    show "{(0, 0)} = {} \<union> set (queue_cells q)" by (simp add: queue_cells_def q)
    show "(0, 0) \<in> {(0::int, 0::int)}" by simp
    show "parent x \<in> {}" if "x \<in> {(0, 0)}" "x \<noteq> (0, 0)" for x using that by simp
    show "\<exists>n. v = Num n" if "depthMap q k = Some v" for k v
      using that by (auto simp: q split: if_splits)
    show "distinct (map fst (depth_writes q))" by (simp add: q)
    show "set (depth_writes q) = {(k, d). depthMap q k = Some d}"
      by (auto simp: q split: if_splits)
  qed
  then show ?thesis by blast
qed

lemma Dijkstras_reaches_inv:
  assumes r: "Dijkstras_reaches st0 st q" and ok: "grid_ok side st0" and sp: "spanning_tree st0"
  shows "\<exists>parent. BFS_inv side parent st q"
  using r
proof induction
  case (start st q)
  then show ?case by (rule Dijkstras_start_inv[OF ok sp])
next
  case (step st q st' q')
  from step.IH obtain parent where inv: "BFS_inv side parent st q" ..
  from step.hyps(2) have ne: "queue q \<noteq> []" by simp
  from Dijkstras_iteration_inv[OF inv ne] step.hyps(3)
  have "BFS_inv side parent st' q'" by (auto simp: step_state_def)
  then show ?case by blast
qed

lemma Dijkstras_layering_returns:
  assumes "BFS_inv side parent st q"
  shows "\<exists>st' q'. Dijkstras_layering st q = Some (Inr (st', q')) \<and> BFS_inv side parent st' q'"
  using assms
proof (induction "card (set (cells st) - visited_cells st)" arbitrary: st q rule: less_induct)
  case less
  show ?case
  proof (cases "queue q = []")
    case True
    then have "Dijkstras_layering st q = Some (Inr (st, q))"
      by (subst Dijkstras_layering.simps) simp
    with less.prems show ?thesis by blast
  next
    case False
    from Dijkstras_iteration_inv[OF less.prems False] obtain res st' q' where
      it: "Dijkstras_iteration st q = Inr res" and ss: "step_state res = (st', q')"
      and inv': "BFS_inv side parent st' q'" and c: "cells st' = cells st"
      and V: "visited_cells st \<subset> visited_cells st'" by blast
    show ?thesis
    proof (cases res)
      case (Break r)
      with ss have "r = (st', q')" by (simp add: step_state_def)
      with it Break False have "Dijkstras_layering st q = Some (Inr (st', q'))"
        by (subst Dijkstras_layering.simps) simp
      with inv' show ?thesis by blast
    next
      case (Continue r)
      with ss have r: "r = (st', q')" by (simp add: step_state_def)
      have "set (cells st') - visited_cells st' \<subset> set (cells st) - visited_cells st"
        using V visited_cells_subset[of st'] c by auto
      then have "card (set (cells st') - visited_cells st') < card (set (cells st) - visited_cells st)"
        by (intro psubset_card_mono) simp_all
      from less.hyps[OF this inv'] obtain st'' q'' where
        l: "Dijkstras_layering st' q' = Some (Inr (st'', q''))" and inv'': "BFS_inv side parent st'' q''"
        by blast
      from it Continue r False l have "Dijkstras_layering st q = Some (Inr (st'', q''))"
        by (subst Dijkstras_layering.simps) simp
      with inv'' show ?thesis by blast
    qed
  qed
qed

lemma spanning_tree_maze_3x3: "spanning_tree maze_3x3"
proof -
  let ?p = "page_load first_choice"
  have fr: "frontier ?p = []" by (simp add: page_load_def)
  have "(1::int) \<le> 3" by simp
  from GenerateMaze_spanning_tree[OF valid_random_first_choice fr this, of "''1''"]
  obtain st where "GenerateMaze (GenerateGrid_side ?p 3) ''1'' = Some (Inr st)" "spanning_tree st"
    by auto
  then show ?thesis by (simp add: maze_3x3_def generate_def GenerateGrid_def)
qed

lemma Dijkstras_phase1_maze_3x3:
  "depth_writes (snd (projr (the (Dijkstras_phase1 maze_3x3)))) =
     [(0, Num 0), (1, Num 1), (2, Num 2), (5, Num 3), (8, Num 4)]"
  by code_simp

section \<open>Sequences of operations on passages\<close>

lemma index_cell:
  assumes ok: "grid_ok side st" and i: "0 \<le> idx" "idx < int (length (grid_items st))"
  shows "\<exists>a\<in>set (cells st). FindCellIndex a (cells st) = idx"
proof -
  have len: "length (grid_items st) = length (cells st)"
    using ok grid_ok_length_cells[OF ok] by (simp add: grid_ok_def)
  with i have n: "nat idx < length (cells st)" by simp
  from FindCellIndex_from_nth[OF grid_ok_distinct_cells[OF ok] n, of 0] i(1)
  have "FindCellIndex (cells st ! nat idx) (cells st) = idx" by (simp add: FindCellIndex_def)
  with n show ?thesis by (metis nth_mem)
qed

lemma set_backgroundColor_any:
  assumes ok: "grid_ok side st" and s: "set_backgroundColor st idx c = Inr st'"
  shows "grid_ok side st' \<and> cells st' = cells st \<and>
     (\<forall>x\<in>set (cells st). \<forall>y. IsOpen st' x y = IsOpen st x y)"
proof -
  from set_style_InrD[OF s[unfolded set_backgroundColor_def]]
  have i: "0 \<le> idx" "idx < int (length (grid_items st))" by simp_all
  from index_cell[OF ok i] obtain a where a: "a \<in> set (cells st)" "FindCellIndex a (cells st) = idx"
    by blast
  from set_backgroundColor_grid[OF ok a(1), of c] s a(2) show ?thesis by auto
qed

lemma CutEdge_adjacent_cells:
  assumes "CutEdge st a b = Inr st'" "adjacent a b"
  shows "a \<in> set (cells st)" "b \<in> set (cells st)"
proof -
  from assms(2) have "snd a - 1 = snd b \<or> snd a + 1 = snd b \<or> fst a - 1 = fst b \<or> fst a + 1 = fst b"
    by (auto simp: adjacent_def)
  note i = CutEdge_branch_index(1,2)[OF assms(1) this]
  show "a \<in> set (cells st)"
    using i(1) FindCellIndex_from_notin[of a "cells st" 0] by (auto simp: FindCellIndex_def)
  show "b \<in> set (cells st)"
    using i(2) FindCellIndex_from_notin[of b "cells st" 0] by (auto simp: FindCellIndex_def)
qed

lemma passages_opened_invariant:
  assumes "passages_opened side st"
  shows "grid_ok side st \<and> (\<forall>a\<in>set (cells st). \<forall>b\<in>set (cells st). IsOpen st a b = IsOpen st b a)"
  using assms
proof (induction rule: passages_opened.induct)
  case (new_grid st)
  then show ?case using IsOpen_new_grid grid_ok_GenerateGrid_side by blast
next
  case (cut st a b st')
  note c = CutEdge_adjacent_cells[OF cut.hyps(3,2)]
  from CutEdge_grid[OF _ c cut.hyps(2)] cut.IH cut.hyps(3)
  show ?case by (auto; metis)
next
  case (entrance_and_exit st st')
  from CreateEntranceAndExit_grid[of side st] entrance_and_exit
  show ?case by auto
next
  case (colour st idx c st')
  from set_backgroundColor_any[OF _ colour.hyps(2)] colour.IH show ?case by auto
next
  case (visit st v)
  then show ?case by simp
next
  case (enqueue st fr)
  then show ?case by simp
next
  case (draw st n i st')
  from draw.hyps(2) have "st' = st\<lparr>random_calls := Suc (random_calls st)\<rparr>"
    by (auto simp: random_index_def)
  with draw.IH show ?case by simp
qed

lemma Neighbors_adjacent_cell: "n \<in> set (Neighbors st r c) \<Longrightarrow> adjacent n (r, c)"
  by (auto simp: Neighbors_mem adjacent_def)

lemma RecursiveBacktrack_body_opened:
  assumes p: "passages_opened side st" and b: "RecursiveBacktrack_body st path = Inr (st', path')"
  shows "passages_opened side st'"
proof -
  let ?cur = "last path"
  from b obtain st1 where
    bg: "set_backgroundColor st (FindCellIndex ?cur (cells st)) ''rgb(255, 200, 200)'' = Inr st1"
    by (auto simp: RecursiveBacktrack_body_def Let_def split: sum.splits)
  have p1: "passages_opened side st1" by (rule passages_opened.colour[OF p bg])
  show ?thesis
  proof (cases "length (unvisitedNeighbors st1 ?cur) > 0")
    case True
    obtain i st2 where ri: "random_index st1 (int (length (unvisitedNeighbors st1 ?cur))) = (i, st2)"
      by fastforce
    from b bg True ri obtain randomNeighbor st3 where
      nth: "js_nth (unvisitedNeighbors st1 ?cur) i = Some randomNeighbor"
      and ce: "CutEdge st2 randomNeighbor ?cur = Inr st3"
      and st': "st' = st3\<lparr>visited := (visited st3)(FindCellIndex randomNeighbor (cells st3) := True)\<rparr>"
      by (auto simp: RecursiveBacktrack_body_def Let_def split: sum.splits option.splits)
    have p2: "passages_opened side st2" by (rule passages_opened.draw[OF p1 ri])
    from unvisitedNeighbors_D[OF js_nth_in_set[OF nth]]
    have "randomNeighbor \<in> set (Neighbors st1 (fst ?cur) (snd ?cur))" by simp
    from Neighbors_adjacent_cell[OF this] have "adjacent randomNeighbor ?cur" by simp
    from passages_opened.cut[OF p2 this ce] have "passages_opened side st3" .
    then show ?thesis unfolding st' by (rule passages_opened.visit)
  next
    case False
    from b bg False obtain st2 where
      bg2: "set_backgroundColor st1 (FindCellIndex ?cur (cells st1)) ''rgb(255, 240, 240)'' = Inr st2"
      and st': "st' = st2"
      by (auto simp: RecursiveBacktrack_body_def Let_def split: sum.splits)
    show ?thesis unfolding st' by (rule passages_opened.colour[OF p1 bg2])
  qed
qed

lemma RecursiveBacktrack_opened:
  "passages_opened side st \<Longrightarrow> RecursiveBacktrack st path = Inr st' \<Longrightarrow> passages_opened side st'"
proof (induction st path rule: RecursiveBacktrack.induct)
  case (1 st path)
  show ?case
  proof (cases "length path > 0")
    case False
    with "1.prems" show ?thesis by simp
  next
    case True
    with "1.prems"(2) obtain st1 path1 where
      b: "RecursiveBacktrack_body st path = Inr (st1, path1)"
      and r: "RecursiveBacktrack st1 path1 = Inr st'"
      by (subst (asm) RecursiveBacktrack.simps) (auto split: sum.splits)
    from "1.IH"[OF True b refl RecursiveBacktrack_body_opened[OF "1.prems"(1) b] r]
    show ?thesis .
  qed
qed

lemma Prims_start_frontier_opened:
  "passages_opened side st \<Longrightarrow> Prims_start_frontier st ns = Inr st' \<Longrightarrow> passages_opened side st'"
proof (induction ns arbitrary: st)
  case Nil
  then show ?case by simp
next
  case (Cons n ns)
  from Cons.prems(2) obtain st1 where
    bg: "set_backgroundColor st (FindCellIndex n (cells st)) ''rgb(255, 200, 200)'' = Inr st1"
    and r: "Prims_start_frontier (st1\<lparr>frontier := frontier st1 @ [n]\<rparr>) ns = Inr st'"
    by (auto simp: Let_def split: sum.splits)
  have "passages_opened side (st1\<lparr>frontier := frontier st1 @ [n]\<rparr>)"
    by (rule passages_opened.enqueue[OF passages_opened.colour[OF Cons.prems(1) bg]])
  from Cons.IH[OF this r] show ?case .
qed

lemma Prims_grow_frontier_opened:
  "passages_opened side st \<Longrightarrow> Prims_grow_frontier st ns = Inr st' \<Longrightarrow> passages_opened side st'"
proof (induction ns arbitrary: st)
  case Nil
  then show ?case by simp
next
  case (Cons n ns)
  show ?case
  proof (cases "\<not> visited st (FindCellIndex n (cells st)) \<and> FindCellIndex n (frontier st) < 0")
    case True
    with Cons.prems(2) obtain st2 where
      bg: "set_backgroundColor (st\<lparr>frontier := frontier st @ [n]\<rparr>)
             (FindCellIndex n (cells st)) ''rgb(255, 200, 200)'' = Inr st2"
      and r: "Prims_grow_frontier st2 ns = Inr st'"
      by (auto simp: Let_def split: sum.splits)
    have "passages_opened side st2"
      by (rule passages_opened.colour[OF passages_opened.enqueue[OF Cons.prems(1)] bg])
    from Cons.IH[OF this r] show ?thesis .
  next
    case False
    with Cons.prems(2) have "Prims_grow_frontier st ns = Inr st'" by auto
    from Cons.IH[OF Cons.prems(1) this] show ?thesis .
  qed
qed

lemma Prims_iteration_opened:
  assumes p: "passages_opened side st" and it: "Prims_iteration st = Inr st'"
  shows "passages_opened side st'"
proof -
  obtain i st1 where ri: "random_index st (int (length (frontier st))) = (i, st1)" by fastforce
  from it ri obtain randomCell where nth: "js_nth (frontier st1) i = Some randomCell"
    by (auto simp: Prims_iteration_def split: option.splits)
  define st2 where "st2 = st1\<lparr>frontier := splice_one (frontier st1) (FindCellIndex randomCell (frontier st1))\<rparr>"
  define ns where "ns = Neighbors st2 (fst randomCell) (snd randomCell)"
  obtain j st3 where rj: "random_index st2 (int (length (visitedNeighbors st2 ns))) = (j, st3)"
    by fastforce
  from it ri nth rj obtain rvn st4 st5 where
    nth2: "js_nth (visitedNeighbors st2 ns) j = Some rvn"
    and ce: "CutEdge st3 randomCell rvn = Inr st4"
    and bg: "set_backgroundColor st4 (FindCellIndex randomCell (cells st4)) ''rgb(255, 240, 240)'' = Inr st5"
    and gr: "Prims_grow_frontier (st5\<lparr>visited := (visited st5)(FindCellIndex randomCell (cells st5) := True)\<rparr>) ns = Inr st'"
    by (auto simp: Prims_iteration_def Let_def st2_def ns_def split: option.splits sum.splits)
  have p1: "passages_opened side st1" by (rule passages_opened.draw[OF p ri])
  have p2: "passages_opened side st2" unfolding st2_def by (rule passages_opened.enqueue[OF p1])
  have p3: "passages_opened side st3" by (rule passages_opened.draw[OF p2 rj])
  from js_nth_in_set[OF nth2] have "rvn \<in> set ns" by (simp add: visitedNeighbors_def)
  then have "adjacent rvn (fst randomCell, snd randomCell)"
    unfolding ns_def by (rule Neighbors_adjacent_cell)
  then have "adjacent randomCell rvn" by (simp add: adjacent_sym)
  from passages_opened.cut[OF p3 this ce] have p4: "passages_opened side st4" .
  have "passages_opened side (st5\<lparr>visited := (visited st5)(FindCellIndex randomCell (cells st5) := True)\<rparr>)"
    by (rule passages_opened.visit[OF passages_opened.colour[OF p4 bg]])
  from Prims_grow_frontier_opened[OF this gr] show ?thesis .
qed

lemma Prims_loop_opened_aux:
  "Prims_loop st = Some r \<Longrightarrow>
     passages_opened side st \<longrightarrow> (\<forall>st'. r = Inr st' \<longrightarrow> passages_opened side st')"
proof (rule Prims_loop.raw_induct[where P = "\<lambda>st r.
     passages_opened side st \<longrightarrow> (\<forall>st'. r = Inr st' \<longrightarrow> passages_opened side st')"], goal_cases)
  case (1 loop st r)
  show ?case
  proof (intro impI allI)
    fix st' assume p: "passages_opened side st" and r: "r = Inr st'"
    show "passages_opened side st'"
    proof (cases "length (frontier st) > 0")
      case False
      with 1(3) p r show ?thesis by simp
    next
      case True
      with 1(3) r obtain st1 where
        it: "Prims_iteration st = Inr st1" and l: "loop st1 = Some r"
        by (auto split: sum.splits)
      from 1(2)[OF l] Prims_iteration_opened[OF p it] r show ?thesis by blast
    qed
  qed
next
  case 2
  then show ?case .
qed

lemma Prims_loop_opened:
  "Prims_loop st = Some (Inr st') \<Longrightarrow> passages_opened side st \<Longrightarrow> passages_opened side st'"
  using Prims_loop_opened_aux by blast

lemma PrimsAlgorithm_opened:
  assumes p: "passages_opened side st" and r: "PrimsAlgorithm st startRow startColumn = Some (Inr st')"
  shows "passages_opened side st'"
proof -
  from r obtain st1 st2 where
    sf: "Prims_start_frontier st (Neighbors st startRow startColumn) = Inr st1"
    and bg: "set_backgroundColor st1 (FindCellIndex (startRow, startColumn) (cells st1)) ''rgb(255, 240, 240)'' = Inr st2"
    and l: "Prims_loop st2 = Some (Inr st')"
    by (auto simp: PrimsAlgorithm_def PrimsAlgorithm_setup_def split: sum.splits)
  have "passages_opened side st2"
    by (rule passages_opened.colour[OF Prims_start_frontier_opened[OF p sf] bg])
  from Prims_loop_opened[OF l this] show ?thesis .
qed

lemma find_last_SomeD: "find_last P xs = Some x \<Longrightarrow> P x"
  by (auto simp: find_last_def find_Some_iff)

lemma Kruskals_iteration_unfold:
  assumes "random_index st (int (length edges)) = (i, st1)" and "js_nth edges i = Some edge"
    and "find_last (\<lambda>cell. cell_x cell = fst (fst edge) \<and> cell_y cell = snd (fst edge)) cellMap = Some cell1"
    and "find_last (\<lambda>cell. cell_x cell = fst (snd edge) \<and> cell_y cell = snd (snd edge)) cellMap = Some cell2"
  shows "Kruskals_iteration st edges cellMap =
     (if cell_set cell1 \<noteq> cell_set cell2 then
        (case set_backgroundColor st1 (FindCellIndex (cell_x cell1, cell_y cell1) (cells st1))
                ''rgb(255, 240, 240)'' of
           Inl e \<Rightarrow> Inl e
         | Inr st2 \<Rightarrow>
            (case set_backgroundColor st2 (FindCellIndex (cell_x cell2, cell_y cell2) (cells st2))
                    ''rgb(255, 240, 240)'' of
               Inl e \<Rightarrow> Inl e
             | Inr st3 \<Rightarrow>
                (case CutEdge st3 (cell_x cell1, cell_y cell1) (cell_x cell2, cell_y cell2) of
                   Inl e \<Rightarrow> Inl e
                 | Inr st4 \<Rightarrow> Inr (st4, splice_one edges i,
                     map (\<lambda>cell. if cell_set cell = cell_set cell2
                                  then cell\<lparr>cell_set := cell_set cell1\<rparr> else cell) cellMap))))
      else Inr (st1, splice_one edges i, cellMap))"
  using assms by (simp add: Kruskals_iteration_def Let_def)

lemma Kruskals_iteration_InrD:
  assumes "Kruskals_iteration st edges cellMap = Inr r"
  obtains i st1 edge cell1 cell2 where
    "random_index st (int (length edges)) = (i, st1)" and "js_nth edges i = Some edge"
    and "find_last (\<lambda>cell. cell_x cell = fst (fst edge) \<and> cell_y cell = snd (fst edge)) cellMap = Some cell1"
    and "find_last (\<lambda>cell. cell_x cell = fst (snd edge) \<and> cell_y cell = snd (snd edge)) cellMap = Some cell2"
proof -
  obtain i st1 where ri: "random_index st (int (length edges)) = (i, st1)" by fastforce
  from assms ri obtain edge where nth: "js_nth edges i = Some edge"
    by (cases "js_nth edges i") (auto simp: Kruskals_iteration_def)
  from assms ri nth obtain cell1 where
    c1: "find_last (\<lambda>cell. cell_x cell = fst (fst edge) \<and> cell_y cell = snd (fst edge)) cellMap = Some cell1"
    by (cases "find_last (\<lambda>cell. cell_x cell = fst (fst edge) \<and> cell_y cell = snd (fst edge)) cellMap")
       (auto simp: Kruskals_iteration_def Let_def)
  from assms ri nth c1 obtain cell2 where
    c2: "find_last (\<lambda>cell. cell_x cell = fst (snd edge) \<and> cell_y cell = snd (snd edge)) cellMap = Some cell2"
    by (cases "find_last (\<lambda>cell. cell_x cell = fst (snd edge) \<and> cell_y cell = snd (snd edge)) cellMap")
       (auto simp: Kruskals_iteration_def Let_def)
  from ri nth c1 c2 show ?thesis by (rule that)
qed

lemma Kruskals_iteration_opened:
  assumes p: "passages_opened side st" and sub: "set edges \<subseteq> set (GetAllEdges st)"
    and it: "Kruskals_iteration st edges cellMap = Inr (st', edges', cellMap')"
  shows "passages_opened side st' \<and> set edges' \<subseteq> set (GetAllEdges st')"
proof -
  from it obtain i st1 edge cell1 cell2 where
    ri: "random_index st (int (length edges)) = (i, st1)" and nth: "js_nth edges i = Some edge"
    and c1: "find_last (\<lambda>cell. cell_x cell = fst (fst edge) \<and> cell_y cell = snd (fst edge)) cellMap = Some cell1"
    and c2: "find_last (\<lambda>cell. cell_x cell = fst (snd edge) \<and> cell_y cell = snd (snd edge)) cellMap = Some cell2"
    by (rule Kruskals_iteration_InrD)
  note unf = it[unfolded Kruskals_iteration_unfold[OF ri nth c1 c2]]
  have p1: "passages_opened side st1" by (rule passages_opened.draw[OF p ri])
  have ok: "grid_ok side st" using passages_opened_invariant[OF p] by simp
  have g1: "GetAllEdges st1 = GetAllEdges st"
    by (rule GetAllEdges_cong) (simp_all add: random_index_fields[OF ri])
  have sub1: "set (splice_one edges i) \<subseteq> set (GetAllEdges st)"
    using sub splice_one_subset[of edges i] by blast
  show ?thesis
  proof (cases "cell_set cell1 \<noteq> cell_set cell2")
    case False
    with unf have "st' = st1" "edges' = splice_one edges i" by simp_all
    with p1 g1 sub1 show ?thesis by simp
  next
    case True
    with unf obtain st2 where
      bg1: "set_backgroundColor st1 (FindCellIndex (cell_x cell1, cell_y cell1) (cells st1)) ''rgb(255, 240, 240)'' = Inr st2"
      by (cases "set_backgroundColor st1 (FindCellIndex (cell_x cell1, cell_y cell1) (cells st1)) ''rgb(255, 240, 240)''") auto
    with unf True obtain st3 where
      bg2: "set_backgroundColor st2 (FindCellIndex (cell_x cell2, cell_y cell2) (cells st2)) ''rgb(255, 240, 240)'' = Inr st3"
      by (cases "set_backgroundColor st2 (FindCellIndex (cell_x cell2, cell_y cell2) (cells st2)) ''rgb(255, 240, 240)''") auto
    with unf True bg1 have
      ce: "CutEdge st3 (cell_x cell1, cell_y cell1) (cell_x cell2, cell_y cell2) = Inr st'"
      and e': "edges' = splice_one edges i"
      by (cases "CutEdge st3 (cell_x cell1, cell_y cell1) (cell_x cell2, cell_y cell2)"; simp)+
    from find_last_SomeD[OF c1] find_last_SomeD[OF c2]
    have e: "edge = ((cell_x cell1, cell_y cell1), (cell_x cell2, cell_y cell2))"
      by (simp add: prod_eq_iff)
    from js_nth_in_set[OF nth] sub have "edge \<in> set (GetAllEdges st)" by blast
    from GetAllEdges_grid(3)[OF ok this[unfolded e]]
    have adj: "adjacent (cell_x cell1, cell_y cell1) (cell_x cell2, cell_y cell2)" .
    have p3: "passages_opened side st3"
      by (rule passages_opened.colour[OF passages_opened.colour[OF p1 bg1] bg2])
    have p': "passages_opened side st'" by (rule passages_opened.cut[OF p3 adj ce])
    have "GetAllEdges st' = GetAllEdges st"
      by (rule GetAllEdges_cong)
         (simp_all add: set_backgroundColor_fields(4,5)[OF bg1] set_backgroundColor_fields(4,5)[OF bg2]
            CutEdge_fields(4,5)[OF ce] random_index_fields(4,5)[OF ri])
    with p' sub1 e' show ?thesis by simp
  qed
qed

lemma Kruskals_loop_opened:
  "passages_opened side st \<Longrightarrow> set edges \<subseteq> set (GetAllEdges st) \<Longrightarrow>
   Kruskals_loop st edges cellMap = Inr st' \<Longrightarrow> passages_opened side st'"
proof (induction st edges cellMap rule: Kruskals_loop.induct)
  case (1 st edges cellMap)
  have "\<exists>r. Kruskals_iteration st edges cellMap = Inr r"
  proof (cases "Kruskals_iteration st edges cellMap")
    case (Inl e)
    then have "Kruskals_loop st edges cellMap = Inl e" by (subst Kruskals_loop.simps) simp
    with "1.prems"(3) show ?thesis by simp
  next
    case (Inr r)
    then show ?thesis by blast
  qed
  then obtain st1 edges1 cellMap1 where
    it: "Kruskals_iteration st edges cellMap = Inr (st1, edges1, cellMap1)"
    by (metis surj_pair)
  from "1.prems"(3) have
    r: "(if length edges1 > 0 then Kruskals_loop st1 edges1 cellMap1 else Inr st1) = Inr st'"
    unfolding Kruskals_loop_unfold[OF it] .
  note s = Kruskals_iteration_opened[OF "1.prems"(1,2) it]
  show ?case
  proof (cases "length edges1 > 0")
    case True
    with r have "Kruskals_loop st1 edges1 cellMap1 = Inr st'" by simp
    from "1.IH"[OF it refl refl True _ _ this] s show ?thesis by blast
  next
    case False
    with r s show ?thesis by simp
  qed
qed

lemma GenerateMaze_opened:
  assumes s: "1 \<le> side" and g: "GenerateMaze (GenerateGrid_side st0 side) alg_drop = Some (Inr st)"
  shows "passages_opened side st"
proof -
  let ?g = "GenerateGrid_side st0 side"
  obtain r c st3 where gs: "GenerateMaze_start ?g = (r, c, st3)" by (metis surj_pair)
  obtain r' st1 where r1: "random_index ?g (num_rows ?g) = (r', st1)" by fastforce
  obtain c' st2 where r2: "random_index st1 (num_columns st1) = (c', st2)" by fastforce
  from gs r1 r2 have st3: "st3 = st2\<lparr>visited := (visited st2)(FindCellIndex (r, c) (cells st2) := True)\<rparr>"
    by (auto simp: GenerateMaze_start_def)
  have p0: "passages_opened side ?g" by (rule passages_opened.new_grid[OF s])
  have p3: "passages_opened side st3" unfolding st3
    by (rule passages_opened.visit[OF passages_opened.draw[OF passages_opened.draw[OF p0 r1] r2]])
  define generated where "generated =
         (if alg_drop = ''0'' then PrimsAlgorithm st3 r c
          else if alg_drop = ''1'' then Some (RecursiveBacktrack st3 [(r, c)])
          else if alg_drop = ''2'' then Some (Kruskals st3)
          else Some (Inr st3))"
  have g': "(case generated of None \<Rightarrow> None | Some (Inl e) \<Rightarrow> Some (Inl e)
             | Some (Inr st4) \<Rightarrow> Some (CreateEntranceAndExit st4)) = Some (Inr st)"
    using g unfolding GenerateMaze_def gs generated_def by (simp add: Let_def)
  then obtain st4 where gen0: "generated = Some (Inr st4)" and ee: "CreateEntranceAndExit st4 = Inr st"
    by (cases generated; simp split: sum.splits)
  note gen = gen0[unfolded generated_def]
  have "passages_opened side st4"
  proof (cases "alg_drop = ''0''")
    case True
    with gen have "PrimsAlgorithm st3 r c = Some (Inr st4)" by simp
    from PrimsAlgorithm_opened[OF p3 this] show ?thesis .
  next
    case n0: False
    show ?thesis
    proof (cases "alg_drop = ''1''")
      case True
      with gen n0 have "RecursiveBacktrack st3 [(r, c)] = Inr st4" by simp
      from RecursiveBacktrack_opened[OF p3 this] show ?thesis .
    next
      case n1: False
      show ?thesis
      proof (cases "alg_drop = ''2''")
        case True
        with gen n0 n1 have "Kruskals_loop st3 (GetAllEdges st3)
            (map (\<lambda>i. \<lparr>cell_x = fst (cells st3 ! i), cell_y = snd (cells st3 ! i), cell_set = int i\<rparr>)
               [0..<length (cells st3)]) = Inr st4"
          by (simp add: Kruskals_def Let_def)
        from Kruskals_loop_opened[OF p3 _ this] show ?thesis by simp
      next
        case False
        with gen n0 n1 p3 show ?thesis by simp
      qed
    qed
  qed
  from passages_opened.entrance_and_exit[OF this ee] show ?thesis .
qed

lemma generate_maze_3x3:
  "GenerateMaze (GenerateGrid_side (page_load first_choice) 3) ''1'' = Some (Inr maze_3x3)"
proof -
  let ?p = "page_load first_choice"
  have fr: "frontier ?p = []" by (simp add: page_load_def)
  have "(1::int) \<le> 3" by simp
  from GenerateMaze_spanning_tree[OF valid_random_first_choice fr this, of "''1''"]
  obtain st where "GenerateMaze (GenerateGrid_side ?p 3) ''1'' = Some (Inr st)" by auto
  then show ?thesis by (simp add: maze_3x3_def generate_def GenerateGrid_def)
qed

section \<open>Runs that draw the same numbers give the same outcome\<close>

lemma same_run_refl: "same_run st st"
  by (simp add: same_run_def)

lemma same_run_sym: "same_run a b \<Longrightarrow> same_run b a"
  by (simp add: same_run_def)

lemma same_run_fields:
  assumes "same_run a b"
  shows "num_rows b = num_rows a" "num_columns b = num_columns a" "visited b = visited a"
    "frontier b = frontier a" "cells b = cells a" "grid_items b = grid_items a"
    "math_random b (random_calls b) = math_random a (random_calls a)"
    "Neighbors b = Neighbors a" "unvisitedNeighbors b = unvisitedNeighbors a"
    "visitedNeighbors b = visitedNeighbors a" "GetAllEdges b = GetAllEdges a"
    "open_passages b = open_passages a"
proof -
  from assms show f: "num_rows b = num_rows a" "num_columns b = num_columns a" "visited b = visited a"
    "frontier b = frontier a" "cells b = cells a" "grid_items b = grid_items a"
    by (simp_all add: same_run_def)
  from assms have "draws b 0 = draws a 0" by (simp add: same_run_def)
  then show "math_random b (random_calls b) = math_random a (random_calls a)" by (simp add: draws_def)
  show n: "Neighbors b = Neighbors a" by (simp add: Neighbors_def fun_eq_iff f)
  show "unvisitedNeighbors b = unvisitedNeighbors a" by (simp add: unvisitedNeighbors_def fun_eq_iff f n)
  show "visitedNeighbors b = visitedNeighbors a" by (simp add: visitedNeighbors_def fun_eq_iff f)
  show g: "GetAllEdges b = GetAllEdges a" by (simp add: GetAllEdges_def f)
  have "ConnectedNeighbors b = ConnectedNeighbors a"
    by (simp add: ConnectedNeighbors_def getElementById_def fun_eq_iff f cong: option.case_cong)
  then have "IsOpen b = IsOpen a" by (simp add: IsOpen_def fun_eq_iff)
  then show "open_passages b = open_passages a" by (simp add: open_passages_def g)
qed

lemma same_run_update:
  assumes "same_run a b"
  shows "same_run (a\<lparr>visited := v\<rparr>) (b\<lparr>visited := v\<rparr>)"
    "same_run (a\<lparr>frontier := fr\<rparr>) (b\<lparr>frontier := fr\<rparr>)"
    "same_run (a\<lparr>grid_items := gi\<rparr>) (b\<lparr>grid_items := gi\<rparr>)"
    "same_run (a\<lparr>random_calls := Suc (random_calls a)\<rparr>) (b\<lparr>random_calls := Suc (random_calls b)\<rparr>)"
proof -
  from assms have d: "draws a (Suc i) = draws b (Suc i)" for i by (simp add: same_run_def)
  from assms show "same_run (a\<lparr>visited := v\<rparr>) (b\<lparr>visited := v\<rparr>)"
    "same_run (a\<lparr>frontier := fr\<rparr>) (b\<lparr>frontier := fr\<rparr>)"
    "same_run (a\<lparr>grid_items := gi\<rparr>) (b\<lparr>grid_items := gi\<rparr>)"
    by (simp_all add: same_run_def draws_def)
  from assms d show "same_run (a\<lparr>random_calls := Suc (random_calls a)\<rparr>) (b\<lparr>random_calls := Suc (random_calls b)\<rparr>)"
    by (simp add: same_run_def draws_def)
qed

lemma rel_sum_bind:
  assumes "rel_sum (=) R x y" and "\<And>a b. R a b \<Longrightarrow> rel_sum (=) S (f a) (g b)"
  shows "rel_sum (=) S (case x of Inl e \<Rightarrow> Inl e | Inr a \<Rightarrow> f a) (case y of Inl e \<Rightarrow> Inl e | Inr b \<Rightarrow> g b)"
  using assms by (cases x; cases y; simp)

lemma set_style_same:
  assumes "same_run a b"
  shows "rel_sum (=) same_run (set_style a idx f) (set_style b idx f)"
proof -
  note s = same_run_fields[OF assms]
  show ?thesis
    by (simp add: set_style_def getElementById_def s same_run_update(3)[OF assms] split: option.splits)
qed

lemma set_backgroundColor_same:
  "same_run a b \<Longrightarrow> rel_sum (=) same_run (set_backgroundColor a idx c) (set_backgroundColor b idx c)"
  unfolding set_backgroundColor_def by (rule set_style_same)

lemma two_styles_same:
  assumes "same_run a b"
  shows "rel_sum (=) same_run
     (case set_style a i f of Inl e \<Rightarrow> Inl e | Inr st1 \<Rightarrow> set_style st1 j g)
     (case set_style b i f of Inl e \<Rightarrow> Inl e | Inr st1 \<Rightarrow> set_style st1 j g)"
  by (rule rel_sum_bind[OF set_style_same[OF assms]]) (rule set_style_same)

lemma CutEdge_same:
  assumes "same_run a b"
  shows "rel_sum (=) same_run (CutEdge a x y) (CutEdge b x y)"
  unfolding CutEdge_def Let_def same_run_fields(5)[OF assms]
  by (simp add: two_styles_same[OF assms] assms)

lemma CreateEntranceAndExit_same:
  assumes "same_run a b"
  shows "rel_sum (=) same_run (CreateEntranceAndExit a) (CreateEntranceAndExit b)"
  unfolding CreateEntranceAndExit_def Let_def same_run_fields(1,2,5)[OF assms]
proof (rule rel_sum_bind[OF set_style_same[OF assms]])
  fix a1 b1 assume "same_run a1 b1"
  then show "rel_sum (=) same_run
      (set_style a1 (FindCellIndex (0, 0) (cells a1)) (borderTopColor_update (\<lambda>_. transparent)))
      (set_style b1 (FindCellIndex (0, 0) (cells b1)) (borderTopColor_update (\<lambda>_. transparent)))"
    using set_style_same[of a1 b1] by (simp add: same_run_fields(5))
qed

lemma random_index_same:
  assumes "same_run a b"
  shows "random_index b n = (fst (random_index a n), snd (random_index b n))"
    "same_run (snd (random_index a n)) (snd (random_index b n))"
  by (simp_all add: random_index_def same_run_fields(7)[OF assms] same_run_update(4)[OF assms])

lemma random_index_same_pair:
  assumes R: "same_run a b" and ra: "random_index a n = (i, a1)"
  shows "\<exists>b1. random_index b n = (i, b1) \<and> same_run a1 b1"
  using random_index_same[OF R, of n] ra by (cases "random_index b n") simp

lemma rel_sum_cases:
  assumes "rel_sum (=) R x y"
  obtains (err) e where "x = Inl e" "y = Inl e"
  | (ok) u v where "x = Inr u" "y = Inr v" "R u v"
  using assms by (cases x; cases y; simp)

lemma RecursiveBacktrack_body_same:
  assumes R: "same_run a b"
  shows "rel_sum (=) (rel_prod same_run (=))
     (RecursiveBacktrack_body a path) (RecursiveBacktrack_body b path)"
  unfolding RecursiveBacktrack_body_def Let_def same_run_fields(5)[OF R]
proof (rule rel_sum_bind[OF set_backgroundColor_same[OF R]], goal_cases)
  case (1 a1 b1)
  note f = same_run_fields[OF 1]
  show ?case
  proof (cases "0 < length (unvisitedNeighbors a1 (last path))")
    case True
    obtain i a2 where ra: "random_index a1 (int (length (unvisitedNeighbors a1 (last path)))) = (i, a2)"
      by fastforce
    from random_index_same_pair[OF 1 ra] obtain b2 where
      rb: "random_index b1 (int (length (unvisitedNeighbors a1 (last path)))) = (i, b2)"
      and R2: "same_run a2 b2" by blast
    show ?thesis
    proof (cases "js_nth (unvisitedNeighbors a1 (last path)) i")
      case None
      then show ?thesis using True ra rb by (simp add: f)
    next
      case (Some rn)
      have "rel_sum (=) (rel_prod same_run (=))
         (case CutEdge a2 rn (last path) of Inl e \<Rightarrow> Inl e
          | Inr st3 \<Rightarrow> Inr (st3\<lparr>visited := (visited st3)(FindCellIndex rn (cells st3) := True)\<rparr>, path @ [rn]))
         (case CutEdge b2 rn (last path) of Inl e \<Rightarrow> Inl e
          | Inr st3 \<Rightarrow> Inr (st3\<lparr>visited := (visited st3)(FindCellIndex rn (cells st3) := True)\<rparr>, path @ [rn]))"
        by (rule rel_sum_bind[OF CutEdge_same[OF R2]]) (auto simp: same_run_def draws_def)
      then show ?thesis using True ra rb Some by (simp add: f)
    qed
  next
    case False
    have "rel_sum (=) (rel_prod same_run (=))
       (case set_backgroundColor a1 (FindCellIndex (last path) (cells a1)) ''rgb(255, 240, 240)'' of
          Inl e \<Rightarrow> Inl e | Inr st2 \<Rightarrow> Inr (st2, butlast path))
       (case set_backgroundColor b1 (FindCellIndex (last path) (cells a1)) ''rgb(255, 240, 240)'' of
          Inl e \<Rightarrow> Inl e | Inr st2 \<Rightarrow> Inr (st2, butlast path))"
      by (rule rel_sum_bind[OF set_backgroundColor_same[OF 1]]) simp
    then show ?thesis using False by (simp add: f)
  qed
qed

lemma RecursiveBacktrack_same:
  "same_run a b \<Longrightarrow> rel_sum (=) same_run (RecursiveBacktrack a path) (RecursiveBacktrack b path)"
proof (induction a path arbitrary: b rule: RecursiveBacktrack.induct)
  case (1 a path)
  note ua = RecursiveBacktrack.simps[of a path] and ub = RecursiveBacktrack.simps[of b path]
  show ?case
  proof (cases "0 < length path")
    case False
    with "1.prems" show ?thesis by (simp add: ua ub)
  next
    case True
    from RecursiveBacktrack_body_same[OF "1.prems", of path] show ?thesis
    proof (cases rule: rel_sum_cases)
      case (err e)
      with True show ?thesis by (simp add: ua ub)
    next
      case (ok r r')
      obtain a1 p1 where r: "r = (a1, p1)" by (metis surj_pair)
      obtain b1 p1' where r': "r' = (b1, p1')" by (metis surj_pair)
      from ok(3) r r' have p: "p1' = p1" and R1: "same_run a1 b1" by simp_all
      from "1.IH"[OF True ok(1) r[symmetric] R1]
      show ?thesis using True ok(1,2) r r' p by (simp add: ua ub)
    qed
  qed
qed

lemma Prims_start_frontier_same:
  "same_run a b \<Longrightarrow> rel_sum (=) same_run (Prims_start_frontier a ns) (Prims_start_frontier b ns)"
proof (induction ns arbitrary: a b)
  case Nil
  then show ?case by simp
next
  case (Cons n ns)
  have "rel_sum (=) same_run
     (case set_backgroundColor a (FindCellIndex n (cells a)) ''rgb(255, 200, 200)'' of Inl e \<Rightarrow> Inl e
      | Inr st1 \<Rightarrow> Prims_start_frontier (st1\<lparr>frontier := frontier st1 @ [n]\<rparr>) ns)
     (case set_backgroundColor b (FindCellIndex n (cells a)) ''rgb(255, 200, 200)'' of Inl e \<Rightarrow> Inl e
      | Inr st1 \<Rightarrow> Prims_start_frontier (st1\<lparr>frontier := frontier st1 @ [n]\<rparr>) ns)"
  proof (rule rel_sum_bind[OF set_backgroundColor_same[OF Cons.prems]], goal_cases)
    case (1 a1 b1)
    have "same_run (a1\<lparr>frontier := frontier a1 @ [n]\<rparr>) (b1\<lparr>frontier := frontier b1 @ [n]\<rparr>)"
      using same_run_update(2)[OF 1] by (simp add: same_run_fields(4)[OF 1])
    then show ?case by (rule Cons.IH)
  qed
  then show ?case by (simp add: Let_def same_run_fields(5)[OF Cons.prems])
qed

lemma Prims_grow_frontier_same:
  "same_run a b \<Longrightarrow> rel_sum (=) same_run (Prims_grow_frontier a ns) (Prims_grow_frontier b ns)"
proof (induction ns arbitrary: a b)
  case Nil
  then show ?case by simp
next
  case (Cons n ns)
  note f = same_run_fields[OF Cons.prems]
  show ?case
  proof (cases "\<not> visited a (FindCellIndex n (cells a)) \<and> FindCellIndex n (frontier a) < 0")
    case False
    then have ea: "Prims_grow_frontier a (n # ns) = Prims_grow_frontier a ns" by auto
    from False have eb: "Prims_grow_frontier b (n # ns) = Prims_grow_frontier b ns"
      unfolding f(3,4,5)[symmetric] by auto
    show ?thesis unfolding ea eb by (rule Cons.IH[OF Cons.prems])
  next
    case True
    have "rel_sum (=) same_run
       (case set_backgroundColor (a\<lparr>frontier := frontier a @ [n]\<rparr>) (FindCellIndex n (cells a)) ''rgb(255, 200, 200)'' of
          Inl e \<Rightarrow> Inl e | Inr st2 \<Rightarrow> Prims_grow_frontier st2 ns)
       (case set_backgroundColor (b\<lparr>frontier := frontier a @ [n]\<rparr>) (FindCellIndex n (cells a)) ''rgb(255, 200, 200)'' of
          Inl e \<Rightarrow> Inl e | Inr st2 \<Rightarrow> Prims_grow_frontier st2 ns)"
      by (rule rel_sum_bind[OF set_backgroundColor_same[OF same_run_update(2)[OF Cons.prems]]])
         (rule Cons.IH)
    with True show ?thesis by (simp add: f Let_def)
  qed
qed

lemma Prims_iteration_same:
  assumes R: "same_run a b"
  shows "rel_sum (=) same_run (Prims_iteration a) (Prims_iteration b)"
proof -
  note f = same_run_fields[OF R]
  obtain i a1 where ra: "random_index a (int (length (frontier a))) = (i, a1)" by fastforce
  from random_index_same_pair[OF R ra] obtain b1 where
    rb: "random_index b (int (length (frontier a))) = (i, b1)" and R1: "same_run a1 b1" by blast
  note f1 = same_run_fields[OF R1]
  show ?thesis
  proof (cases "js_nth (frontier a1) i")
    case None
    then show ?thesis using ra rb by (simp add: Prims_iteration_def f f1)
  next
    case (Some rc)
    define a2 where "a2 = a1\<lparr>frontier := splice_one (frontier a1) (FindCellIndex rc (frontier a1))\<rparr>"
    define b2 where "b2 = b1\<lparr>frontier := splice_one (frontier a1) (FindCellIndex rc (frontier a1))\<rparr>"
    have R2: "same_run a2 b2" unfolding a2_def b2_def by (rule same_run_update(2)[OF R1])
    note f2 = same_run_fields[OF R2]
    define ns where "ns = Neighbors a1 (fst rc) (snd rc)"
    obtain j a3 where rja: "random_index a2 (int (length (visitedNeighbors a2 ns))) = (j, a3)"
      by fastforce
    from random_index_same_pair[OF R2 rja] obtain b3 where
      rjb: "random_index b2 (int (length (visitedNeighbors a2 ns))) = (j, b3)"
      and R3: "same_run a3 b3" by blast
    have ua: "Prims_iteration a =
       (case js_nth (visitedNeighbors a2 ns) j of None \<Rightarrow> Inl TypeError
        | Some rvn \<Rightarrow>
           (case CutEdge a3 rc rvn of Inl e \<Rightarrow> Inl e
            | Inr st4 \<Rightarrow>
               (case set_backgroundColor st4 (FindCellIndex rc (cells st4)) ''rgb(255, 240, 240)'' of
                  Inl e \<Rightarrow> Inl e
                | Inr st5 \<Rightarrow> Prims_grow_frontier
                     (st5\<lparr>visited := (visited st5)(FindCellIndex rc (cells st5) := True)\<rparr>) ns)))"
      using ra Some rja
      by (simp add: Prims_iteration_def Let_def a2_def ns_def cong: option.case_cong sum.case_cong)
    have ub: "Prims_iteration b =
       (case js_nth (visitedNeighbors a2 ns) j of None \<Rightarrow> Inl TypeError
        | Some rvn \<Rightarrow>
           (case CutEdge b3 rc rvn of Inl e \<Rightarrow> Inl e
            | Inr st4 \<Rightarrow>
               (case set_backgroundColor st4 (FindCellIndex rc (cells st4)) ''rgb(255, 240, 240)'' of
                  Inl e \<Rightarrow> Inl e
                | Inr st5 \<Rightarrow> Prims_grow_frontier
                     (st5\<lparr>visited := (visited st5)(FindCellIndex rc (cells st5) := True)\<rparr>) ns)))"
      using rb Some rjb f2(8,10)
      by (simp add: Prims_iteration_def Let_def f f1 b2_def[symmetric] ns_def
            cong: option.case_cong sum.case_cong)
    show ?thesis
    proof (cases "js_nth (visitedNeighbors a2 ns) j")
      case None
      then show ?thesis by (simp add: ua ub)
    next
      case (Some rvn)
      have "rel_sum (=) same_run
         (case CutEdge a3 rc rvn of Inl e \<Rightarrow> Inl e
            | Inr st4 \<Rightarrow>
               (case set_backgroundColor st4 (FindCellIndex rc (cells st4)) ''rgb(255, 240, 240)'' of
                  Inl e \<Rightarrow> Inl e
                | Inr st5 \<Rightarrow> Prims_grow_frontier
                     (st5\<lparr>visited := (visited st5)(FindCellIndex rc (cells st5) := True)\<rparr>) ns))
         (case CutEdge b3 rc rvn of Inl e \<Rightarrow> Inl e
            | Inr st4 \<Rightarrow>
               (case set_backgroundColor st4 (FindCellIndex rc (cells st4)) ''rgb(255, 240, 240)'' of
                  Inl e \<Rightarrow> Inl e
                | Inr st5 \<Rightarrow> Prims_grow_frontier
                     (st5\<lparr>visited := (visited st5)(FindCellIndex rc (cells st5) := True)\<rparr>) ns))"
      proof (rule rel_sum_bind[OF CutEdge_same[OF R3]], goal_cases)
        case (1 a4 b4)
        show ?case
          unfolding same_run_fields(5)[OF 1]
        proof (rule rel_sum_bind[OF set_backgroundColor_same[OF 1]], goal_cases)
          case (1 a5 b5)
          have "same_run (a5\<lparr>visited := (visited a5)(FindCellIndex rc (cells a5) := True)\<rparr>)
                  (b5\<lparr>visited := (visited b5)(FindCellIndex rc (cells b5) := True)\<rparr>)"
            using same_run_update(1)[OF 1] by (simp add: same_run_fields(3,5)[OF 1])
          then show ?case by (rule Prims_grow_frontier_same)
        qed
      qed
      with Some show ?thesis by (simp add: ua ub)
    qed
  qed
qed

lemma same_outcome_iff: "same_outcome x y \<longleftrightarrow> rel_option (rel_sum (=) same_run) x y"
  by (cases x; cases y) (auto simp: same_outcome_def split: sum.splits)

lemma Prims_loop_same_aux:
  "Prims_loop a = Some r \<Longrightarrow>
     \<forall>b. same_run a b \<longrightarrow> (\<exists>r'. Prims_loop b = Some r' \<and> rel_sum (=) same_run r r')"
proof (rule Prims_loop.raw_induct[where P = "\<lambda>a r.
     \<forall>b. same_run a b \<longrightarrow> (\<exists>r'. Prims_loop b = Some r' \<and> rel_sum (=) same_run r r')"], goal_cases)
  case (1 loop a r)
  show ?case
  proof (intro allI impI)
    fix b assume R: "same_run a b"
    note f = same_run_fields[OF R]
    show "\<exists>r'. Prims_loop b = Some r' \<and> rel_sum (=) same_run r r'"
    proof (cases "0 < length (frontier a)")
      case False
      with 1(3) have r: "r = Inr a" by simp
      from False have "Prims_loop b = Some (Inr b)" by (subst Prims_loop.simps) (simp add: f)
      with r R show ?thesis by simp
    next
      case True
      from Prims_iteration_same[OF R] show ?thesis
      proof (cases rule: rel_sum_cases)
        case (err e)
        with 1(3) True have r: "r = Inl e" by simp
        from err True have "Prims_loop b = Some (Inl e)" by (subst Prims_loop.simps) (simp add: f)
        with r show ?thesis by simp
      next
        case (ok a1 b1)
        with 1(3) True have "loop a1 = Some r" by simp
        from 1(2)[OF this] ok(3) obtain r' where
          r': "Prims_loop b1 = Some r'" "rel_sum (=) same_run r r'" by blast
        from ok True have "Prims_loop b = Prims_loop b1" by (subst Prims_loop.simps) (simp add: f)
        with r' show ?thesis by simp
      qed
    qed
  qed
next
  case 2
  then show ?case .
qed

lemma Prims_loop_same:
  assumes R: "same_run a b"
  shows "rel_option (rel_sum (=) same_run) (Prims_loop a) (Prims_loop b)"
proof (cases "Prims_loop a")
  case (Some r)
  from Prims_loop_same_aux[OF Some] R obtain r' where
    "Prims_loop b = Some r'" "rel_sum (=) same_run r r'" by blast
  with Some show ?thesis by simp
next
  case None
  have "Prims_loop b = None"
  proof (rule ccontr)
    assume "Prims_loop b \<noteq> None"
    then obtain r where "Prims_loop b = Some r" by blast
    from Prims_loop_same_aux[OF this] same_run_sym[OF R] None show False by fastforce
  qed
  with None show ?thesis by simp
qed

lemma PrimsAlgorithm_setup_same:
  assumes R: "same_run a b"
  shows "rel_sum (=) same_run (PrimsAlgorithm_setup a r c) (PrimsAlgorithm_setup b r c)"
  unfolding PrimsAlgorithm_setup_def same_run_fields(8)[OF R]
proof (rule rel_sum_bind[OF Prims_start_frontier_same[OF R]], goal_cases)
  case (1 a1 b1)
  show ?case unfolding same_run_fields(5)[OF 1] by (rule set_backgroundColor_same[OF 1])
qed

lemma PrimsAlgorithm_same:
  assumes R: "same_run a b"
  shows "rel_option (rel_sum (=) same_run) (PrimsAlgorithm a r c) (PrimsAlgorithm b r c)"
  using PrimsAlgorithm_setup_same[OF R, of r c]
proof (cases rule: rel_sum_cases)
  case (err e)
  then show ?thesis by (simp add: PrimsAlgorithm_def)
next
  case (ok a1 b1)
  with Prims_loop_same[OF ok(3)] show ?thesis by (simp add: PrimsAlgorithm_def)
qed

lemma Kruskals_iteration_same:
  assumes R: "same_run a b"
  shows "rel_sum (=) (rel_prod same_run (=))
     (Kruskals_iteration a edges cellMap) (Kruskals_iteration b edges cellMap)"
proof -
  obtain i a1 where ra: "random_index a (int (length edges)) = (i, a1)" by fastforce
  from random_index_same_pair[OF R ra] obtain b1 where
    rb: "random_index b (int (length edges)) = (i, b1)" and R1: "same_run a1 b1" by blast
  show ?thesis
  proof (cases "js_nth edges i")
    case None
    then show ?thesis using ra rb by (simp add: Kruskals_iteration_def)
  next
    case (Some edge)
    let ?c1 = "find_last (\<lambda>cell. cell_x cell = fst (fst edge) \<and> cell_y cell = snd (fst edge)) cellMap"
    let ?c2 = "find_last (\<lambda>cell. cell_x cell = fst (snd edge) \<and> cell_y cell = snd (snd edge)) cellMap"
    show ?thesis
    proof (cases ?c1)
      case None
      then show ?thesis using ra rb Some by (simp add: Kruskals_iteration_def Let_def)
    next
      case c1: (Some cell1)
      show ?thesis
      proof (cases ?c2)
        case None
        then show ?thesis using ra rb Some c1 by (simp add: Kruskals_iteration_def Let_def)
      next
        case c2: (Some cell2)
        note ua = Kruskals_iteration_unfold[OF ra Some c1 c2]
        note ub = Kruskals_iteration_unfold[OF rb Some c1 c2]
        show ?thesis
        proof (cases "cell_set cell1 \<noteq> cell_set cell2")
          case False
          then show ?thesis using R1 by (simp add: ua ub)
        next
          case True
          have "rel_sum (=) (rel_prod same_run (=))
            (case set_backgroundColor a1 (FindCellIndex (cell_x cell1, cell_y cell1) (cells a1))
                    ''rgb(255, 240, 240)'' of
               Inl e \<Rightarrow> Inl e
             | Inr st2 \<Rightarrow>
                (case set_backgroundColor st2 (FindCellIndex (cell_x cell2, cell_y cell2) (cells st2))
                        ''rgb(255, 240, 240)'' of
                   Inl e \<Rightarrow> Inl e
                 | Inr st3 \<Rightarrow>
                    (case CutEdge st3 (cell_x cell1, cell_y cell1) (cell_x cell2, cell_y cell2) of
                       Inl e \<Rightarrow> Inl e
                     | Inr st4 \<Rightarrow> Inr (st4, splice_one edges i,
                         map (\<lambda>cell. if cell_set cell = cell_set cell2
                                      then cell\<lparr>cell_set := cell_set cell1\<rparr> else cell) cellMap))))
            (case set_backgroundColor b1 (FindCellIndex (cell_x cell1, cell_y cell1) (cells b1))
                    ''rgb(255, 240, 240)'' of
               Inl e \<Rightarrow> Inl e
             | Inr st2 \<Rightarrow>
                (case set_backgroundColor st2 (FindCellIndex (cell_x cell2, cell_y cell2) (cells st2))
                        ''rgb(255, 240, 240)'' of
                   Inl e \<Rightarrow> Inl e
                 | Inr st3 \<Rightarrow>
                    (case CutEdge st3 (cell_x cell1, cell_y cell1) (cell_x cell2, cell_y cell2) of
                       Inl e \<Rightarrow> Inl e
                     | Inr st4 \<Rightarrow> Inr (st4, splice_one edges i,
                         map (\<lambda>cell. if cell_set cell = cell_set cell2
                                      then cell\<lparr>cell_set := cell_set cell1\<rparr> else cell) cellMap))))"
            unfolding same_run_fields(5)[OF R1]
          proof (rule rel_sum_bind[OF set_backgroundColor_same[OF R1]], goal_cases)
            case (1 a2 b2)
            show ?case unfolding same_run_fields(5)[OF 1]
            proof (rule rel_sum_bind[OF set_backgroundColor_same[OF 1]], goal_cases)
              case (1 a3 b3)
              show ?case by (rule rel_sum_bind[OF CutEdge_same[OF 1]]) simp
            qed
          qed
          with True show ?thesis by (simp add: ua ub)
        qed
      qed
    qed
  qed
qed

lemma Kruskals_loop_same:
  "same_run a b \<Longrightarrow>
     rel_sum (=) same_run (Kruskals_loop a edges cellMap) (Kruskals_loop b edges cellMap)"
proof (induction a edges cellMap arbitrary: b rule: Kruskals_loop.induct)
  case (1 a edges cellMap)
  from Kruskals_iteration_same[OF "1.prems", of edges cellMap] show ?case
  proof (cases rule: rel_sum_cases)
    case (err e)
    have "Kruskals_loop a edges cellMap = Inl e" by (subst Kruskals_loop.simps) (simp add: err)
    moreover have "Kruskals_loop b edges cellMap = Inl e" by (subst Kruskals_loop.simps) (simp add: err)
    ultimately show ?thesis by simp
  next
    case (ok u v)
    obtain a1 edges1 cellMap1 where u: "u = (a1, edges1, cellMap1)" by (metis surj_pair)
    obtain b1 where v: "v = (b1, edges1, cellMap1)" and R1: "same_run a1 b1"
      using ok(3) u by (cases v) auto
    note ua = Kruskals_loop_unfold[OF ok(1)[unfolded u]]
    note ub = Kruskals_loop_unfold[OF ok(2)[unfolded v]]
    show ?thesis
    proof (cases "0 < length edges1")
      case True
      then have ea: "Kruskals_loop a edges cellMap = Kruskals_loop a1 edges1 cellMap1"
        and eb: "Kruskals_loop b edges cellMap = Kruskals_loop b1 edges1 cellMap1"
        unfolding ua ub by (simp_all only: if_True)
      show ?thesis unfolding ea eb by (rule "1.IH"[OF ok(1)[unfolded u] refl refl True R1])
    next
      case False
      then have ea: "Kruskals_loop a edges cellMap = Inr a1"
        and eb: "Kruskals_loop b edges cellMap = Inr b1"
        unfolding ua ub by (simp_all only: if_False)
      show ?thesis unfolding ea eb using R1 by simp
    qed
  qed
qed

lemma Kruskals_same:
  assumes R: "same_run a b"
  shows "rel_sum (=) same_run (Kruskals a) (Kruskals b)"
  unfolding Kruskals_def Let_def same_run_fields(5,11)[OF R] by (rule Kruskals_loop_same[OF R])

lemma GenerateMaze_start_same:
  assumes R: "same_run a b" and s: "GenerateMaze_start a = (r, c, a3)"
  shows "\<exists>b3. GenerateMaze_start b = (r, c, b3) \<and> same_run a3 b3"
proof -
  note f = same_run_fields[OF R]
  obtain r' a1 where r1: "random_index a (num_rows a) = (r', a1)" by fastforce
  from random_index_same_pair[OF R r1] obtain b1 where
    rb1: "random_index b (num_rows a) = (r', b1)" and R1: "same_run a1 b1" by blast
  note f1 = same_run_fields[OF R1]
  obtain c' a2 where r2: "random_index a1 (num_columns a1) = (c', a2)" by fastforce
  from random_index_same_pair[OF R1 r2] obtain b2 where
    rb2: "random_index b1 (num_columns a1) = (c', b2)" and R2: "same_run a2 b2" by blast
  note f2 = same_run_fields[OF R2]
  from s r1 r2 have e: "r = r'" "c = c'"
    "a3 = a2\<lparr>visited := (visited a2)(FindCellIndex (r, c) (cells a2) := True)\<rparr>"
    by (auto simp: GenerateMaze_start_def)
  have "GenerateMaze_start b =
      (r, c, b2\<lparr>visited := (visited a2)(FindCellIndex (r, c) (cells a2) := True)\<rparr>)"
    using rb1 rb2 e by (simp add: GenerateMaze_start_def f f1 f2)
  moreover have "same_run a3 (b2\<lparr>visited := (visited a2)(FindCellIndex (r, c) (cells a2) := True)\<rparr>)"
    unfolding e(3) by (rule same_run_update(1)[OF R2])
  ultimately show ?thesis by blast
qed

lemma GenerateMaze_same:
  assumes R: "same_run a b"
  shows "rel_option (rel_sum (=) same_run) (GenerateMaze a alg_drop) (GenerateMaze b alg_drop)"
proof -
  obtain r c a3 where sa: "GenerateMaze_start a = (r, c, a3)" by (metis surj_pair)
  from GenerateMaze_start_same[OF R sa] obtain b3 where
    sb: "GenerateMaze_start b = (r, c, b3)" and R3: "same_run a3 b3" by blast
  define ga where "ga =
         (if alg_drop = ''0'' then PrimsAlgorithm a3 r c
          else if alg_drop = ''1'' then Some (RecursiveBacktrack a3 [(r, c)])
          else if alg_drop = ''2'' then Some (Kruskals a3)
          else Some (Inr a3))"
  define gb where "gb =
         (if alg_drop = ''0'' then PrimsAlgorithm b3 r c
          else if alg_drop = ''1'' then Some (RecursiveBacktrack b3 [(r, c)])
          else if alg_drop = ''2'' then Some (Kruskals b3)
          else Some (Inr b3))"
  have g: "rel_option (rel_sum (=) same_run) ga gb"
    unfolding ga_def gb_def
    using PrimsAlgorithm_same[OF R3, of r c] RecursiveBacktrack_same[OF R3, of "[(r, c)]"]
      Kruskals_same[OF R3] R3
    by simp
  have ua: "GenerateMaze a alg_drop = (case ga of None \<Rightarrow> None | Some (Inl e) \<Rightarrow> Some (Inl e)
             | Some (Inr st4) \<Rightarrow> Some (CreateEntranceAndExit st4))"
    unfolding GenerateMaze_def sa ga_def by (simp add: Let_def)
  have ub: "GenerateMaze b alg_drop = (case gb of None \<Rightarrow> None | Some (Inl e) \<Rightarrow> Some (Inl e)
             | Some (Inr st4) \<Rightarrow> Some (CreateEntranceAndExit st4))"
    unfolding GenerateMaze_def sb gb_def by (simp add: Let_def)
  show ?thesis
  proof (cases ga)
    case None
    with g have "gb = None" by (cases gb) simp_all
    with None show ?thesis by (simp add: ua ub)
  next
    case (Some x)
    with g obtain y where y: "gb = Some y" "rel_sum (=) same_run x y" by (cases gb) simp_all
    from y(2) show ?thesis
    proof (cases rule: rel_sum_cases)
      case (err e)
      with Some y(1) show ?thesis by (simp add: ua ub)
    next
      case (ok a4 b4)
      with Some y(1) CreateEntranceAndExit_same[OF ok(3)] show ?thesis by (simp add: ua ub)
    qed
  qed
qed

lemma GenerateGrid_side_same:
  assumes "\<forall>i. draws st1 i = draws st2 i" and "frontier st1 = frontier st2"
  shows "same_run (GenerateGrid_side st1 side) (GenerateGrid_side st2 side)"
  using assms by (simp add: same_run_def GenerateGrid_side_def draws_def)

lemma run_passages_same:
  "same_outcome x y \<Longrightarrow> run_passages x = run_passages y"
  by (cases x; cases y)
     (auto simp: same_outcome_def run_passages_def same_run_fields(12) split: sum.splits)

lemma open_passages_maze_3x3:
  "open_passages maze_3x3 =
     [((0, 0), (0, 1)), ((0, 1), (0, 2)), ((0, 2), (1, 2)), ((1, 0), (2, 0)),
      ((1, 0), (1, 1)), ((1, 1), (2, 1)), ((1, 2), (2, 2)), ((2, 1), (2, 2))]"
  by code_simp

lemma run_passages_third_draw_half:
  "run_passages (GenerateMaze (GenerateGrid_side (page_load third_draw_half) 3) ''1'') =
     Some [((0, 0), (1, 0)), ((0, 1), (1, 1)), ((0, 1), (0, 2)), ((0, 2), (1, 2)),
           ((1, 0), (1, 1)), ((1, 2), (2, 2)), ((2, 0), (2, 1)), ((2, 1), (2, 2))]"
  by code_simp

section \<open>The claims\<close>

subsection \<open>Cell lookup\<close>

text \<open>
  Claim C9. For every cell \<open>(row, column)\<close> with \<open>0 \<le> row, column < side\<close>, the linear
  scan \<open>FindCellIndex\<close> over the row-major cell list that \<open>GenerateGrid\<close> builds returns
  \<open>row * side + column\<close>, the index \<open>IndexOf\<close> of the specification.
\<close>

theorem FindCellIndex_refines_IndexOf:
  assumes "0 \<le> row" "row < side" "0 \<le> column" "column < side"
  shows "FindCellIndex (row, column) (cells (GenerateGrid_side st side)) = IndexOf side (row, column) \<and>
         IndexOf side (row, column) = row * side + column"
  using FindCellIndex_cells[OF assms, of st] by (simp add: IndexOf_def)

theorem FindCellIndex_refines_IndexOf_witness:
  "(0::int) \<le> 1 \<and> (1::int) < 3 \<and> (0::int) \<le> 2 \<and> (2::int) < 3 \<and>
   FindCellIndex (1, 2) (cells (GenerateGrid_side (page_load first_choice) 3)) = 5 \<and>
   IndexOf 3 (1, 2) = 5"
  using FindCellIndex_refines_IndexOf[of 1 3 2 "page_load first_choice"] by simp

subsection \<open>Opening passages\<close>

text \<open>
  Claim C4, as amended. \<open>CutEdge\<close> has no \<open>NotAdjacent\<close> failure: for two cells of the
  grid that are not adjacent it returns normally, and when neither the columns nor the
  rows differ by exactly 1 it leaves the state as it was.
\<close>

theorem CutEdge_has_no_NotAdjacent:
  assumes ok: "grid_ok side st" and a: "a \<in> set (cells st)" and b: "b \<in> set (cells st)"
    and na: "\<not> adjacent a b"
  shows "\<exists>st'. CutEdge st a b = Inr st' \<and>
     (snd a - 1 \<noteq> snd b \<and> snd a + 1 \<noteq> snd b \<and> fst a - 1 \<noteq> fst b \<and> fst a + 1 \<noteq> fst b \<longrightarrow> st' = st)"
proof (cases "snd a - 1 \<noteq> snd b \<and> snd a + 1 \<noteq> snd b \<and> fst a - 1 \<noteq> fst b \<and> fst a + 1 \<noteq> fst b")
  case True
  then show ?thesis by (simp add: CutEdge_def)
next
  case False
  then have ne: "a \<noteq> b" by auto
  have ex: "\<exists>st'. (case set_style st (FindCellIndex a (cells st)) fa of Inl e \<Rightarrow> Inl e
                 | Inr st1 \<Rightarrow> set_style st1 (FindCellIndex b (cells st)) fb) = Inr st'" for fa fb
    using two_styles[OF ok a b ne, where fa = fa and fb = fb] by blast
  from False ex show ?thesis by (auto simp: CutEdge_def Let_def)
qed

theorem CutEdge_has_no_NotAdjacent_witness:
  "grid_ok 3 (GenerateGrid_side (page_load first_choice) 3) \<and>
   (0, 0) \<in> set (cells (GenerateGrid_side (page_load first_choice) 3)) \<and>
   (2, 2) \<in> set (cells (GenerateGrid_side (page_load first_choice) 3)) \<and>
   \<not> adjacent (0, 0) (2, 2) \<and>
   CutEdge (GenerateGrid_side (page_load first_choice) 3) (0, 0) (2, 2)
     = Inr (GenerateGrid_side (page_load first_choice) 3)"
proof -
  let ?g = "GenerateGrid_side (page_load first_choice) 3"
  have a: "(0, 0) \<in> set (cells ?g)" and b: "(2, 2) \<in> set (cells ?g)"
    by (simp_all add: cells_3x3)
  have na: "\<not> adjacent (0, 0) (2, 2)" by (simp add: adjacent_def)
  from CutEdge_has_no_NotAdjacent[OF grid_3x3 a b na]
  have "CutEdge ?g (0, 0) (2, 2) = Inr ?g" by auto
  with grid_3x3 a b na show ?thesis by simp
qed

text \<open>
  The claim as stated fails on a new 3 by 3 grid: for the non-adjacent cells \<open>(0,0)\<close>
  and \<open>(2,2)\<close> \<open>CutEdge\<close> returns the unchanged state, and for the non-adjacent
  cells \<open>(0,1)\<close> and \<open>(1,0)\<close>, whose columns differ by 1, it returns a state in which
  it has opened the left border of the first and the right border of the second.
\<close>

theorem CutEdge_NotAdjacent_counterexample:
  "\<not> adjacent (0, 0) (2, 2) \<and>
   CutEdge (GenerateGrid_side (page_load first_choice) 3) (0, 0) (2, 2)
     = Inr (GenerateGrid_side (page_load first_choice) 3) \<and>
   \<not> adjacent (0, 1) (1, 0) \<and>
   map_sum id (\<lambda>st. (borderLeftColor (style_of st (0, 1)), borderRightColor (style_of st (1, 0))))
     (CutEdge (GenerateGrid_side (page_load first_choice) 3) (0, 1) (1, 0))
     = Inr (transparent, transparent) \<and>
   borderLeftColor (style_of (GenerateGrid_side (page_load first_choice) 3) (0, 1)) = []"
  by (simp add: adjacent_def CutEdge_def GenerateGrid_side_def upto.simps FindCellIndex_def
      ArraysEqual_def set_style_def getElementById_def js_nth_def page_load_def new_grid_item_def
      style_of_def)

text \<open>
  Claim C7. In every state that a sequence of passage openings between adjacent cells and
  of entrance and exit creations reaches from a new grid, whatever the program writes in
  between to the background colours, to \<open>visited\<close>, to \<open>frontier\<close> and to the count of
  random draws, a cell \<open>a\<close> of the grid is among the connected neighbours of a cell \<open>b\<close>
  exactly when \<open>b\<close> is among those of \<open>a\<close>; and the state in which a run of any generator
  ends is such a state.
\<close>

theorem passages_symmetric:
  "(passages_opened side st \<longrightarrow>
      (\<forall>a\<in>set (cells st). \<forall>b\<in>set (cells st). IsOpen st a b \<longleftrightarrow> IsOpen st b a)) \<and>
   (1 \<le> side \<and> GenerateMaze (GenerateGrid_side st0 side) alg_drop = Some (Inr st') \<longrightarrow>
      passages_opened side st')"
  using passages_opened_invariant[of side st] GenerateMaze_opened[of side st0 alg_drop st']
  by blast

theorem passages_symmetric_witness:
  "passages_opened 3 maze_3x3 \<and>
   (0, 0) \<in> set (cells maze_3x3) \<and> (0, 1) \<in> set (cells maze_3x3) \<and>
   IsOpen maze_3x3 (0, 0) (0, 1) \<and> IsOpen maze_3x3 (0, 1) (0, 0)"
proof -
  note t = passages_symmetric[of 3 maze_3x3 "page_load first_choice" "''1''" maze_3x3]
  have c: "(0, 0) \<in> set (cells maze_3x3)" "(0, 1) \<in> set (cells maze_3x3)"
    by (simp_all add: grid_ok_in_cells[OF grid_ok_maze_3x3])
  have o: "IsOpen maze_3x3 (0, 0) (0, 1)" by code_simp
  from t generate_maze_3x3 have p: "passages_opened 3 maze_3x3" by simp
  with t c o have "IsOpen maze_3x3 (0, 1) (0, 0)" by blast
  with p c o show ?thesis by simp
qed

text \<open>
  Without adjacency the claim fails: \<open>CutEdge\<close> does not check its two cells. On a new
  3 by 3 grid, \<open>CutEdge\<close> on the cells \<open>(0, 1)\<close> and \<open>(1, 0)\<close>, which are not adjacent,
  returns normally, and afterwards \<open>(0, 0)\<close> is among the connected neighbours of its
  neighbour \<open>(0, 1)\<close>, but \<open>(0, 1)\<close> is not among those of \<open>(0, 0)\<close>.
\<close>

theorem passages_symmetric_counterexample:
  "adjacent (0, 1) (0, 0) \<and> \<not> adjacent (0, 1) (1, 0) \<and>
   \<not> isl (CutEdge (GenerateGrid_side (page_load first_choice) 3) (0, 1) (1, 0)) \<and>
   IsOpen (projr (CutEdge (GenerateGrid_side (page_load first_choice) 3) (0, 1) (1, 0))) (0, 1) (0, 0) \<and>
   \<not> IsOpen (projr (CutEdge (GenerateGrid_side (page_load first_choice) 3) (0, 1) (1, 0))) (0, 0) (0, 1)"
  by code_simp

subsection \<open>The Recursive Backtracker\<close>

text \<open>
  Claim C10. \<open>RecursiveBacktrack\<close> terminates for every state and random source (it is
  a total function, by the termination proof above). Every invocation that does not
  throw either marks a new cell visited or pops the stack, so the pair (unvisited
  cells, stack length) decreases lexicographically; and a run from the start state of
  \<open>GenerateMaze\<close> on a new grid of \<open>N = side * side\<close> cells makes at most \<open>2 * N\<close>
  invocations.
\<close>

theorem RecursiveBacktrack_terminates_within_2N:
  assumes "valid_random st" "1 \<le> side"
    and "GenerateMaze_start (GenerateGrid_side st side) = (startRow, startColumn, st3)"
  shows "RecursiveBacktrack_calls st3 [(startRow, startColumn)] \<le> nat (2 * (side * side)) \<and>
    (\<forall>s path s' path'. 0 < length path \<and> RecursiveBacktrack_body s path = Inr (s', path') \<longrightarrow>
       unvisited_count s' < unvisited_count s \<or>
       (unvisited_count s' = unvisited_count s \<and> length path' < length path))"
proof
  let ?g = "GenerateGrid_side st side"
  have ok: "grid_ok side ?g" by (rule grid_ok_GenerateGrid_side[OF assms(2)])
  have v: "valid_random ?g" using assms(1) by (simp add: valid_random_def GenerateGrid_side_def)
  note g = GenerateMaze_start_grid[OF v ok assms(3)]
  note i = grid_ok_index[OF ok g(1)]
  have len: "length (cells ?g) = nat (side * side)" by (rule grid_ok_length_cells[OF ok])
  have "unvisited_count st3 = unvisited_count (?g\<lparr>visited := (visited ?g)(startRow * side + startColumn := True)\<rparr>)"
    by (simp add: unvisited_count_def g)
  also have "\<dots> < unvisited_count ?g"
    using i len by (intro unvisited_count_visit) (simp_all add: GenerateGrid_side_def nat_less_iff)
  also have "\<dots> \<le> nat (side * side)" using unvisited_count_le[of ?g] len by simp
  finally have u: "unvisited_count st3 + 1 \<le> nat (side * side)" by simp
  have "RecursiveBacktrack_calls st3 [(startRow, startColumn)] \<le> 2 * unvisited_count st3 + 1 + 1"
    using RecursiveBacktrack_calls_bound[of st3 "[(startRow, startColumn)]"] by simp
  also have "\<dots> \<le> 2 * nat (side * side)" using u by simp
  also have "\<dots> = nat (2 * (side * side))" using assms(2) by (simp add: nat_mult_distrib)
  finally show "RecursiveBacktrack_calls st3 [(startRow, startColumn)] \<le> nat (2 * (side * side))" .
  show "\<forall>s path s' path'. 0 < length path \<and> RecursiveBacktrack_body s path = Inr (s', path') \<longrightarrow>
       unvisited_count s' < unvisited_count s \<or>
       (unvisited_count s' = unvisited_count s \<and> length path' < length path)"
    using RecursiveBacktrack_body_decreases by fastforce
qed

theorem RecursiveBacktrack_terminates_within_2N_witness:
  "valid_random (page_load first_choice) \<and> (1::int) \<le> 3 \<and>
   fst (GenerateMaze_start (GenerateGrid_side (page_load first_choice) 3)) = 0 \<and>
   fst (snd (GenerateMaze_start (GenerateGrid_side (page_load first_choice) 3))) = 0 \<and>
   RecursiveBacktrack_calls
     (snd (snd (GenerateMaze_start (GenerateGrid_side (page_load first_choice) 3)))) [(0, 0)] \<le> 18"
proof -
  let ?g = "GenerateGrid_side (page_load first_choice) 3"
  have f: "fst (GenerateMaze_start ?g) = 0" "fst (snd (GenerateMaze_start ?g)) = 0"
    by (simp_all add: GenerateMaze_start_def random_index_def GenerateGrid_side_def page_load_def
        first_choice_def)
  then have gs: "GenerateMaze_start ?g = (0, 0, snd (snd (GenerateMaze_start ?g)))"
    by (metis prod.collapse)
  have s: "(1::int) \<le> 3" by simp
  from RecursiveBacktrack_terminates_within_2N[OF valid_random_first_choice s gs] f
    valid_random_first_choice
  show ?thesis by simp
qed


text \<open>
  Claim C2, as amended. On the 3 by 3 grid, the Recursive Backtracker with a random
  source that always selects the first candidate starts at \<open>(0,0)\<close> and carves exactly
  the passages \<open>(0,0)-(0,1)\<close>, \<open>(0,1)-(0,2)\<close>, \<open>(0,2)-(1,2)\<close>, \<open>(1,2)-(2,2)\<close>,
  \<open>(2,2)-(2,1)\<close>, \<open>(2,1)-(1,1)\<close>, \<open>(1,1)-(1,0)\<close>, \<open>(1,0)-(2,0)\<close>, cells written
  \<open>(row, column)\<close>: a single serpentine path that first runs east along row 0. The
  list below is in the order of \<open>GetAllEdges\<close>.
\<close>

theorem RecursiveBacktrack_first_choice_3x3:
  "run_passages (generate first_choice ''0'' ''1'') =
     Some [((0, 0), (0, 1)), ((0, 1), (0, 2)), ((0, 2), (1, 2)), ((1, 0), (2, 0)),
           ((1, 0), (1, 1)), ((1, 1), (2, 1)), ((1, 2), (2, 2)), ((2, 1), (2, 2))]"
  by code_simp

text \<open>
  The passage set of the claim as stated is the transpose of this one. Its passage
  \<open>(0,0)-(1,0)\<close> stays closed in both directions, and the passage \<open>(0,0)-(0,1)\<close>,
  which it does not contain, is open.
\<close>

theorem RecursiveBacktrack_first_choice_3x3_counterexample:
  "\<not> run_IsOpen (generate first_choice ''0'' ''1'') (0, 0) (1, 0) \<and>
   \<not> run_IsOpen (generate first_choice ''0'' ''1'') (1, 0) (0, 0) \<and>
   run_IsOpen (generate first_choice ''0'' ''1'') (0, 0) (0, 1) \<and>
   run_passages (generate first_choice ''0'' ''1'') \<noteq> None"
  by code_simp

subsection \<open>The solver\<close>

text \<open>
  Claim C3, as amended. The breadth-first layering starts from the cell \<open>(0,0)\<close>, the
  top-left corner (the cell that \<open>CreateEntranceAndExit\<close> names the exit), whose index
  is 0 and to which it gives depth 0. An iteration takes the head of the queue and
  appends to its tail. The loop exits early only in an iteration that has dequeued the
  bottom-right corner \<open>(num_rows - 1, num_columns - 1)\<close> (the cell named the entrance),
  and in a well-formed grid every iteration that dequeues that cell exits.
\<close>

theorem Dijkstras_layering_from_origin:
  "queue (snd (Dijkstras_start st)) = [(0, 0, Num 0)] \<and>
   depthMap (snd (Dijkstras_start st)) = [0 \<mapsto> Num 0] \<and>
   (grid_ok side st \<longrightarrow> FindCellIndex (0, 0) (cells (fst (Dijkstras_start st))) = 0) \<and>
   (\<forall>r. Dijkstras_iteration s q = Inr (Break r) \<longrightarrow>
      (\<exists>d rest. queue q = (num_rows s - 1, num_columns s - 1, d) # rest)) \<and>
   (\<forall>s' q'. Dijkstras_iteration s q = Inr (Continue (s', q')) \<longrightarrow>
      (\<exists>cell rest new. queue q = cell # rest \<and>
         (fst cell, fst (snd cell)) \<noteq> (num_rows s - 1, num_columns s - 1) \<and> queue q' = rest @ new)) \<and>
   (grid_ok side s \<longrightarrow> (\<forall>d rest. queue q = (side - 1, side - 1, d) # rest \<longrightarrow>
      (\<exists>r. Dijkstras_iteration s q = Inr (Break r))))"
proof (intro conjI impI allI)
  show "queue (snd (Dijkstras_start st)) = [(0, 0, Num 0)]" by (simp add: Dijkstras_start_def)
  show "depthMap (snd (Dijkstras_start st)) = [0 \<mapsto> Num 0]" by (simp add: Dijkstras_start_def)
  show "FindCellIndex (0, 0) (cells (fst (Dijkstras_start st))) = 0" if ok: "grid_ok side st"
  proof -
    have "1 \<le> side" using ok by (simp add: grid_ok_def)
    then have "(0, 0) \<in> set (cells st)" by (simp add: grid_ok_in_cells[OF ok])
    from grid_ok_index(1)[OF ok this] show ?thesis by (simp add: Dijkstras_start_def)
  qed
  show "\<exists>d rest. queue q = (num_rows s - 1, num_columns s - 1, d) # rest"
    if "Dijkstras_iteration s q = Inr (Break r)" for r
    using that by (rule Dijkstras_iteration_Break)
  show "\<exists>cell rest new. queue q = cell # rest \<and>
         (fst cell, fst (snd cell)) \<noteq> (num_rows s - 1, num_columns s - 1) \<and> queue q' = rest @ new"
    if "Dijkstras_iteration s q = Inr (Continue (s', q'))" for s' q'
    using that by (rule Dijkstras_iteration_Continue)
  show "\<exists>r. Dijkstras_iteration s q = Inr (Break r)"
    if "grid_ok side s" "queue q = (side - 1, side - 1, d) # rest" for d rest
    using that by (rule Dijkstras_iteration_entrance)
qed

theorem Dijkstras_layering_from_origin_witness:
  "grid_ok 3 maze_3x3 \<and>
   queue (snd (Dijkstras_start maze_3x3)) = [(0, 0, Num 0)] \<and>
   FindCellIndex (0, 0) (cells (fst (Dijkstras_start maze_3x3))) = 0 \<and>
   is_Break (projr (Dijkstras_iteration maze_3x3
      \<lparr>queue = [(2, 2, Num 4)], depthMap = Map.empty, depth_writes = []\<rparr>))"
proof -
  let ?q = "\<lparr>queue = [(2, 2, Num 4)], depthMap = Map.empty, depth_writes = []\<rparr>"
  note t = Dijkstras_layering_from_origin[of maze_3x3 3 maze_3x3 ?q]
  from t grid_ok_maze_3x3 have "\<exists>r. Dijkstras_iteration maze_3x3 ?q = Inr (Break r)" by simp
  then have "is_Break (projr (Dijkstras_iteration maze_3x3 ?q))" by auto
  with t grid_ok_maze_3x3 show ?thesis by simp
qed

text \<open>
  The claim as stated fails on the example maze: the start queue is not the
  bottom-right corner, which has no depth at the start; the first iteration, which
  dequeues \<open>(0,0)\<close>, continues; and an iteration that dequeues \<open>(2,2)\<close> exits the loop
  with \<open>(0,0)\<close> still queued.
\<close>

theorem Dijkstras_layering_counterexample:
  "queue (snd (Dijkstras_start maze_3x3)) \<noteq> [(num_rows maze_3x3 - 1, num_columns maze_3x3 - 1, Num 0)] \<and>
   depthMap (snd (Dijkstras_start maze_3x3)) (FindCellIndex (num_rows maze_3x3 - 1, num_columns maze_3x3 - 1) (cells maze_3x3)) = None \<and>
   is_Continue (projr (Dijkstras_iteration (fst (Dijkstras_start maze_3x3)) (snd (Dijkstras_start maze_3x3)))) \<and>
   is_Break (projr (Dijkstras_iteration (fst (Dijkstras_start maze_3x3))
      (snd (Dijkstras_start maze_3x3)\<lparr>queue := [(2, 2, Num 4), (0, 0, Num 0)]\<rparr>)))"
  by code_simp

subsection \<open>Determinism\<close>

text \<open>
  Claim C8. A generator run is a function of the grid size, the selected algorithm and
  the numbers drawn: take two states in which the calls of \<open>Math.random()\<close> return the
  same numbers from now on, however the two sources are stored and however far they have
  been read, and which agree on the frontier (which \<open>GenerateGrid\<close> does not reset),
  whatever else earlier runs left in them. After \<open>GenerateGrid\<close> for the same size, the
  two runs of \<open>GenerateMaze\<close> for the same algorithm have the same outcome: both do not
  end, or both throw the same error, or both return, in states that agree in every
  variable but the stored source and its position and that have the same open passages.
\<close>

theorem generators_deterministic:
  assumes "\<forall>i. draws st1 i = draws st2 i" and "frontier st1 = frontier st2"
  shows "same_outcome (GenerateMaze (GenerateGrid_side st1 side) alg_drop)
           (GenerateMaze (GenerateGrid_side st2 side) alg_drop) \<and>
         run_passages (GenerateMaze (GenerateGrid_side st1 side) alg_drop) =
           run_passages (GenerateMaze (GenerateGrid_side st2 side) alg_drop)"
proof -
  from GenerateMaze_same[OF GenerateGrid_side_same[OF assms]]
  have "same_outcome (GenerateMaze (GenerateGrid_side st1 side) alg_drop)
           (GenerateMaze (GenerateGrid_side st2 side) alg_drop)"
    by (simp add: same_outcome_iff)
  with run_passages_same[OF this] show ?thesis by simp
qed

theorem generators_deterministic_witness:
  "(\<forall>i. draws (page_load third_draw_half) i =
        draws (maze_3x3\<lparr>math_random := (\<lambda>i. if i = 9 then 1 / 2 else if i < 7 then 3 / 4 else 0),
                 random_calls := 7, frontier := []\<rparr>) i) \<and>
   frontier (page_load third_draw_half) =
     frontier (maze_3x3\<lparr>math_random := (\<lambda>i. if i = 9 then 1 / 2 else if i < 7 then 3 / 4 else 0),
                 random_calls := 7, frontier := []\<rparr>) \<and>
   math_random (page_load third_draw_half) 0 \<noteq>
     math_random (maze_3x3\<lparr>math_random := (\<lambda>i. if i = 9 then 1 / 2 else if i < 7 then 3 / 4 else 0),
                 random_calls := 7, frontier := []\<rparr>) 0 \<and>
   random_calls (page_load third_draw_half) \<noteq>
     random_calls (maze_3x3\<lparr>math_random := (\<lambda>i. if i = 9 then 1 / 2 else if i < 7 then 3 / 4 else 0),
                 random_calls := 7, frontier := []\<rparr>) \<and>
   run_passages (GenerateMaze (GenerateGrid_side
       (maze_3x3\<lparr>math_random := (\<lambda>i. if i = 9 then 1 / 2 else if i < 7 then 3 / 4 else 0),
                 random_calls := 7, frontier := []\<rparr>) 3) ''1'') =
     Some [((0, 0), (1, 0)), ((0, 1), (1, 1)), ((0, 1), (0, 2)), ((0, 2), (1, 2)),
           ((1, 0), (1, 1)), ((1, 2), (2, 2)), ((2, 0), (2, 1)), ((2, 1), (2, 2))] \<and>
   run_passages (GenerateMaze (GenerateGrid_side (page_load first_choice) 3) ''1'') \<noteq>
     Some [((0, 0), (1, 0)), ((0, 1), (1, 1)), ((0, 1), (0, 2)), ((0, 2), (1, 2)),
           ((1, 0), (1, 1)), ((1, 2), (2, 2)), ((2, 0), (2, 1)), ((2, 1), (2, 2))]"
proof -
  let ?st1 = "page_load third_draw_half"
  let ?st2 = "maze_3x3\<lparr>math_random := (\<lambda>i. if i = 9 then 1 / 2 else if i < 7 then 3 / 4 else 0),
                 random_calls := 7, frontier := []\<rparr>"
  have d: "\<forall>i. draws ?st1 i = draws ?st2 i"
    by (simp add: draws_def page_load_def third_draw_half_def)
  have f: "frontier ?st1 = frontier ?st2" by (simp add: page_load_def)
  have n: "math_random ?st1 0 \<noteq> math_random ?st2 0" "random_calls ?st1 \<noteq> random_calls ?st2"
    by (simp_all add: page_load_def third_draw_half_def)
  from generators_deterministic[OF d f, of 3 "''1''"]
  have r: "run_passages (GenerateMaze (GenerateGrid_side ?st2 3) ''1'') =
     Some [((0, 0), (1, 0)), ((0, 1), (1, 1)), ((0, 1), (0, 2)), ((0, 2), (1, 2)),
           ((1, 0), (1, 1)), ((1, 2), (2, 2)), ((2, 0), (2, 1)), ((2, 1), (2, 2))]"
    by (simp add: run_passages_third_draw_half)
  have "run_passages (GenerateMaze (GenerateGrid_side (page_load first_choice) 3) ''1'') = Some (open_passages maze_3x3)"
    by (simp add: generate_maze_3x3 run_passages_def)
  then have o: "run_passages (GenerateMaze (GenerateGrid_side (page_load first_choice) 3) ''1'') \<noteq>
     Some [((0, 0), (1, 0)), ((0, 1), (1, 1)), ((0, 1), (0, 2)), ((0, 2), (1, 2)),
           ((1, 0), (1, 1)), ((1, 2), (2, 2)), ((2, 0), (2, 1)), ((2, 1), (2, 2))]"
    by (simp add: open_passages_maze_3x3)
  from d f n r o show ?thesis by blast
qed


subsection \<open>The generators\<close>



text \<open>
  Claim C5. In every run of Prim's algorithm from the start state of \<open>GenerateMaze\<close> on a
  new grid, at the head of every iteration of the loop each frontier cell, and so the
  cell that the iteration removes, has at least one visited neighbour; the iteration
  does not throw, and neither does the run, which returns.
\<close>

theorem Prims_frontier_cell_has_visited_neighbor:
  assumes "valid_random st0" and "1 \<le> side" and "frontier st0 = []"
    and "GenerateMaze_start (GenerateGrid_side st0 side) = (startRow, startColumn, st3)"
  shows "\<exists>st4. PrimsAlgorithm_setup st3 startRow startColumn = Inr st4 \<and>
     (\<forall>st. Prims_reaches st4 st \<longrightarrow>
        (\<forall>cell\<in>set (frontier st). visitedNeighbors st (Neighbors st (fst cell) (snd cell)) \<noteq> []) \<and>
        (length (frontier st) > 0 \<longrightarrow> (\<exists>st'. Prims_iteration st = Inr st'))) \<and>
     (\<exists>st'. PrimsAlgorithm st3 startRow startColumn = Some (Inr st'))"
proof -
  note g = GenerateMaze_start_tree[OF assms(1,2,4)]
  have fr: "frontier st3 = []" using g(5) assms(3) by simp
  from PrimsAlgorithm_setup_inv[OF g(1) g(3) fr g(2)] obtain st4 where
    su: "PrimsAlgorithm_setup st3 startRow startColumn = Inr st4" and inv4: "Prims_inv side st4"
    by blast
  have reach: "(\<forall>cell\<in>set (frontier st). visitedNeighbors st (Neighbors st (fst cell) (snd cell)) \<noteq> []) \<and>
        (length (frontier st) > 0 \<longrightarrow> (\<exists>st'. Prims_iteration st = Inr st'))"
    if r: "Prims_reaches st4 st" for st
  proof
    have inv: "Prims_inv side st" by (rule Prims_reaches_inv[OF r inv4])
    then have ok: "grid_ok side st" by (simp add: Prims_inv_def tree_inv_def)
    show "\<forall>cell\<in>set (frontier st). visitedNeighbors st (Neighbors st (fst cell) (snd cell)) \<noteq> []"
    proof
      fix cell assume c: "cell \<in> set (frontier st)"
      with inv have "cell \<in> set (cells st)" "\<exists>v\<in>visited_cells st. adjacent cell v"
        by (auto simp: Prims_inv_def)
      with visitedNeighbors_set[OF ok this(1)]
      have "set (visitedNeighbors st (Neighbors st (fst cell) (snd cell))) \<noteq> {}" by auto
      then show "visitedNeighbors st (Neighbors st (fst cell) (snd cell)) \<noteq> []" by auto
    qed
    show "length (frontier st) > 0 \<longrightarrow> (\<exists>st'. Prims_iteration st = Inr st')"
      using Prims_iteration_inv[OF inv] by auto
  qed
  from Prims_loop_tree[OF inv4] su
  have "\<exists>st'. PrimsAlgorithm st3 startRow startColumn = Some (Inr st')"
    by (auto simp: PrimsAlgorithm_def)
  with su reach show ?thesis by blast
qed

theorem Prims_frontier_cell_has_visited_neighbor_witness:
  "valid_random (page_load first_choice) \<and> (1::int) \<le> 3 \<and> frontier (page_load first_choice) = [] \<and>
   fst (GenerateMaze_start (GenerateGrid_side (page_load first_choice) 3)) = 0 \<and>
   fst (snd (GenerateMaze_start (GenerateGrid_side (page_load first_choice) 3))) = 0 \<and>
   frontier (projr (PrimsAlgorithm_setup
     (snd (snd (GenerateMaze_start (GenerateGrid_side (page_load first_choice) 3)))) 0 0))
     = [(0, 1), (1, 0)] \<and>
   visitedNeighbors
     (projr (PrimsAlgorithm_setup
        (snd (snd (GenerateMaze_start (GenerateGrid_side (page_load first_choice) 3)))) 0 0))
     (Neighbors (projr (PrimsAlgorithm_setup
        (snd (snd (GenerateMaze_start (GenerateGrid_side (page_load first_choice) 3)))) 0 0)) 0 1)
     \<noteq> [] \<and>
   PrimsAlgorithm (snd (snd (GenerateMaze_start (GenerateGrid_side (page_load first_choice) 3)))) 0 0
     \<noteq> None"
proof -
  let ?g = "GenerateGrid_side (page_load first_choice) 3"
  let ?st3 = "snd (snd (GenerateMaze_start ?g))"
  have f: "fst (GenerateMaze_start ?g) = 0" "fst (snd (GenerateMaze_start ?g)) = 0"
    by (simp_all add: GenerateMaze_start_def random_index_def GenerateGrid_side_def page_load_def
        first_choice_def)
  then have gs: "GenerateMaze_start ?g = (0, 0, ?st3)" by (metis prod.collapse)
  have s: "(1::int) \<le> 3" by simp
  have fr: "frontier (page_load first_choice) = []" by (simp add: page_load_def)
  have fs: "frontier (projr (PrimsAlgorithm_setup ?st3 0 0)) = [(0, 1), (1, 0)]" by code_simp
  from Prims_frontier_cell_has_visited_neighbor[OF valid_random_first_choice s fr gs]
  obtain st4 where su: "PrimsAlgorithm_setup ?st3 0 0 = Inr st4"
    and r: "\<And>st. Prims_reaches st4 st \<Longrightarrow>
        (\<forall>cell\<in>set (frontier st). visitedNeighbors st (Neighbors st (fst cell) (snd cell)) \<noteq> [])"
    and ret: "\<exists>st'. PrimsAlgorithm ?st3 0 0 = Some (Inr st')" by blast
  have p: "projr (PrimsAlgorithm_setup ?st3 0 0) = st4" using su by simp
  from r[OF Prims_reaches.enters] fs p
  have "visitedNeighbors st4 (Neighbors st4 (fst (0, 1)) (snd (0, 1))) \<noteq> []" by simp
  with valid_random_first_choice fr f fs ret p show ?thesis by auto
qed

subsection \<open>The depths of the solver\<close>

text \<open>
  Claim C6. On a grid whose open passages form a spanning tree, as every generator
  leaves it, the first loop of \<open>Dijkstras\<close> returns, and in every state at the head of
  the loop, and in the state that the loop ends in, each key of the depth map has been
  written exactly once: the writes made so far are to distinct keys and are the entries
  of the map. An iteration does not throw; the depths it stores go to distinct keys that
  had no depth recorded, each is the depth recorded for the dequeued cell, the parent,
  plus one, and no depth recorded before is changed.
\<close>

theorem Dijkstras_depth_written_once:
  assumes "grid_ok side st0" and "spanning_tree st0"
  shows "(\<exists>st q. Dijkstras_phase1 st0 = Some (Inr (st, q)) \<and>
            distinct (map fst (depth_writes q)) \<and>
            set (depth_writes q) = {(k, d). depthMap q k = Some d}) \<and>
         (\<forall>st q. Dijkstras_reaches st0 st q \<longrightarrow>
            distinct (map fst (depth_writes q)) \<and>
            set (depth_writes q) = {(k, d). depthMap q k = Some d} \<and>
            (length (queue q) > 0 \<longrightarrow>
               (\<exists>res. Dijkstras_iteration st q = Inr res \<and> writes_once st q (snd (step_state res)))))"
proof (intro conjI allI impI)
  obtain st1 q1 where s: "Dijkstras_start st0 = (st1, q1)" by (metis surj_pair)
  from Dijkstras_start_inv[OF assms s] obtain parent where "BFS_inv side parent st1 q1" ..
  from Dijkstras_layering_returns[OF this] obtain st q where
    "Dijkstras_layering st1 q1 = Some (Inr (st, q))" "BFS_inv side parent st q" by blast
  then show "\<exists>st q. Dijkstras_phase1 st0 = Some (Inr (st, q)) \<and>
            distinct (map fst (depth_writes q)) \<and>
            set (depth_writes q) = {(k, d). depthMap q k = Some d}"
    using s by (auto simp: Dijkstras_phase1_def BFS_inv_def)
next
  fix st q assume r: "Dijkstras_reaches st0 st q"
  from Dijkstras_reaches_inv[OF r assms] obtain parent where inv: "BFS_inv side parent st q" ..
  then show "distinct (map fst (depth_writes q))"
    and "set (depth_writes q) = {(k, d). depthMap q k = Some d}"
    by (simp_all add: BFS_inv_def)
  assume "length (queue q) > 0"
  then have "queue q \<noteq> []" by simp
  from Dijkstras_iteration_inv[OF inv this]
  show "\<exists>res. Dijkstras_iteration st q = Inr res \<and> writes_once st q (snd (step_state res))"
    by fastforce
qed

theorem Dijkstras_depth_written_once_witness:
  "grid_ok 3 maze_3x3 \<and> spanning_tree maze_3x3 \<and>
   Dijkstras_reaches maze_3x3 (fst (Dijkstras_start maze_3x3)) (snd (Dijkstras_start maze_3x3)) \<and>
   length (queue (snd (Dijkstras_start maze_3x3))) > 0 \<and>
   (\<exists>st q. Dijkstras_phase1 maze_3x3 = Some (Inr (st, q)) \<and> distinct (map fst (depth_writes q))) \<and>
   depth_writes (snd (projr (the (Dijkstras_phase1 maze_3x3)))) =
     [(0, Num 0), (1, Num 1), (2, Num 2), (5, Num 3), (8, Num 4)] \<and>
   (\<exists>res. Dijkstras_iteration (fst (Dijkstras_start maze_3x3)) (snd (Dijkstras_start maze_3x3)) = Inr res \<and>
      writes_once (fst (Dijkstras_start maze_3x3)) (snd (Dijkstras_start maze_3x3)) (snd (step_state res)))"
proof -
  let ?st = "fst (Dijkstras_start maze_3x3)" and ?q = "snd (Dijkstras_start maze_3x3)"
  note t = Dijkstras_depth_written_once[OF grid_ok_maze_3x3 spanning_tree_maze_3x3]
  have r: "Dijkstras_reaches maze_3x3 ?st ?q" by (rule Dijkstras_reaches.start) simp
  have ne: "length (queue ?q) > 0" by (simp add: Dijkstras_start_def)
  from t have "\<exists>st q. Dijkstras_phase1 maze_3x3 = Some (Inr (st, q)) \<and> distinct (map fst (depth_writes q))"
    by blast
  moreover from t r ne have "\<exists>res. Dijkstras_iteration ?st ?q = Inr res \<and> writes_once ?st ?q (snd (step_state res))"
    by blast
  ultimately show ?thesis
    using grid_ok_maze_3x3 spanning_tree_maze_3x3 r ne Dijkstras_phase1_maze_3x3 by blast
qed

end
